(* ===== verification/Prelude.thy ===== *)
theory Prelude
  imports "HOL-Library.Word" "HOL-Library.Multiset" "HOL-Library.Code_Target_Nat"
begin

text \<open>
  Shared vocabulary of the development: the machine integer types of the program, Rust's
  saturating operations on them, and the facts on lists and finite sets that several
  components use. Nothing here is specific to tperf.
\<close>

section \<open>Machine integers\<close>

type_synonym byte = "8 word"
type_synonym u16 = "16 word"
type_synonym u32 = "32 word"
type_synonym u64 = "64 word"

named_theorems sat_simps \<open>unsigned values of the saturating operations\<close>

text \<open>\<open>saturating_sub\<close>, \<open>saturating_add\<close> and \<open>saturating_mul\<close> of the unsigned Rust
  integers: the exact result where it fits, else the nearest bound.\<close>

definition saturating_sub :: "'a::len word \<Rightarrow> 'a word \<Rightarrow> 'a word" where
  "saturating_sub a b = (if b \<le> a then a - b else 0)"

definition saturating_add :: "'a::len word \<Rightarrow> 'a word \<Rightarrow> 'a word" where
  "saturating_add a b = (if uint a + uint b < 2 ^ LENGTH('a) then a + b else -1)"

definition saturating_mul :: "'a::len word \<Rightarrow> 'a word \<Rightarrow> 'a word" where
  "saturating_mul a b = (if uint a * uint b < 2 ^ LENGTH('a) then a * b else -1)"

lemma uint_saturating_sub [sat_simps]:
  "uint (saturating_sub a b) = max 0 (uint a - uint b)"
  by (simp add: saturating_sub_def word_le_def uint_sub_if')

lemma unat_saturating_sub: "unat (saturating_sub a b) = unat a - unat b"
proof (cases "b \<le> a")
  case True
  then show ?thesis by (simp add: saturating_sub_def unat_sub)
next
  case False
  then have "unat a \<le> unat b" by (simp add: word_le_nat_alt)
  then show ?thesis using False by (simp add: saturating_sub_def)
qed

lemma uint_max_word: "uint (-1 :: 'a::len word) = 2 ^ LENGTH('a) - 1"
  by (simp add: uint_word_ariths(1) mask_eq_exp_minus_1 unsigned_minus_1_eq_mask)

lemma uint_saturating_add [sat_simps]:
  "uint (saturating_add a b) = min (uint a + uint b) (2 ^ LENGTH('a) - 1)"
  for a b :: "'a::len word"
  by (auto simp: saturating_add_def uint_max_word uint_add_lem min_def)

lemma uint_saturating_mul [sat_simps]:
  "uint (saturating_mul a b) = min (uint a * uint b) (2 ^ LENGTH('a) - 1)"
  for a b :: "'a::len word"
  by (auto simp: saturating_mul_def uint_max_word uint_mult_lem min_def)

lemma unat_saturating_mul: "unat (saturating_mul a b) = min (unat a * unat b) (2 ^ LENGTH('a) - 1)"
  for a b :: "'a::len word"
proof -
  have "int (unat (saturating_mul a b)) = min (int (unat a) * int (unat b)) (2 ^ LENGTH('a) - 1)"
    using uint_saturating_mul [of a b] by (simp only: uint_nat)
  also have "\<dots> = int (min (unat a * unat b) (2 ^ LENGTH('a) - 1))"
    by (simp only: of_nat_min of_nat_mult of_nat_diff [OF one_le_power [of "2 :: nat"]] of_nat_power of_nat_1) simp
  finally show ?thesis by (simp only: of_nat_eq_iff)
qed

lemma unat_saturating_add: "unat (saturating_add a b) = min (unat a + unat b) (2 ^ LENGTH('a) - 1)"
  for a b :: "'a::len word"
proof -
  have "int (unat (saturating_add a b)) = min (int (unat a) + int (unat b)) (2 ^ LENGTH('a) - 1)"
    using uint_saturating_add [of a b] by (simp only: uint_nat)
  also have "\<dots> = int (min (unat a + unat b) (2 ^ LENGTH('a) - 1))"
    by (simp only: of_nat_min of_nat_add of_nat_diff [OF one_le_power [of "2 :: nat"]] of_nat_power of_nat_1) simp
  finally show ?thesis by (simp only: of_nat_eq_iff)
qed

lemma unat_sum_list:
  "sum_list (map unat ws) < 2 ^ LENGTH('a) \<Longrightarrow> unat (sum_list ws) = sum_list (map unat ws)"
  for ws :: "'a::len word list"
proof (induction ws)
  case (Cons w ws)
  then have "unat (sum_list ws) = sum_list (map unat ws)" by simp
  then have "unat w + unat (sum_list ws) < 2 ^ LENGTH('a)" using Cons.prems by simp
  then have "unat (w + sum_list ws) = unat w + unat (sum_list ws)" by (simp only: unat_add_lem)
  then show ?case using Cons by simp
qed simp

lemma unat_of_nat_small: "n < 2 ^ LENGTH('a) \<Longrightarrow> unat (of_nat n :: 'a::len word) = n"
  by (simp add: unsigned_of_nat take_bit_nat_eq_self)

section \<open>Lists and finite sets\<close>

text \<open>An unordered pair, and the unordered pairs of distinct elements of a set.\<close>

definition undirected :: "'a \<times> 'a \<Rightarrow> 'a set" where
  "undirected p = {fst p, snd p}"

definition two_subsets :: "'a set \<Rightarrow> 'a set set" where
  "two_subsets S = {B. B \<subseteq> S \<and> card B = 2}"

lemma two_subsets_alt: "two_subsets S = {{a, b} |a b. a \<in> S \<and> b \<in> S \<and> a \<noteq> b}"
  by (auto simp: two_subsets_def card_2_iff)

lemma card_two_subsets: "finite S \<Longrightarrow> card (two_subsets S) = card S * (card S - 1) div 2"
  by (simp add: two_subsets_def n_subsets choose_two)

lemma finite_two_subsets: "finite S \<Longrightarrow> finite (two_subsets S)"
  unfolding two_subsets_def by (rule finite_subset [of _ "Pow S"]) auto

text \<open>A list no longer than a set it covers is an enumeration of that set.\<close>

lemma covering_list_distinct:
  assumes "finite S" "S \<subseteq> set xs" "length xs = card S"
  shows "distinct xs \<and> set xs = S"
proof -
  have "card (set xs) \<le> card S" using assms(3) card_length [of xs] by simp
  then have "S = set xs" using assms(2) by (intro card_seteq) auto
  then show ?thesis using assms(3) card_distinct [of xs] by simp
qed

lemma sum_list_bound_tight:
  fixes xs :: "nat list"
  assumes "\<And>x. x \<in> set xs \<Longrightarrow> x \<le> k" and "sum_list xs = k * length xs" and "x \<in> set xs"
  shows "x = k"
  using assms
proof (induction xs)
  case Nil
  then show ?case by simp
next
  case (Cons y ys)
  have le: "sum_list ys \<le> k * length ys"
    using sum_list_mono [of ys "\<lambda>x. x" "\<lambda>_. k"] Cons.prems(1) by (simp add: sum_list_triv mult.commute)
  have "y \<le> k" using Cons.prems(1) by simp
  with le Cons.prems(2) have "y = k" "sum_list ys = k * length ys" by simp_all
  then show ?case using Cons by auto
qed

lemma two_subsets_image: "inj f \<Longrightarrow> two_subsets (f ` S) = (`) f ` two_subsets S"
proof (intro equalityI subsetI)
  fix B assume "inj f" "B \<in> two_subsets (f ` S)"
  then obtain C where "C \<subseteq> S" "B = f ` C" by (auto simp: two_subsets_def subset_image_iff)
  with \<open>inj f\<close> \<open>B \<in> _\<close> show "B \<in> (`) f ` two_subsets S"
    by (auto simp: two_subsets_def card_image inj_on_subset)
qed (auto simp: two_subsets_def card_image inj_on_subset)

lemma inj_image_Some: "inj ((`) Some)"
  by (simp add: inj_def inj_image_eq_iff)

lemma shifted_mod_inj:
  fixes u v m r :: nat
  assumes "(u + r) mod m = (v + r) mod m" "u < m" "v < m"
  shows "u = v"
proof -
  have "a = b" if "(b + r) mod m = (a + r) mod m" "a \<le> b" "b < m" for a b :: nat
  proof -
    have "m dvd (b + r) - (a + r)" using that by (intro mod_eq_dvd_iff_nat [THEN iffD1]) auto
    then have "m dvd b - a" by simp
    then show ?thesis using that by (meson diff_is_0_eq dvd_imp_le le_antisym less_imp_diff_less linorder_not_less not_gr_zero)
  qed
  then show ?thesis using assms by (metis nle_le)
qed

lemma find_SomeD: "find P xs = Some x \<Longrightarrow> x \<in> set xs \<and> P x"
  by (auto simp: find_Some_iff)

lemma distinct_count_list: "distinct xs \<Longrightarrow> count_list xs x = (if x \<in> set xs then 1 else 0)"
  by (induction xs) auto

text \<open>Map with a partial function, failing at the first element that fails (a loop that may panic).\<close>

fun map_opt :: "('a \<Rightarrow> 'b option) \<Rightarrow> 'a list \<Rightarrow> 'b list option" where
  "map_opt f [] = Some []"
| "map_opt f (x # xs) =
     (case f x of None \<Rightarrow> None | Some y \<Rightarrow> map_option ((#) y) (map_opt f xs))"

lemma map_opt_eq_Some:
  "map_opt f xs = Some ys \<longleftrightarrow> list_all2 (\<lambda>x y. f x = Some y) xs ys"
  by (induction xs arbitrary: ys) (auto split: option.splits simp: list_all2_Cons1)

lemma map_opt_total: "(\<And>x. x \<in> set xs \<Longrightarrow> f x = Some (g x)) \<Longrightarrow> map_opt f xs = Some (map g xs)"
  by (induction xs) auto

text \<open>\<open>iter().position(p)\<close>.\<close>

fun position :: "('a \<Rightarrow> bool) \<Rightarrow> 'a list \<Rightarrow> nat option" where
  "position P [] = None"
| "position P (x # xs) = (if P x then Some 0 else map_option Suc (position P xs))"

lemma position_nth: "distinct xs \<Longrightarrow> i < length xs \<Longrightarrow> position (\<lambda>y. y = xs ! i) xs = Some i"
  by (induction xs arbitrary: i) (auto simp: nth_Cons split: nat.splits)

lemma position_SomeD: "position P xs = Some i \<Longrightarrow> i < length xs \<and> P (xs ! i)"
  by (induction xs arbitrary: i) (auto split: if_splits)

lemma bit_1_0 [simp]: "bit (Suc 0) 0"
  by (simp add: bit_0)

end
