(* ===== verification/Transition.thy ===== *)
theory Transition
  imports Prelude
begin

text \<open>
  Runs of a labelled transition relation, and the rule that carries an invariant along a run. The
  session of the server, the client's rounds and the database writer are such relations.
\<close>

inductive run :: "('s \<Rightarrow> 'l \<Rightarrow> 's \<Rightarrow> bool) \<Rightarrow> 's \<Rightarrow> 'l list \<Rightarrow> 's \<Rightarrow> bool" for step where
  run_Nil: "run step s [] s"
| run_Cons: "step s l s' \<Longrightarrow> run step s' ls s'' \<Longrightarrow> run step s (l # ls) s''"

inductive_simps run_Nil_iff [simp]: "run step s [] s'"
inductive_simps run_Cons_iff: "run step s (l # ls) s'"

lemma run_append_iff: "run step s (ls @ ks) s'' \<longleftrightarrow> (\<exists>s'. run step s ls s' \<and> run step s' ks s'')"
  by (induction ls arbitrary: s) (auto simp: run_Cons_iff)

lemma run_snoc: "run step s ls s' \<Longrightarrow> step s' l s'' \<Longrightarrow> run step s (ls @ [l]) s''"
  by (auto simp: run_append_iff run_Cons_iff)

text \<open>The contract of an invariant, with what it gives on runs.\<close>

locale step_invariant =
  fixes step :: "'s \<Rightarrow> 'l \<Rightarrow> 's \<Rightarrow> bool" and inv :: "'s \<Rightarrow> bool"
  assumes keeps: "step s l s' \<Longrightarrow> inv s \<Longrightarrow> inv s'"
begin

lemma along: "run step s ls s' \<Longrightarrow> inv s \<Longrightarrow> inv s'"
  by (induction rule: run.induct) (auto intro: keeps)

text \<open>Every label of a run is taken between two states that satisfy the invariant.\<close>

lemma at_label:
  assumes "run step s ls s'" "inv s" "l \<in> set ls"
  obtains t t' where "inv t" "step t l t'" "inv t'"
  using assms
proof (induction rule: run.induct)
  case (run_Cons s k s' ls s'')
  then show ?case using keeps by (cases "l = k") auto
qed simp

end

text \<open>An account of the obligations of a state: what a step adds to the obligations is what it
  discharges and what the next state still owes.\<close>

locale step_account = step_invariant step inv
  for step :: "'s \<Rightarrow> 'l \<Rightarrow> 's \<Rightarrow> bool" and inv :: "'s \<Rightarrow> bool" +
  fixes owed :: "'s \<Rightarrow> 'c list" and incurred :: "'l \<Rightarrow> 'c list" and discharged :: "'l \<Rightarrow> 'd list"
    and settles :: "'c \<Rightarrow> 'd \<Rightarrow> bool"
  assumes balance: "step s l s' \<Longrightarrow> inv s \<Longrightarrow>
    \<exists>cs. owed s @ incurred l = cs @ owed s' \<and> list_all2 settles cs (discharged l)"
begin

lemma run_balance:
  "run step s ls s' \<Longrightarrow> inv s \<Longrightarrow>
    \<exists>cs. owed s @ concat (map incurred ls) = cs @ owed s' \<and> list_all2 settles cs (concat (map discharged ls))"
proof (induction rule: run.induct)
  case (run_Cons s l s' ls s'')
  obtain cs ds where "owed s @ incurred l = cs @ owed s'" "list_all2 settles cs (discharged l)"
      "owed s' @ concat (map incurred ls) = ds @ owed s''" "list_all2 settles ds (concat (map discharged ls))"
    using balance [OF run_Cons(1,4)] run_Cons.IH [OF keeps [OF run_Cons(1,4)]] by blast
  then show ?case
    by (intro exI [of _ "cs @ ds"]) (simp add: list_all2_appendI flip: append_assoc, simp)
qed simp

end

text \<open>A bound on the number of steps of a kind: each such step lowers the measure of the state, and
  only what a label grants can raise it.\<close>

locale step_budget =
  fixes step :: "'s \<Rightarrow> 'l \<Rightarrow> 's \<Rightarrow> bool" and counted :: "'l \<Rightarrow> bool" and budget :: "'s \<Rightarrow> nat" and grant :: "'l \<Rightarrow> nat"
  assumes spend: "step s l s' \<Longrightarrow> (if counted l then Suc (budget s') else budget s') \<le> budget s + grant l"
begin

lemma run_budget:
  "run step s ls s' \<Longrightarrow> length (filter counted ls) + budget s' \<le> budget s + sum_list (map grant ls)"
proof (induction rule: run.induct)
  case (run_Cons s l s' ls s'')
  then show ?case using spend [OF run_Cons(1)] by (simp split: if_splits)
qed simp

end

end
