(* ===== verification/Rust_Str.thy ===== *)
theory Rust_Str
  imports Prelude "HOL-Library.Sublist"
begin

text \<open>
  The parts of Rust's \<open>str\<close> and integer text conversions that the program uses. A
  \<open>String\<close> is its list of UTF-8 bytes, the type \<open>string\<close>: indices and lengths are byte
  counts, as they are in Rust.
\<close>

section \<open>Trimming, prefixes, splitting\<close>

text \<open>The UTF-8 encodings of the code points with the Unicode property \<open>White_Space\<close>.\<close>

definition white_space :: "string list" where
  "white_space =
     map (\<lambda>n. [char_of n]) [9, 10, 11, 12, 13, 32 :: nat]
     @ map (map char_of) [[0xC2, 0x85], [0xC2, 0xA0], [0xE1, 0x9A, 0x80 :: nat]]
     @ map (\<lambda>n. map char_of [0xE2, 0x80, n]) ([0x80..<0x8B] @ [0xA8, 0xA9, 0xAF :: nat])
     @ map (map char_of) [[0xE2, 0x81, 0x9F], [0xE3, 0x80, 0x80 :: nat]]"

definition strip_prefix :: "string \<Rightarrow> string \<Rightarrow> string option" where
  "strip_prefix p s = (if prefix p s then Some (drop (length p) s) else None)"

definition strip_suffix :: "string \<Rightarrow> string \<Rightarrow> string option" where
  "strip_suffix p s = (if suffix p s then Some (take (length s - length p) s) else None)"

lemma white_space_nonempty: "w \<in> set white_space \<Longrightarrow> w \<noteq> []"
  by (auto simp: white_space_def)

text \<open>Drop leading members of \<open>ws\<close>; \<open>trim\<close> does it at both ends (UTF-8 is self-synchronising,
  so a reversed encoding at the reversed front is a white space character at the end).\<close>

function drop_leading :: "string list \<Rightarrow> string \<Rightarrow> string" where
  "drop_leading ws s =
     (case find (\<lambda>w. w \<noteq> [] \<and> prefix w s) ws of
        None \<Rightarrow> s
      | Some w \<Rightarrow> drop_leading ws (drop (length w) s))"
  by pat_completeness auto
termination
  by (relation "measure (\<lambda>(ws, s). length s)")
    (auto simp: find_Some_iff prefix_def)

declare drop_leading.simps [simp del]

definition trim :: "string \<Rightarrow> string" where
  "trim s = rev (drop_leading (map rev white_space) (rev (drop_leading white_space s)))"

text \<open>\<open>split_whitespace\<close>: the maximal pieces without white space.\<close>

fun take_token :: "string \<Rightarrow> string \<times> string" where
  "take_token [] = ([], [])"
| "take_token (c # cs) =
     (if find (\<lambda>w. prefix w (c # cs)) white_space \<noteq> None then ([], c # cs)
      else map_prod ((#) c) id (take_token cs))"

lemma length_take_token: "length (snd (take_token s)) \<le> length s"
  by (induction s) auto

lemma drop_leading_no_ws:
  "find (\<lambda>w. w \<noteq> [] \<and> prefix w (drop_leading ws s)) ws = None"
proof (induction ws s rule: drop_leading.induct)
  case (1 ws s)
  then show ?case by (cases "find (\<lambda>w. w \<noteq> [] \<and> prefix w s) ws") (simp_all add: drop_leading.simps [of ws s])
qed

lemma length_drop_leading: "length (drop_leading ws s) \<le> length s"
proof (induction ws s rule: drop_leading.induct)
  case (1 ws s)
  then show ?case
    by (cases "find (\<lambda>w. w \<noteq> [] \<and> prefix w s) ws")
      (auto simp: drop_leading.simps [of ws s] intro: order_trans)
qed

function split_whitespace :: "string \<Rightarrow> string list" where
  "split_whitespace s =
     (let s' = drop_leading white_space s in
      if s' = [] then [] else (let (t, r) = take_token s' in t # split_whitespace r))"
  by pat_completeness auto
termination
proof (relation "measure length")
  fix s s' p t r
  assume s': "s' = drop_leading white_space s" "s' \<noteq> []" "p = take_token s'" "(t, r) = p"
  then obtain c cs where c: "s' = c # cs" by (meson neq_Nil_conv)
  have "find (\<lambda>w. prefix w s') white_space = None"
    using drop_leading_no_ws [of white_space s] white_space_nonempty
    by (auto simp: s'(1) find_None_iff)
  then have "r = snd (take_token cs)" using s'(3,4) c by (cases "take_token cs") auto
  then have "length r < length s'" using length_take_token [of cs] c by simp
  then show "(r, s) \<in> measure length" using length_drop_leading [of white_space s] s'(1) by simp
qed simp

declare split_whitespace.simps [simp del]

text \<open>\<open>split_once(d)\<close>: around the first occurrence of \<open>d\<close>.\<close>

fun split_once :: "string \<Rightarrow> string \<Rightarrow> (string \<times> string) option" where
  "split_once d s =
     (if prefix d s then Some ([], drop (length d) s)
      else case s of [] \<Rightarrow> None
        | c # cs \<Rightarrow> map_option (\<lambda>(a, b). (c # a, b)) (split_once d cs))"

declare split_once.simps [simp del]

text \<open>\<open>rsplit_once(c)\<close>: around the last occurrence of the character \<open>c\<close>.\<close>

fun rsplit_once :: "char \<Rightarrow> string \<Rightarrow> (string \<times> string) option" where
  "rsplit_once c [] = None"
| "rsplit_once c (x # xs) =
     (case rsplit_once c xs of
        Some (a, b) \<Rightarrow> Some (x # a, b)
      | None \<Rightarrow> (if x = c then Some ([], xs) else None))"

text \<open>\<open>split(c)\<close>: the pieces between the occurrences of \<open>c\<close>, empty pieces included.\<close>

fun split_char :: "char \<Rightarrow> string \<Rightarrow> string list" where
  "split_char c [] = [[]]"
| "split_char c (x # xs) =
     (if x = c then [] # split_char c xs
      else case split_char c xs of p # ps \<Rightarrow> (x # p) # ps | [] \<Rightarrow> [[x]])"

definition to_ascii_lowercase :: "string \<Rightarrow> string" where
  "to_ascii_lowercase = map (\<lambda>c. if of_char c \<in> {65..90 :: nat} then char_of (of_char c + 32 :: nat) else c)"

definition eq_ignore_ascii_case :: "string \<Rightarrow> string \<Rightarrow> bool" where
  "eq_ignore_ascii_case a b = (to_ascii_lowercase a = to_ascii_lowercase b)"

lemma split_once_hit: "prefix d s \<Longrightarrow> split_once d s = Some ([], drop (length d) s)"
  by (simp add: split_once.simps)

lemma split_once_eq_Some:
  "split_once d s = Some (a, b) \<Longrightarrow> s = a @ d @ b"
proof (induction d s arbitrary: a rule: split_once.induct)
  case (1 d s)
  show ?case
  proof (cases "prefix d s")
    case True
    then show ?thesis using "1.prems" by (auto simp: split_once.simps [of d s] prefix_def)
  next
    case False
    have "s \<noteq> []" using "1.prems" False by (subst (asm) split_once.simps) auto
    then obtain c cs where s: "s = c # cs" by (cases s) auto
    then obtain a' where "split_once d cs = Some (a', b)" "a = c # a'"
      using "1.prems" False by (auto simp: split_once.simps [of d "c # cs"])
    then show ?thesis using "1.IH" [OF False s] s by simp
  qed
qed

lemma rsplit_once_None: "rsplit_once c xs = None \<longleftrightarrow> c \<notin> set xs"
  by (induction xs) (auto split: option.splits)

lemma rsplit_once_eq_Some:
  "rsplit_once c xs = Some (a, b) \<longleftrightarrow> xs = a @ c # b \<and> c \<notin> set b"
proof (induction xs arbitrary: a)
  case Nil
  then show ?case by simp
next
  case (Cons x xs)
  show ?case
  proof (cases "c \<in> set xs")
    case True
    then obtain a' b' where "rsplit_once c xs = Some (a', b')"
      using rsplit_once_None [of c xs] by (cases "rsplit_once c xs") auto
    then show ?thesis using Cons.IH [of a'] Cons.IH [of "tl a"] True
      by (cases a) (auto simp: append_eq_Cons_conv)
  next
    case False
    then have "rsplit_once c xs = None" by (simp add: rsplit_once_None)
    then show ?thesis using False by (cases a) auto
  qed
qed

lemma split_char_nonempty [simp]: "split_char c xs \<noteq> []"
  by (cases xs) (auto split: list.splits)

lemma split_char_absent: "c \<notin> set xs \<Longrightarrow> split_char c xs = [xs]"
  by (induction xs) auto

lemma drop_leading_id: "\<forall>w\<in>set ws. w = [] \<or> \<not> prefix w s \<Longrightarrow> drop_leading ws s = s"
  by (subst drop_leading.simps) (auto split: option.splits simp: find_Some_iff)

section \<open>Decimal numbers\<close>

definition digit_char :: "nat \<Rightarrow> char" where
  "digit_char d = ''0123456789'' ! d"

definition digit_val :: "char \<Rightarrow> nat option" where
  "digit_val c = (if of_char c \<in> {48..57 :: nat} then Some (of_char c - 48) else None)"

definition is_ascii_digit :: "char \<Rightarrow> bool" where
  "is_ascii_digit c = (digit_val c \<noteq> None)"

text \<open>Display of an unsigned integer.\<close>

fun show_nat :: "nat \<Rightarrow> string" where
  "show_nat n = (if n < 10 then [digit_char n] else show_nat (n div 10) @ [digit_char (n mod 10)])"

declare show_nat.simps [simp del]

definition show_int :: "int \<Rightarrow> string" where
  "show_int n = (if n < 0 then CHR ''-'' # show_nat (nat (- n)) else show_nat (nat n))"

text \<open>\<open>from_str\<close> of the unsigned types with maximum \<open>mx\<close>: an optional \<open>+\<close> before at least one
  digit; the accumulator must never pass \<open>mx\<close>.\<close>

fun parse_digits :: "nat \<Rightarrow> nat \<Rightarrow> string \<Rightarrow> nat option" where
  "parse_digits mx acc [] = Some acc"
| "parse_digits mx acc (c # cs) =
     (case digit_val c of
        None \<Rightarrow> None
      | Some d \<Rightarrow> if acc * 10 + d \<le> mx then parse_digits mx (acc * 10 + d) cs else None)"

definition parse_unsigned :: "nat \<Rightarrow> string \<Rightarrow> nat option" where
  "parse_unsigned mx s =
     (case s of
        [] \<Rightarrow> None
      | c # cs \<Rightarrow> if c = CHR ''+'' \<and> cs \<noteq> [] then parse_digits mx 0 cs else parse_digits mx 0 s)"

text \<open>\<open>from_str\<close> of \<open>i64\<close>: a leading \<open>-\<close> negates, with the asymmetric lower bound.\<close>

definition parse_i64 :: "string \<Rightarrow> int option" where
  "parse_i64 s =
     (case s of
        CHR ''-'' # c # cs \<Rightarrow> map_option (\<lambda>n. - int n) (parse_digits (2 ^ 63) 0 (c # cs))
      | _ \<Rightarrow> map_option int (parse_unsigned (2 ^ 63 - 1) s))"

definition parse_u16 :: "string \<Rightarrow> u16 option" where
  "parse_u16 s = map_option of_nat (parse_unsigned (2 ^ 16 - 1) s)"

definition parse_u64 :: "string \<Rightarrow> u64 option" where
  "parse_u64 s = map_option of_nat (parse_unsigned (2 ^ 64 - 1) s)"

lemma lt_10_cases: "(d :: nat) < 10 \<Longrightarrow> d \<in> {0, 1, 2, 3, 4, 5, 6, 7, 8, 9}"
  by auto

lemma digit_val_digit_char [simp]: "d < 10 \<Longrightarrow> digit_val (digit_char d) = Some d"
  by (drule lt_10_cases) (auto simp: digit_val_def digit_char_def)

lemma is_ascii_digit_digit_char [simp]: "d < 10 \<Longrightarrow> is_ascii_digit (digit_char d)"
  by (simp add: is_ascii_digit_def)

lemma of_char_digit_char [simp]: "d < 10 \<Longrightarrow> of_char (digit_char d) = (48 + d :: nat)"
  by (drule lt_10_cases) (auto simp: digit_char_def)

lemma digit_valD: "digit_val c = Some d \<Longrightarrow> d < 10 \<and> c = digit_char d"
proof -
  assume "digit_val c = Some d"
  then have d: "d < 10" "of_char c = 48 + d" by (auto simp: digit_val_def split: if_splits)
  then have "of_char c = (of_char (digit_char d) :: nat)" by simp
  then show ?thesis using d by (simp only: of_char_eq_iff)
qed

lemma show_nat_digits: "c \<in> set (show_nat n) \<Longrightarrow> is_ascii_digit c"
proof (induction n rule: show_nat.induct)
  case (1 n)
  then show ?case by (subst (asm) show_nat.simps) (auto split: if_splits)
qed

lemma show_nat_nonempty [simp]: "show_nat n \<noteq> []"
  by (subst show_nat.simps) simp

lemma parse_digits_append:
  "parse_digits mx acc (xs @ ys) =
     (case parse_digits mx acc xs of None \<Rightarrow> None | Some a \<Rightarrow> parse_digits mx a ys)"
  by (induction xs arbitrary: acc) (auto split: option.splits)

lemma parse_digits_show_nat: "n \<le> mx \<Longrightarrow> parse_digits mx 0 (show_nat n) = Some n"
proof (induction n rule: show_nat.induct)
  case (1 n)
  show ?case
  proof (cases "n < 10")
    case True
    then show ?thesis using "1.prems" by (subst show_nat.simps) simp
  next
    case False
    then have "parse_digits mx 0 (show_nat (n div 10)) = Some (n div 10)"
      using "1.IH" "1.prems" by simp
    moreover have "show_nat n = show_nat (n div 10) @ [digit_char (n mod 10)]"
      using False by (subst show_nat.simps) simp
    ultimately show ?thesis using "1.prems" by (simp add: parse_digits_append)
  qed
qed

lemma plus_not_digit [simp]: "\<not> is_ascii_digit (CHR ''+'')"
  by (simp add: is_ascii_digit_def digit_val_def)

lemma parse_unsigned_show_nat: "n \<le> mx \<Longrightarrow> parse_unsigned mx (show_nat n) = Some n"
proof -
  assume n: "n \<le> mx"
  obtain c cs where s: "show_nat n = c # cs" by (cases "show_nat n") auto
  then have "c \<noteq> CHR ''+''" using show_nat_digits [of c n] by auto
  then show ?thesis using parse_digits_show_nat [OF n] s by (simp add: parse_unsigned_def)
qed

lemma parse_u16_show [simp]: "parse_u16 (show_nat (unat p)) = Some p"
  using unsigned_less [of p, where 'a = nat]
  by (simp add: parse_u16_def parse_unsigned_show_nat)

lemma parse_digits_bound: "parse_digits mx acc s = Some n \<Longrightarrow> acc \<le> mx \<Longrightarrow> acc \<le> n \<and> n \<le> mx"
proof (induction s arbitrary: acc)
  case Nil
  then show ?case by simp
next
  case (Cons c cs)
  then obtain d where "digit_val c = Some d" "acc * 10 + d \<le> mx" "parse_digits mx (acc * 10 + d) cs = Some n"
    by (auto split: option.splits if_splits)
  then show ?case using Cons.IH by fastforce
qed

end
