(* ===== verification/Net_Addr.thy ===== *)
theory Net_Addr
  imports Rust_Str
begin

text \<open>
  Rust's \<open>std::net\<close> addresses as far as the program uses them: the address types, their
  classification, and their text forms (\<open>Display\<close> and \<open>FromStr\<close>).
\<close>

section \<open>Types and classification\<close>

datatype ip_addr = IpV4 u32 | IpV6 "128 word"

datatype socket_addr =
    SockV4 (v4_ip: u32) (v4_port: u16)
  | SockV6 (v6_ip: "128 word") (v6_port: u16) (v6_flowinfo: u32) (v6_scope_id: u32)

definition socket_addr_new :: "ip_addr \<Rightarrow> u16 \<Rightarrow> socket_addr" where
  "socket_addr_new ip port = (case ip of IpV4 a \<Rightarrow> SockV4 a port | IpV6 a \<Rightarrow> SockV6 a port 0 0)"

fun sock_ip :: "socket_addr \<Rightarrow> ip_addr" where
  "sock_ip (SockV4 a _) = IpV4 a"
| "sock_ip (SockV6 a _ _ _) = IpV6 a"

fun sock_port :: "socket_addr \<Rightarrow> u16" where
  "sock_port (SockV4 _ p) = p"
| "sock_port (SockV6 _ p _ _) = p"

fun sock_is_ipv4 :: "socket_addr \<Rightarrow> bool" where
  "sock_is_ipv4 (SockV4 _ _) = True"
| "sock_is_ipv4 (SockV6 _ _ _ _) = False"

definition sock_is_ipv6 :: "socket_addr \<Rightarrow> bool" where
  "sock_is_ipv6 a = (\<not> sock_is_ipv4 a)"

definition v4_octets :: "u32 \<Rightarrow> nat list" where
  "v4_octets a = map (\<lambda>i. unat a div 256 ^ (3 - i) mod 256) [0, 1, 2, 3]"

definition v6_segments :: "128 word \<Rightarrow> nat list" where
  "v6_segments a = map (\<lambda>i. unat a div 65536 ^ (7 - i) mod 65536) [0, 1, 2, 3, 4, 5, 6, 7]"

text \<open>Reading digits in a given base, most significant first.\<close>

definition from_base :: "nat \<Rightarrow> nat list \<Rightarrow> nat" where
  "from_base b ds = foldl (\<lambda>acc d. acc * b + d) 0 ds"

fun is_loopback :: "ip_addr \<Rightarrow> bool" where
  "is_loopback (IpV4 a) = (unat a div 2 ^ 24 = 127)"
| "is_loopback (IpV6 a) = (a = 1)"

fun is_unspecified :: "ip_addr \<Rightarrow> bool" where
  "is_unspecified (IpV4 a) = (a = 0)"
| "is_unspecified (IpV6 a) = (a = 0)"

text \<open>169.254.0.0/16 and fe80::/10.\<close>

fun is_link_local :: "ip_addr \<Rightarrow> bool" where
  "is_link_local (IpV4 a) = (unat a div 2 ^ 16 = 169 * 256 + 254)"
| "is_link_local (IpV6 a) = (unat a div 2 ^ 118 = 0xfe80 div 2 ^ 6)"

section \<open>Text forms\<close>

fun join_with :: "string \<Rightarrow> string list \<Rightarrow> string" where
  "join_with d [] = []"
| "join_with d [x] = x"
| "join_with d (x # y # ys) = x @ d @ join_with d (y # ys)"

definition show_v4 :: "u32 \<Rightarrow> string" where
  "show_v4 a = join_with ''.'' (map show_nat (v4_octets a))"

definition hex_char :: "nat \<Rightarrow> char" where
  "hex_char d = ''0123456789abcdef'' ! d"

fun show_hex :: "nat \<Rightarrow> string" where
  "show_hex n = (if n < 16 then [hex_char n] else show_hex (n div 16) @ [hex_char (n mod 16)])"

declare show_hex.simps [simp del]

text \<open>The first longest run of zero segments, as (start, length): the loop of \<open>Ipv6Addr\<close>'s
  \<open>Display\<close> over \<open>longest\<close> and \<open>current\<close>.\<close>

fun zero_run :: "nat \<Rightarrow> nat \<times> nat \<Rightarrow> nat \<times> nat \<Rightarrow> nat list \<Rightarrow> nat \<times> nat" where
  "zero_run i longest current [] = longest"
| "zero_run i longest current (s # ss) =
     (if s = 0
      then let current' = (if snd current = 0 then (i, 1) else (fst current, snd current + 1))
           in zero_run (i + 1) (if snd current' > snd longest then current' else longest) current' ss
      else zero_run (i + 1) longest (0, 0) ss)"

definition show_segments :: "nat list \<Rightarrow> string" where
  "show_segments ss = join_with '':'' (map show_hex ss)"

definition show_v6 :: "128 word \<Rightarrow> string" where
  "show_v6 a =
     (let ss = v6_segments a in
      if take 6 ss = [0, 0, 0, 0, 0, 0xffff]
      then ''::ffff:'' @ show_v4 (of_nat (unat a mod 2 ^ 32))
      else let (start, len) = zero_run 0 (0, 0) (0, 0) ss in
        if 1 < len
        then show_segments (take start ss) @ ''::'' @ show_segments (drop (start + len) ss)
        else show_segments ss)"

fun show_sock :: "socket_addr \<Rightarrow> string" where
  "show_sock (SockV4 a p) = show_v4 a @ '':'' @ show_nat (unat p)"
| "show_sock (SockV6 a p f sc) =
     ''['' @ show_v6 a @ (if sc = 0 then [] else CHR ''%'' # show_nat (unat sc)) @ '']:'' @ show_nat (unat p)"

subsection \<open>Parsing\<close>

text \<open>The parsers of \<open>std::net::parser\<close> return the value read and the remaining input.\<close>

type_synonym 'a reader = "string \<Rightarrow> ('a \<times> string) option"

definition to_digit :: "nat \<Rightarrow> char \<Rightarrow> nat option" where
  "to_digit radix c =
     (let n = of_char c :: nat;
          d = (if n \<in> {48..57} then n - 48 else if n \<in> {97..122} then n - 87
               else if n \<in> {65..90} then n - 55 else 99)
      in if d < radix then Some d else None)"

fun span_digits :: "nat \<Rightarrow> string \<Rightarrow> nat list \<times> string" where
  "span_digits radix [] = ([], [])"
| "span_digits radix (c # cs) =
     (case to_digit radix c of
        None \<Rightarrow> ([], c # cs)
      | Some d \<Rightarrow> map_prod ((#) d) id (span_digits radix cs))"

text \<open>\<open>read_number\<close>: at least one digit, at most \<open>max_digits\<close> (where given), no leading zero
  unless allowed, and a value of at most \<open>mx\<close>.\<close>

definition read_number :: "nat \<Rightarrow> nat option \<Rightarrow> bool \<Rightarrow> nat \<Rightarrow> nat reader" where
  "read_number radix max_digits allow_zero_prefix mx s =
     (let (ds, rest) = span_digits radix s; v = from_base radix ds in
      if ds = [] \<or> (case max_digits of Some m \<Rightarrow> m < length ds | None \<Rightarrow> False)
         \<or> (\<not> allow_zero_prefix \<and> hd ds = 0 \<and> 1 < length ds) \<or> mx < v
      then None else Some (v, rest))"

fun read_char :: "char \<Rightarrow> string \<Rightarrow> string option" where
  "read_char c [] = None"
| "read_char c (x # xs) = (if x = c then Some xs else None)"

definition read_separator :: "char \<Rightarrow> nat \<Rightarrow> 'a reader \<Rightarrow> 'a reader" where
  "read_separator sep index inner s =
     (if index = 0 then inner s
      else case read_char sep s of None \<Rightarrow> None | Some s' \<Rightarrow> inner s')"

fun read_octets :: "nat list \<Rightarrow> nat list reader" where
  "read_octets [] s = Some ([], s)"
| "read_octets (i # is) s =
     (case read_separator (CHR ''.'') i (read_number 10 (Some 3) False 255) s of
        None \<Rightarrow> None
      | Some (d, s') \<Rightarrow> map_option (map_prod ((#) d) id) (read_octets is s'))"

definition read_ipv4 :: "u32 reader" where
  "read_ipv4 s = map_option (map_prod (\<lambda>ds. of_nat (from_base 256 ds)) id) (read_octets [0, 1, 2, 3] s)"

text \<open>\<open>read_groups\<close> from index \<open>i\<close> with room for \<open>k\<close> more groups: the groups, whether an
  embedded IPv4 address ended them, and the remaining input.\<close>

fun read_groups :: "nat \<Rightarrow> nat \<Rightarrow> string \<Rightarrow> nat list \<times> bool \<times> string" where
  "read_groups i 0 s = ([], False, s)"
| "read_groups i (Suc k) s =
     (case (if 0 < k then read_separator (CHR '':'') i read_ipv4 s else None) of
        Some (a, s') \<Rightarrow> ([unat a div 65536, unat a mod 65536], True, s')
      | None \<Rightarrow>
          (case read_separator (CHR '':'') i (read_number 16 (Some 4) True 65535) s of
             None \<Rightarrow> ([], False, s)
           | Some (g, s') \<Rightarrow>
               (let (gs, v4, s'') = read_groups (i + 1) k s' in (g # gs, v4, s''))))"

definition read_ipv6 :: "128 word reader" where
  "read_ipv6 s =
     (let (head, head_v4, s1) = read_groups 0 8 s in
      if length head = 8 then Some (of_nat (from_base 65536 head), s1)
      else if head_v4 then None
      else case Option.bind (read_char (CHR '':'') s1) (read_char (CHR '':'')) of
          None \<Rightarrow> None
        | Some s2 \<Rightarrow>
            (let (tail, _, s3) = read_groups 0 (8 - (length head + 1)) s2
             in Some (of_nat (from_base 65536
                  (head @ replicate (8 - length head - length tail) 0 @ tail)), s3)))"

definition parse_ip :: "string \<Rightarrow> ip_addr option" where
  "parse_ip s =
     (case (case read_ipv4 s of Some (a, r) \<Rightarrow> Some (IpV4 a, r)
            | None \<Rightarrow> map_option (map_prod IpV6 id) (read_ipv6 s)) of
        Some (ip, []) \<Rightarrow> Some ip
      | _ \<Rightarrow> None)"

definition read_port :: "u16 reader" where
  "read_port s =
     map_option (map_prod of_nat id)
       (Option.bind (read_char (CHR '':'') s) (read_number 10 None True 65535))"

definition read_scope_id :: "u32 reader" where
  "read_scope_id s =
     map_option (map_prod of_nat id)
       (Option.bind (read_char (CHR ''%'') s) (read_number 10 None True (2 ^ 32 - 1)))"

definition read_sock_v4 :: "socket_addr reader" where
  "read_sock_v4 s =
     Option.bind (read_ipv4 s) (\<lambda>(a, s1).
       map_option (map_prod (SockV4 a) id) (read_port s1))"

definition read_sock_v6 :: "socket_addr reader" where
  "read_sock_v6 s =
     Option.bind (read_char (CHR ''['') s) (\<lambda>s1.
     Option.bind (read_ipv6 s1) (\<lambda>(a, s2).
       let (sc, s3) = (case read_scope_id s2 of Some r \<Rightarrow> r | None \<Rightarrow> (0, s2)) in
     Option.bind (read_char (CHR '']'') s3) (\<lambda>s4.
       map_option (map_prod (\<lambda>p. SockV6 a p 0 sc) id) (read_port s4))))"

definition parse_sock :: "string \<Rightarrow> socket_addr option" where
  "parse_sock s =
     (case (case read_sock_v4 s of Some r \<Rightarrow> Some r | None \<Rightarrow> read_sock_v6 s) of
        Some (a, []) \<Rightarrow> Some a
      | _ \<Rightarrow> None)"

section \<open>Round trip of the IPv4 forms\<close>

fun digits10 :: "nat \<Rightarrow> nat list" where
  "digits10 n = (if n < 10 then [n] else digits10 (n div 10) @ [n mod 10])"

declare digits10.simps [simp del]

lemma show_nat_digits10: "show_nat n = map digit_char (digits10 n)"
proof (induction n rule: digits10.induct)
  case (1 n)
  then show ?case by (subst show_nat.simps, subst digits10.simps) simp
qed

lemma digits10_small: "d \<in> set (digits10 n) \<Longrightarrow> d < 10"
proof (induction n rule: digits10.induct)
  case (1 n)
  then show ?case by (subst (asm) (2) digits10.simps) (auto split: if_splits)
qed

lemma digits10_nonempty [simp]: "digits10 n \<noteq> []"
  by (subst digits10.simps) simp

lemma from_base_snoc: "from_base b (ds @ [d]) = from_base b ds * b + d"
  by (simp add: from_base_def)

lemma from_base_digits10 [simp]: "from_base 10 (digits10 n) = n"
proof (induction n rule: digits10.induct)
  case (1 n)
  then show ?case by (subst digits10.simps) (simp add: from_base_snoc, simp add: from_base_def)
qed

lemma hd_digits10: "10 \<le> n \<Longrightarrow> hd (digits10 n) \<noteq> 0"
proof (induction n rule: digits10.induct)
  case (1 n)
  show ?case
  proof (cases "n div 10 < 10")
    case True
    then show ?thesis using "1.prems" by (subst digits10.simps, subst digits10.simps) auto
  next
    case False
    then show ?thesis using "1.prems" "1.IH" by (subst digits10.simps) auto
  qed
qed

lemma length_digits10: "n < 10 ^ k \<Longrightarrow> 0 < k \<Longrightarrow> length (digits10 n) \<le> k"
proof (induction k arbitrary: n)
  case 0
  then show ?case by simp
next
  case (Suc k)
  show ?case
  proof (cases "n < 10")
    case True
    then show ?thesis by (subst digits10.simps) simp
  next
    case False
    then have "0 < k" using Suc.prems by (cases k) auto
    moreover have "n div 10 < 10 ^ k" using Suc.prems(1) by (simp add: less_mult_imp_div_less mult.commute)
    ultimately have "0 < k" "n div 10 < 10 ^ k" .
    then show ?thesis using Suc.IH [of "n div 10"] False by (subst digits10.simps) simp
  qed
qed

lemma to_digit_10 [simp]: "d < 10 \<Longrightarrow> to_digit 10 (digit_char d) = Some d"
  by (drule lt_10_cases) (auto simp: to_digit_def digit_char_def)

lemma span_digits_append:
  "\<forall>d\<in>set ds. d < 10 \<Longrightarrow> (rest = [] \<or> to_digit 10 (hd rest) = None) \<Longrightarrow>
     span_digits 10 (map digit_char ds @ rest) = (ds, rest)"
proof (induction ds)
  case Nil
  then show ?case by (cases rest) auto
next
  case (Cons d ds)
  then show ?case by simp
qed

lemma read_number_show:
  assumes "n \<le> mx" "rest = [] \<or> to_digit 10 (hd rest) = None"
    and "\<And>m. md = Some m \<Longrightarrow> n < 10 ^ m \<and> 0 < m"
  shows "read_number 10 md allow mx (show_nat n @ rest) = Some (n, rest)"
proof -
  have "\<not> (hd (digits10 n) = 0 \<and> 1 < length (digits10 n))"
    using hd_digits10 [of n] by (cases "10 \<le> n") (auto simp: digits10.simps [of n])
  moreover have "\<not> m < length (digits10 n)" if "md = Some m" for m
    using length_digits10 [of n m] assms(3) [OF that] by simp
  moreover have "span_digits 10 (show_nat n @ rest) = (digits10 n, rest)"
    using assms(2) digits10_small unfolding show_nat_digits10 by (intro span_digits_append) auto
  ultimately show ?thesis
    using assms(1) by (auto simp: read_number_def split: option.splits)
qed

lemma read_octet_show:
  "d \<le> 255 \<Longrightarrow> rest = [] \<or> to_digit 10 (hd rest) = None \<Longrightarrow>
     read_number 10 (Some 3) False 255 (show_nat d @ rest) = Some (d, rest)"
  by (rule read_number_show) auto

lemma to_digit_separators [simp]:
  "to_digit 10 (CHR ''.'') = None" "to_digit 10 (CHR '':'') = None"
  by (simp_all add: to_digit_def)

lemma v4_octets_bound: "d \<in> set (v4_octets a) \<Longrightarrow> d \<le> 255"
  by (auto simp: v4_octets_def)

lemma base_256_digits:
  fixes x :: nat
  assumes "x < 4294967296"
  shows "((x div 16777216 mod 256 * 256 + x div 65536 mod 256) * 256 + x div 256 mod 256) * 256 + x mod 256 = x"
proof -
  define y where "y = x div 256"
  define z where "z = y div 256"
  have z: "x div 65536 = z" and w: "x div 16777216 = z div 256"
    by (simp_all add: y_def z_def flip: div_mult2_eq)
  have top: "z div 256 mod 256 = z div 256" using assms by (simp flip: w)
  have "y * 256 + x mod 256 = x" "z * 256 + y mod 256 = y" by (simp_all add: y_def z_def)
  then show ?thesis unfolding z w y_def [symmetric] by (simp only: top div_mult_mod_eq)
qed

lemma from_base_v4_octets: "from_base 256 (v4_octets a) = unat a"
  using base_256_digits [of "unat a"] unsigned_less [of a, where 'a = nat]
  by (simp add: v4_octets_def from_base_def del: distrib_left_numeral distrib_right_numeral)

lemma read_ipv4_show:
  assumes "rest = [] \<or> (to_digit 10 (hd rest) = None)"
  shows "read_ipv4 (show_v4 a @ rest) = Some (a, rest)"
proof -
  obtain p q r s where ds: "v4_octets a = [p, q, r, s]" by (simp add: v4_octets_def)
  then have b: "p \<le> 255" "q \<le> 255" "r \<le> 255" "s \<le> 255" using v4_octets_bound [of _ a] by auto
  have "read_octets [0, 1, 2, 3] (show_v4 a @ rest) = Some (v4_octets a, rest)"
    using b assms by (simp add: show_v4_def ds read_separator_def read_octet_show)
  then show ?thesis by (simp add: read_ipv4_def from_base_v4_octets)
qed

theorem parse_sock_v4: "parse_sock (show_sock (SockV4 a p)) = Some (SockV4 a p)"
proof -
  have "unat p \<le> 65535" using unsigned_less [of p, where 'a = nat] by simp
  then have "read_port (CHR '':'' # show_nat (unat p)) = Some (p, [])"
    using read_number_show [of "unat p" 65535 "[]" None] by (simp add: read_port_def)
  then show ?thesis
    using read_ipv4_show [of "CHR '':'' # show_nat (unat p)" a]
    by (simp add: parse_sock_def read_sock_v4_def)
qed

theorem parse_ip_v4: "parse_ip (show_v4 a) = Some (IpV4 a)"
  using read_ipv4_show [of "[]" a] by (simp add: parse_ip_def)

end
