(* ===== verification/Netutil.thy ===== *)
theory Netutil
  imports Net_Addr
begin

text \<open>
  \<open>src/src/netutil.rs\<close>: the \<open>host:port\<close> syntax, the choice among resolved addresses, and the
  retry loop that \<open>resolve_retry\<close> and \<open>connect_tcp_dest\<close> share. DNS (\<open>lookup_host\<close>), \<open>connect\<close>,
  the clock and \<open>getifaddrs\<close> are parameters.
\<close>

section \<open>Address families and the host:port syntax\<close>

datatype addr_family = FamV4 | FamV6

definition family_from_host :: "string \<Rightarrow> addr_family option" where
  "family_from_host host =
     (case parse_ip host of
        Some ip \<Rightarrow> Some (case ip of IpV4 _ \<Rightarrow> FamV4 | IpV6 _ \<Rightarrow> FamV6)
      | None \<Rightarrow> None)"

fun family_matches :: "addr_family \<Rightarrow> socket_addr \<Rightarrow> bool" where
  "family_matches FamV4 a = sock_is_ipv4 a"
| "family_matches FamV6 a = sock_is_ipv6 a"

datatype net_error =
    EmptyAddress
  | MissingBracket
  | MissingPort
  | InvalidPort
  | EmptyHost
  | NotHostPort
  | NoMatchingAddresses
  | DnsLookupFailed
  | NoUsableAddress
  | Cancelled
  | ConnectFailed
  | GivingUp net_error

definition parse_host_port :: "string \<Rightarrow> net_error + string \<times> u16" where
  "parse_host_port s0 =
     (let s = trim s0 in
      if s = [] then Inl EmptyAddress
      else case strip_prefix ''['' s of
        Some rest \<Rightarrow>
          (case split_once '']'' rest of
             None \<Rightarrow> Inl MissingBracket
           | Some (host, after) \<Rightarrow>
               (case strip_prefix '':'' after of
                  None \<Rightarrow> Inl MissingPort
                | Some port_str \<Rightarrow>
                    (case parse_u16 port_str of
                       None \<Rightarrow> Inl InvalidPort
                     | Some port \<Rightarrow> if host = [] then Inl EmptyHost else Inr (host, port))))
      | None \<Rightarrow>
          (case rsplit_once (CHR '':'') s of
             Some (host, port_str) \<Rightarrow>
               if host \<noteq> [] \<and> port_str \<noteq> [] \<and> CHR '':'' \<notin> set host
               then (case parse_u16 port_str of
                       None \<Rightarrow> Inl InvalidPort
                     | Some port \<Rightarrow> Inr (host, port))
               else Inl NotHostPort
           | None \<Rightarrow> Inl NotHostPort))"

definition is_unspecified_host :: "string \<Rightarrow> bool" where
  "is_unspecified_host host =
     (case parse_ip host of
        Some ip \<Rightarrow> is_unspecified ip
      | None \<Rightarrow> host = ''*'' \<or> eq_ignore_ascii_case host ''unspecified'')"

definition join_host_port :: "string \<Rightarrow> u16 \<Rightarrow> string" where
  "join_host_port host port =
     (if CHR '':'' \<in> set host \<and> \<not> prefix ''['' host
      then ''['' @ host @ '']:'' @ show_nat (unat port)
      else host @ '':'' @ show_nat (unat port))"

definition is_loopback_host :: "string \<Rightarrow> bool" where
  "is_loopback_host host =
     (eq_ignore_ascii_case host ''localhost''
      \<or> (case parse_ip host of Some ip \<Rightarrow> is_loopback ip | None \<Rightarrow> False))"

lemma trim_id:
  assumes "\<forall>w\<in>set white_space. \<not> prefix w s" "\<forall>w\<in>set white_space. \<not> suffix w s"
  shows "trim s = s"
proof -
  have "drop_leading white_space s = s" using assms(1) by (intro drop_leading_id) auto
  moreover have "drop_leading (map rev white_space) (rev s) = rev s"
    using assms(2) by (intro drop_leading_id) (auto simp: suffix_to_prefix)
  ultimately show ?thesis by (simp add: trim_def)
qed

lemma white_space_chars:
  assumes "w \<in> set white_space" "c \<in> set w"
  shows "c \<noteq> CHR '':'' \<and> c \<noteq> CHR ''['' \<and> \<not> is_ascii_digit c"
proof -
  have "list_all (list_all (\<lambda>c. c \<noteq> CHR '':'' \<and> c \<noteq> CHR ''['' \<and> \<not> is_ascii_digit c)) white_space"
    by code_simp
  then show ?thesis using assms by (auto simp: list_all_iff)
qed

lemma no_trailing_white_space:
  assumes "w \<in> set white_space" shows "\<not> suffix w (xs @ show_nat n)"
proof
  assume "suffix w (xs @ show_nat n)"
  then obtain ys where ys: "xs @ show_nat n = ys @ w" by (auto simp: suffix_def)
  have "last w = last (show_nat n)" using ys white_space_nonempty [OF assms]
    by (metis last_appendR show_nat_nonempty)
  moreover have "is_ascii_digit (last (show_nat n))"
    by (rule show_nat_digits) (rule last_in_set, simp)
  ultimately show False
    using white_space_chars [OF assms last_in_set [OF white_space_nonempty [OF assms]]] by simp
qed

lemma no_leading_white_space:
  assumes "w \<in> set white_space" "\<not> prefix w host" shows "\<not> prefix w (host @ CHR '':'' # xs)"
proof
  assume "prefix w (host @ CHR '':'' # xs)"
  then have "prefix w (host @ [CHR '':'']) \<or> (\<exists>us. w = host @ CHR '':'' # us)"
    using assms(2) by (auto simp: prefix_append prefix_Cons)
  then have "CHR '':'' \<in> set w" using assms(2) by (auto simp: prefix_append prefix_Cons)
  then show False using white_space_chars [OF assms(1)] by blast
qed

text \<open>C40: what \<open>join_host_port\<close> builds, \<open>parse_host_port\<close> reads back, for names, IPv4 and bare IPv6
  addresses alike.\<close>

theorem host_port_roundtrip:
  assumes "host \<noteq> []" "\<not> prefix ''['' host" "CHR '']'' \<notin> set host"
    and "\<forall>w\<in>set white_space. \<not> prefix w host"
  shows "parse_host_port (join_host_port host port) = Inr (host, port)"
proof (cases "CHR '':'' \<in> set host")
  case True
  let ?s = "''['' @ host @ '']:'' @ show_nat (unat port)"
  have "trim ?s = ?s"
  proof (rule trim_id; intro ballI)
    fix w assume w: "w \<in> set white_space"
    show "\<not> prefix w ?s"
    proof
      assume "prefix w ?s"
      then have "CHR ''['' \<in> set w" using white_space_nonempty [OF w] by (auto simp: prefix_Cons)
      then show False using white_space_chars [OF w] by blast
    qed
    show "\<not> suffix w ?s" using no_trailing_white_space [OF w, of "''['' @ host @ '']:''"] by simp
  qed
  moreover have "split_once '']'' (host @ '']:'' @ t) = Some (host, CHR '':'' # t)" for t
    using assms(3)
    by (induction host) (simp_all add: split_once.simps)
  ultimately show ?thesis using True assms(1,2)
    by (simp add: join_host_port_def parse_host_port_def strip_prefix_def)
next
  case False
  let ?s = "host @ CHR '':'' # show_nat (unat port)"
  have "trim ?s = ?s"
    using no_leading_white_space assms(4) no_trailing_white_space [of _ "host @ '':''"]
    by (intro trim_id) auto
  moreover have "CHR '':'' \<notin> set (show_nat (unat port))"
    using show_nat_digits [of "CHR '':''"] by (auto simp: is_ascii_digit_def digit_val_def)
  then have "rsplit_once (CHR '':'') ?s = Some (host, show_nat (unat port))"
    by (simp add: rsplit_once_eq_Some)
  moreover have "\<not> prefix ''['' ?s" using assms(1,2) by (cases host) auto
  ultimately show ?thesis using False assms(1)
    by (simp add: join_host_port_def parse_host_port_def strip_prefix_def)
qed

theorem host_port_roundtrip_witness:
  "parse_host_port (join_host_port ''fd00::1'' 9100) = Inr (''fd00::1'', 9100)"
proof (rule host_port_roundtrip)
  have "list_all (\<lambda>w. \<not> prefix w ''fd00::1'') white_space" by code_simp
  then show "\<forall>w\<in>set white_space. \<not> prefix w ''fd00::1''" by (simp add: list_all_iff)
qed simp_all

lemma parse_host_port_host:
  assumes "parse_host_port s = Inr (host, port)"
  shows "host \<noteq> [] \<and> (CHR '':'' \<in> set host \<longrightarrow> prefix ''['' (trim s))"
  using assms
  by (auto simp: parse_host_port_def Let_def strip_prefix_def split: if_splits option.splits)

section \<open>Choosing an address\<close>

definition family_allows :: "addr_family option \<Rightarrow> socket_addr \<Rightarrow> bool" where
  "family_allows family a = (case family of Some fam \<Rightarrow> family_matches fam a | None \<Rightarrow> True)"

definition pick_addr :: "socket_addr list \<Rightarrow> addr_family option \<Rightarrow> net_error + socket_addr" where
  "pick_addr addrs family =
     (let filtered = (case family of Some fam \<Rightarrow> filter (family_matches fam) addrs | None \<Rightarrow> addrs) in
      case filtered of [] \<Rightarrow> Inl NoMatchingAddresses | a0 # _ \<Rightarrow>
      (case find (\<lambda>a. sock_is_ipv4 a \<and> \<not> is_loopback (sock_ip a)) filtered of Some a \<Rightarrow> Inr a | None \<Rightarrow>
      (case find (\<lambda>a. sock_is_ipv6 a \<and> \<not> is_loopback (sock_ip a)) filtered of Some a \<Rightarrow> Inr a | None \<Rightarrow>
      (case find sock_is_ipv4 filtered of Some a \<Rightarrow> Inr a | None \<Rightarrow> Inr a0))))"

text \<open>What the users of the choice rely on: it returns one of the allowed candidates, and it
  returns one whenever there is one.\<close>

locale addr_selector =
  fixes pick :: "socket_addr list \<Rightarrow> addr_family option \<Rightarrow> net_error + socket_addr"
  assumes pick_sound: "pick addrs family = Inr a \<Longrightarrow> a \<in> set addrs \<and> family_allows family a"
    and pick_total: "a \<in> set addrs \<Longrightarrow> family_allows family a \<Longrightarrow> \<exists>b. pick addrs family = Inr b"
begin

lemma pick_succeeds_iff:
  "(\<exists>a. pick addrs family = Inr a) \<longleftrightarrow> (\<exists>a\<in>set addrs. family_allows family a)"
  using pick_sound pick_total by blast

lemma pick_fails_iff:
  "(\<exists>e. pick addrs family = Inl e) \<longleftrightarrow> (\<forall>a\<in>set addrs. \<not> family_allows family a)"
  using pick_succeeds_iff [of addrs family] by (cases "pick addrs family") auto

lemma pick_single: "family_allows family a \<Longrightarrow> pick [a] family = Inr a"
  using pick_sound [of "[a]" family] pick_total [of a "[a]" family] by auto

end

lemma filtered_family:
  "(case family of Some fam \<Rightarrow> filter (family_matches fam) addrs | None \<Rightarrow> addrs)
     = filter (family_allows family) addrs"
  by (cases family) (simp_all add: family_allows_def [abs_def])

lemma pick_addr_alt:
  "pick_addr addrs family =
     (let F = filter (family_allows family) addrs in
      case F of [] \<Rightarrow> Inl NoMatchingAddresses | a0 # _ \<Rightarrow>
      (case find (\<lambda>a. sock_is_ipv4 a \<and> \<not> is_loopback (sock_ip a)) F of Some a \<Rightarrow> Inr a | None \<Rightarrow>
      (case find (\<lambda>a. sock_is_ipv6 a \<and> \<not> is_loopback (sock_ip a)) F of Some a \<Rightarrow> Inr a | None \<Rightarrow>
      (case find sock_is_ipv4 F of Some a \<Rightarrow> Inr a | None \<Rightarrow> Inr a0))))"
  by (simp only: pick_addr_def filtered_family)

text \<open>The four ways the choice can fall.\<close>

lemma pick_addr_cases:
  assumes "pick_addr addrs family = Inr a"
  obtains (v4) "find (\<lambda>a. sock_is_ipv4 a \<and> \<not> is_loopback (sock_ip a)) (filter (family_allows family) addrs) = Some a"
    | (v6) "find (\<lambda>a. sock_is_ipv4 a \<and> \<not> is_loopback (sock_ip a)) (filter (family_allows family) addrs) = None"
        "find (\<lambda>a. sock_is_ipv6 a \<and> \<not> is_loopback (sock_ip a)) (filter (family_allows family) addrs) = Some a"
    | (local_v4) "find (\<lambda>a. sock_is_ipv4 a \<and> \<not> is_loopback (sock_ip a)) (filter (family_allows family) addrs) = None"
        "find (\<lambda>a. sock_is_ipv6 a \<and> \<not> is_loopback (sock_ip a)) (filter (family_allows family) addrs) = None"
        "find sock_is_ipv4 (filter (family_allows family) addrs) = Some a"
    | (first) "find (\<lambda>a. sock_is_ipv4 a \<and> \<not> is_loopback (sock_ip a)) (filter (family_allows family) addrs) = None"
        "find (\<lambda>a. sock_is_ipv6 a \<and> \<not> is_loopback (sock_ip a)) (filter (family_allows family) addrs) = None"
        "find sock_is_ipv4 (filter (family_allows family) addrs) = None"
        "filter (family_allows family) addrs \<noteq> []" "a = hd (filter (family_allows family) addrs)"
proof -
  let ?F = "filter (family_allows family) addrs"
  obtain a0 F0 where F: "?F = a0 # F0"
    using assms unfolding pick_addr_alt Let_def by (cases ?F) auto
  let ?P4 = "\<lambda>a. sock_is_ipv4 a \<and> \<not> is_loopback (sock_ip a)"
  let ?P6 = "\<lambda>a. sock_is_ipv6 a \<and> \<not> is_loopback (sock_ip a)"
  have eq: "(case find ?P4 ?F of Some a \<Rightarrow> Inr a | None \<Rightarrow>
      (case find ?P6 ?F of Some a \<Rightarrow> Inr a | None \<Rightarrow>
      (case find sock_is_ipv4 ?F of Some a \<Rightarrow> Inr a | None \<Rightarrow> Inr a0))) = (Inr a :: net_error + socket_addr)"
    using assms by (simp only: pick_addr_alt Let_def F list.case)
  show thesis
  proof (cases "find ?P4 ?F")
    case Some
    then show thesis using eq by (intro v4) (simp only: option.case sum.inject)
  next
    case n4: None
    show thesis
    proof (cases "find ?P6 ?F")
      case Some
      then show thesis using eq n4 by (intro v6) (simp_all only: option.case sum.inject)
    next
      case n6: None
      show thesis
      proof (cases "find sock_is_ipv4 ?F")
        case Some
        then show thesis using eq n4 n6 by (intro local_v4) (simp_all only: option.case sum.inject)
      next
        case None
        then have "a = a0" using eq n4 n6 by (simp only: option.case sum.inject)
        with n4 n6 None show thesis by (intro first) (simp_all only: F list.sel list.simps not_False_eq_True)
      qed
    qed
  qed
qed

lemma pick_addr_member:
  "pick_addr addrs family = Inr a \<Longrightarrow> a \<in> set (filter (family_allows family) addrs)"
  by (erule pick_addr_cases) (blast dest: find_SomeD intro: hd_in_set)+

lemma pick_addr_succeeds:
  "a \<in> set addrs \<Longrightarrow> family_allows family a \<Longrightarrow> \<exists>b. pick_addr addrs family = Inr b"
  unfolding pick_addr_alt Let_def
  by (auto split: list.splits option.splits simp: filter_empty_conv)

interpretation addr: addr_selector pick_addr
  by unfold_locales (auto dest: pick_addr_member intro: pick_addr_succeeds)

text \<open>The chosen address is an allowed candidate; it is a loopback address only if every allowed
  candidate is, and an IPv6 address only if there is no IPv4 candidate of the same kind.\<close>

theorem pick_addr_preference:
  assumes "pick_addr addrs family = Inr a"
  shows "a \<in> set addrs \<and> family_allows family a
    \<and> (is_loopback (sock_ip a) \<longrightarrow> (\<forall>b\<in>set addrs. family_allows family b \<longrightarrow> is_loopback (sock_ip b)))
    \<and> (sock_is_ipv6 a \<longrightarrow> (\<forall>b\<in>set addrs. family_allows family b \<longrightarrow> sock_is_ipv4 b \<longrightarrow>
          is_loopback (sock_ip b) \<and> \<not> is_loopback (sock_ip a)))"
proof -
  have "a \<in> set (filter (family_allows family) addrs)" using pick_addr_member [OF assms] .
  with assms show ?thesis
    by (elim pick_addr_cases) (auto dest!: find_SomeD simp: find_None_iff sock_is_ipv6_def)
qed

theorem pick_addr_preference_witness:
  "SockV4 167772161 9 \<in> set [SockV6 7 9 0 0, SockV4 2130706433 9, SockV4 167772161 9]
    \<and> family_allows None (SockV4 167772161 9)"
  using pick_addr_preference [of "[SockV6 7 9 0 0, SockV4 2130706433 9, SockV4 167772161 9]" None "SockV4 167772161 9"]
  by (simp add: pick_addr_def sock_is_ipv6_def)

section \<open>Resolving and connecting with retries\<close>

definition resolve_one ::
  "(string \<Rightarrow> socket_addr list option) \<Rightarrow> string \<Rightarrow> u16 \<Rightarrow> addr_family option \<Rightarrow> net_error + socket_addr" where
  "resolve_one lookup_host host port family =
     (case lookup_host (join_host_port host port) of
        None \<Rightarrow> Inl DnsLookupFailed
      | Some addrs \<Rightarrow>
          (case pick_addr addrs family of
             Inl _ \<Rightarrow> Inl NoUsableAddress
           | Inr a \<Rightarrow> Inr a))"

text \<open>One turn of a retry loop as the environment decides it: whether the token is cancelled at
  the loop head, the nanoseconds an attempt takes to fail, whether the sleep is interrupted by the
  token, and by how much it oversleeps (a tokio sleep is never short). \<open>start.elapsed()\<close> is what these
  and the delays add up to.\<close>

record poll =
  cancelled_at_head :: bool
  attempt_ns :: nat
  cancelled_in_sleep :: bool
  oversleep_ns :: nat

definition millis :: "nat \<Rightarrow> nat" where
  "millis n = n * 1000000"

fun retry_loop ::
  "nat \<Rightarrow> (nat \<Rightarrow> poll) \<Rightarrow> (nat \<Rightarrow> net_error + 'a) \<Rightarrow> nat \<Rightarrow> nat \<Rightarrow> nat \<Rightarrow> nat \<Rightarrow> (net_error + 'a) option" where
  "retry_loop 0 polls attempt deadline delay elapsed i = None"
| "retry_loop (Suc fuel) polls attempt deadline delay elapsed i =
     (if cancelled_at_head (polls i) then Some (Inl Cancelled)
      else case attempt i of
        Inr a \<Rightarrow> Some (Inr a)
      | Inl e \<Rightarrow>
          (let elapsed = elapsed + attempt_ns (polls i) in
           if deadline \<le> elapsed then Some (Inl (GivingUp e))
           else if cancelled_in_sleep (polls i) then Some (Inl Cancelled)
           else retry_loop fuel polls attempt deadline (min (delay * 2) (millis 400))
                  (elapsed + delay + oversleep_ns (polls i)) (i + 1)))"

definition resolve_retry ::
  "nat \<Rightarrow> (nat \<Rightarrow> poll) \<Rightarrow> (nat \<Rightarrow> string \<Rightarrow> socket_addr list option) \<Rightarrow> string \<Rightarrow> u16 \<Rightarrow> addr_family option
   \<Rightarrow> nat \<Rightarrow> (net_error + socket_addr) option" where
  "resolve_retry fuel polls dns host port family deadline =
     retry_loop fuel polls (\<lambda>i. resolve_one (dns i) host port family) deadline (millis 20) 0 0"

definition connect_tcp_dest ::
  "nat \<Rightarrow> (nat \<Rightarrow> poll) \<Rightarrow> (nat \<Rightarrow> string \<Rightarrow> 'stream option) \<Rightarrow> string \<Rightarrow> nat \<Rightarrow> (net_error + 'stream) option" where
  "connect_tcp_dest fuel polls connect dest deadline =
     retry_loop fuel polls
       (\<lambda>i. case connect i dest of Some s \<Rightarrow> Inr s | None \<Rightarrow> Inl ConnectFailed) deadline (millis 20) 0 0"

definition connect_tcp_retry ::
  "nat \<Rightarrow> (nat \<Rightarrow> poll) \<Rightarrow> (nat \<Rightarrow> string \<Rightarrow> 'stream option) \<Rightarrow> string \<Rightarrow> u16 \<Rightarrow> nat \<Rightarrow> (net_error + 'stream) option" where
  "connect_tcp_retry fuel polls connect host port deadline =
     connect_tcp_dest fuel polls connect (join_host_port host port) deadline"

definition connect_tcp_addr_retry ::
  "nat \<Rightarrow> (nat \<Rightarrow> poll) \<Rightarrow> (nat \<Rightarrow> string \<Rightarrow> 'stream option) \<Rightarrow> socket_addr \<Rightarrow> nat \<Rightarrow> (net_error + 'stream) option" where
  "connect_tcp_addr_retry fuel polls connect addr deadline =
     connect_tcp_dest fuel polls connect (show_sock addr) deadline"

text \<open>The pause after attempt \<open>k\<close>, and the time on the clock when attempt \<open>n\<close> has failed: the attempts
  up to it and the pauses between them.\<close>

definition pause :: "nat \<Rightarrow> nat" where
  "pause k = min (millis 20 * 2 ^ k) (millis 400)"

definition failed_at :: "(nat \<Rightarrow> poll) \<Rightarrow> nat \<Rightarrow> nat" where
  "failed_at polls n = (\<Sum>k\<le>n. attempt_ns (polls k)) + (\<Sum>k<n. pause k + oversleep_ns (polls k))"

lemma pause_0: "pause 0 = millis 20"
  by (simp add: pause_def millis_def)

lemma pause_Suc: "min (pause k * 2) (millis 400) = pause (Suc k)"
  by (auto simp: pause_def min_def)

lemma pause_flat: "5 \<le> k \<Longrightarrow> pause k = millis 400"
proof -
  assume "5 \<le> k"
  then have "(2 :: nat) ^ 5 \<le> 2 ^ k" by (rule power_increasing) simp
  then show ?thesis by (simp add: pause_def millis_def)
qed

lemma failed_at_lower: "millis 620 + millis 400 * k \<le> failed_at polls (k + 5)"
proof -
  have "millis 620 + millis 400 * k = (\<Sum>j<k + 5. pause j)"
  proof (induction k)
    case 0
    show ?case by (simp add: pause_def millis_def lessThan_nat_numeral)
  next
    case (Suc k)
    have "{..<Suc k + 5} = insert (k + 5) {..<k + 5}" by auto
    with Suc show ?case using pause_flat [of "k + 5"] by (simp del: add_Suc)
  qed
  also have "\<dots> \<le> (\<Sum>j<k + 5. pause j + oversleep_ns (polls j))" by (rule sum_mono) simp
  finally show ?thesis by (simp add: failed_at_def)
qed

text \<open>How a loop ends at attempt \<open>n\<close>.\<close>

definition retry_ends :: "(nat \<Rightarrow> poll) \<Rightarrow> (nat \<Rightarrow> net_error + 'a) \<Rightarrow> nat \<Rightarrow> nat \<Rightarrow> net_error + 'a \<Rightarrow> bool" where
  "retry_ends polls attempt deadline n r \<longleftrightarrow>
     cancelled_at_head (polls n) \<and> r = Inl Cancelled
   \<or> \<not> cancelled_at_head (polls n) \<and>
     (case attempt n of
        Inr a \<Rightarrow> r = Inr a
      | Inl e \<Rightarrow> if deadline \<le> failed_at polls n then r = Inl (GivingUp e)
               else cancelled_in_sleep (polls n) \<and> r = Inl Cancelled)"

definition retry_passes :: "(nat \<Rightarrow> poll) \<Rightarrow> (nat \<Rightarrow> net_error + 'a) \<Rightarrow> nat \<Rightarrow> nat \<Rightarrow> bool" where
  "retry_passes polls attempt deadline k \<longleftrightarrow>
     \<not> cancelled_at_head (polls k) \<and> (\<exists>e. attempt k = Inl e) \<and> failed_at polls k < deadline \<and> \<not> cancelled_in_sleep (polls k)"

lemma retry_decides: "\<not> retry_passes polls attempt deadline i \<Longrightarrow> \<exists>r. retry_ends polls attempt deadline i r"
  by (cases "cancelled_at_head (polls i)"; cases "attempt i"; cases "deadline \<le> failed_at polls i")
     (simp_all add: retry_ends_def retry_passes_def)

lemma retry_step:
  assumes "elapsed + attempt_ns (polls i) = failed_at polls i" "\<not> retry_passes polls attempt deadline i"
  shows "retry_ends polls attempt deadline i r \<longleftrightarrow> retry_loop (Suc fuel) polls attempt deadline delay elapsed i = Some r"
  using assms
  by (auto simp: retry_ends_def retry_passes_def Let_def not_le split: sum.splits)

lemma retry_runs:
  assumes "deadline \<le> failed_at polls (i + m)" "elapsed + attempt_ns (polls i) = failed_at polls i"
  shows "\<exists>n\<ge>i. n \<le> i + m \<and> (\<exists>r. retry_loop (Suc m) polls attempt deadline (pause i) elapsed i = Some r
    \<and> (\<forall>k. i \<le> k \<and> k < n \<longrightarrow> retry_passes polls attempt deadline k) \<and> retry_ends polls attempt deadline n r)"
  using assms
proof (induction m arbitrary: i elapsed)
  case 0
  then have stop: "\<not> retry_passes polls attempt deadline i" by (simp add: retry_passes_def)
  then obtain r where "retry_ends polls attempt deadline i r" using retry_decides by blast
  then show ?case using retry_step [OF 0(2) stop] by (intro exI [of _ i]) (auto simp del: retry_loop.simps)
next
  case (Suc m)
  let ?elapsed = "failed_at polls i + pause i + oversleep_ns (polls i)"
  show ?case
  proof (cases "retry_passes polls attempt deadline i")
    case True
    then have run: "retry_loop (Suc (Suc m)) polls attempt deadline (pause i) elapsed i
        = retry_loop (Suc m) polls attempt deadline (pause (Suc i)) ?elapsed (Suc i)"
      using Suc.prems(2) by (subst retry_loop.simps) (auto simp: retry_passes_def pause_Suc Let_def simp del: retry_loop.simps)
    have "?elapsed + attempt_ns (polls (Suc i)) = failed_at polls (Suc i)" by (simp add: failed_at_def)
    with Suc.IH [of "Suc i" ?elapsed] Suc.prems(1)
    obtain n r where n: "Suc i \<le> n" "n \<le> Suc i + m"
      "retry_loop (Suc m) polls attempt deadline (pause (Suc i)) ?elapsed (Suc i) = Some r"
      "\<forall>k. Suc i \<le> k \<and> k < n \<longrightarrow> retry_passes polls attempt deadline k" "retry_ends polls attempt deadline n r"
      by auto
    have "\<forall>k. i \<le> k \<and> k < n \<longrightarrow> retry_passes polls attempt deadline k"
      using n(4) True by (metis le_neq_implies_less Suc_leI)
    then show ?thesis using n run by (intro exI [of _ n]) auto
  next
    case False
    then obtain r where "retry_ends polls attempt deadline i r" using retry_decides by blast
    then show ?thesis using retry_step [OF Suc.prems(2) False] by (intro exI [of _ i]) (auto simp del: retry_loop.simps)
  qed
qed

text \<open>C35: a connection attempt comes to an end: a deadline of at most 30 seconds is met within 80 attempts,
  whatever they take and however long the sleeps. Every attempt but the last failed before the deadline,
  and the last one decides: a stream where it connects, the error of the deadline where it fails at or
  after it, and cancellation where the token is.\<close>

theorem connect_retry_bounded:
  assumes "deadline \<le> millis 30000"
  shows "\<exists>n<80. \<exists>r. connect_tcp_dest 80 polls connect dest deadline = Some r
    \<and> (\<forall>k<n. connect k dest = None \<and> failed_at polls k < deadline)
    \<and> (case r of
         Inr s \<Rightarrow> connect n dest = Some s
       | Inl e \<Rightarrow>
           e = Cancelled \<and> (cancelled_at_head (polls n) \<or> cancelled_in_sleep (polls n))
         \<or> e = GivingUp ConnectFailed \<and> connect n dest = None \<and> deadline \<le> failed_at polls n)"
proof -
  let ?attempt = "\<lambda>i. case connect i dest of Some s \<Rightarrow> Inr s | None \<Rightarrow> Inl ConnectFailed"
  have "deadline \<le> failed_at polls (0 + 79)"
    using failed_at_lower [of 74 polls] assms by (simp add: millis_def)
  from retry_runs [OF this, of 0 ?attempt]
  obtain n r where n: "n \<le> 79" "retry_loop (Suc 79) polls ?attempt deadline (pause 0) 0 0 = Some r"
    "\<forall>k<n. retry_passes polls ?attempt deadline k" "retry_ends polls ?attempt deadline n r"
    by (auto simp: failed_at_def)
  from n(2) have "connect_tcp_dest 80 polls connect dest deadline = Some r"
    by (simp add: connect_tcp_dest_def pause_0 del: retry_loop.simps)
  moreover have "\<forall>k<n. connect k dest = None \<and> failed_at polls k < deadline"
    using n(3) by (auto simp: retry_passes_def split: option.splits)
  ultimately show ?thesis
    using n(1,4) by (intro exI [of _ n]) (auto simp: retry_ends_def split: option.splits sum.splits if_splits)
qed

definition sample_polls :: "nat \<Rightarrow> poll" where
  "sample_polls i = \<lparr>cancelled_at_head = False, attempt_ns = millis 1, cancelled_in_sleep = False, oversleep_ns = 0\<rparr>"

text \<open>A peer that starts to listen before the fourth attempt, and one that never does.\<close>

theorem connect_retry_bounded_witness:
  "connect_tcp_dest 80 sample_polls (\<lambda>i _. if 3 \<le> i then Some ''stream'' else None) ''a:1'' (millis 30000) = Some (Inr ''stream'')
   \<and> connect_tcp_dest 80 sample_polls (\<lambda>_ _. None :: string option) ''a:1'' (millis 30000) = Some (Inl (GivingUp ConnectFailed))"
proof
  let ?late = "\<lambda>i (_ :: string). if (3 :: nat) \<le> i then Some ''stream'' else None"
  have early: "failed_at sample_polls k < millis 30000" if "k < 3" for k
    using that by (auto simp: less_Suc_eq numeral_3_eq_3 failed_at_def sample_polls_def millis_def pause_def)
  obtain n r where n: "connect_tcp_dest 80 sample_polls ?late ''a:1'' (millis 30000) = Some r" "\<forall>k<n. ?late k ''a:1'' = None"
    "case r of Inr s \<Rightarrow> ?late n ''a:1'' = Some s
     | Inl e \<Rightarrow> e = Cancelled \<and> (cancelled_at_head (sample_polls n) \<or> cancelled_in_sleep (sample_polls n))
         \<or> e = GivingUp ConnectFailed \<and> ?late n ''a:1'' = None \<and> millis 30000 \<le> failed_at sample_polls n"
    using connect_retry_bounded [of "millis 30000" sample_polls ?late "''a:1''"] by blast
  have "r = Inr ''stream''"
    using n(3) early [of n] by (cases r) (auto simp: sample_polls_def not_le split: if_splits)
  then show "connect_tcp_dest 80 sample_polls ?late ''a:1'' (millis 30000) = Some (Inr ''stream'')" using n(1) by simp
  obtain n' r' where never: "connect_tcp_dest 80 sample_polls (\<lambda>_ _. None :: string option) ''a:1'' (millis 30000) = Some r'"
    "case r' of Inr s \<Rightarrow> None = Some s
     | Inl e \<Rightarrow> e = Cancelled \<and> (cancelled_at_head (sample_polls n') \<or> cancelled_in_sleep (sample_polls n'))
         \<or> e = GivingUp ConnectFailed \<and> (None :: string option) = None \<and> millis 30000 \<le> failed_at sample_polls n'"
    using connect_retry_bounded [of "millis 30000" sample_polls "\<lambda>_ _. None :: string option" "''a:1''"] by blast
  then have "r' = Inl (GivingUp ConnectFailed)" by (cases r') (simp_all add: sample_polls_def)
  then show "connect_tcp_dest 80 sample_polls (\<lambda>_ _. None :: string option) ''a:1'' (millis 30000) = Some (Inl (GivingUp ConnectFailed))"
    using never(1) by simp
qed

section \<open>Local addresses\<close>

text \<open>The entries of \<open>getifaddrs\<close>, in list order; \<open>None\<close> where the call fails.\<close>

datatype if_addr = If_null | If_inet u32 | If_inet6 "128 word" | If_other

definition usable_local :: "ip_addr \<Rightarrow> bool" where
  "usable_local ip \<longleftrightarrow> \<not> is_loopback ip \<and> \<not> is_unspecified ip \<and> \<not> is_link_local ip"

fun local_ip :: "if_addr \<Rightarrow> ip_addr list" where
  "local_ip (If_inet a) = (if usable_local (IpV4 a) then [IpV4 a] else [])"
| "local_ip (If_inet6 a) = (if usable_local (IpV6 a) then [IpV6 a] else [])"
| "local_ip _ = []"

definition local_unicast_ips :: "if_addr list option \<Rightarrow> ip_addr list" where
  "local_unicast_ips ifaddrs = (case ifaddrs of None \<Rightarrow> [] | Some ifs \<Rightarrow> concat (map local_ip ifs))"

lemma local_unicast_usable: "ip \<in> set (local_unicast_ips ifaddrs) \<Longrightarrow> usable_local ip"
proof -
  have "ip \<in> set (local_ip i) \<Longrightarrow> usable_local ip" for i
    by (cases i) (auto split: if_splits)
  then show "ip \<in> set (local_unicast_ips ifaddrs) \<Longrightarrow> usable_local ip"
    by (auto simp: local_unicast_ips_def split: option.splits)
qed

end
