(* ===== verification/F64.thy ===== *)
theory F64
  imports Prelude Complex_Main
begin

text \<open>
  Rust's \<open>f64\<close>: IEEE 754 binary64 with rounding to nearest, ties to even. Finite values are
  rationals, so that every operation computes exactly and then rounds. The theory ends with the
  interface \<open>rounding\<close> of error bounds that the throughput computations use.
\<close>

section \<open>Powers of two over the rationals\<close>

abbreviation pow2 :: "int \<Rightarrow> rat" where
  "pow2 k \<equiv> 2 powi k"

lemma pow2_add: "pow2 (a + b) = pow2 a * pow2 b"
  by (simp add: power_int_add)

lemma pow2_mono: "a \<le> b \<Longrightarrow> pow2 a \<le> pow2 b"
  by (simp add: power_int_increasing)

lemma pow2_strict_mono: "a < b \<Longrightarrow> pow2 a < pow2 b"
  by (simp add: power_int_strict_increasing)

lemma pow2_le_iff [simp]: "pow2 a \<le> pow2 b \<longleftrightarrow> a \<le> b"
  by (meson linorder_not_less pow2_mono pow2_strict_mono)

lemma pow2_less_iff [simp]: "pow2 a < pow2 b \<longleftrightarrow> a < b"
  by (meson linorder_not_less pow2_mono pow2_strict_mono)

lemma pow2_pos [simp]: "0 < pow2 a" "0 \<le> pow2 a" "pow2 a \<noteq> 0"
  by simp_all

text \<open>The binary logarithm, rounded down and up, of a positive integer; and of a positive rational.\<close>

fun log2_floor :: "int \<Rightarrow> int" where
  "log2_floor n = (if n \<le> 1 then 0 else 1 + log2_floor (n div 2))"

declare log2_floor.simps [simp del]

definition log2_ceil :: "int \<Rightarrow> int" where
  "log2_ceil n = (if n \<le> 1 then 0 else 1 + log2_floor (n - 1))"

definition flog2 :: "rat \<Rightarrow> int" where
  "flog2 x = (if 1 \<le> x then log2_floor \<lfloor>x\<rfloor> else - log2_ceil \<lceil>1 / x\<rceil>)"

lemma log2_floor_bounds: "1 \<le> n \<Longrightarrow> 0 \<le> log2_floor n \<and> 2 ^ nat (log2_floor n) \<le> n \<and> n < 2 ^ nat (log2_floor n + 1)"
proof (induction n rule: log2_floor.induct)
  case (1 n)
  show ?case
  proof (cases "n = 1")
    case True
    then show ?thesis by (simp add: log2_floor.simps)
  next
    case False
    define k where "k = log2_floor (n div 2)"
    from False "1.prems" have IH: "0 \<le> k" "2 ^ nat k \<le> n div 2" "n div 2 < 2 ^ nat (k + 1)"
      using "1.IH" by (auto simp: k_def)
    have eq: "log2_floor n = 1 + k" using False "1.prems" by (subst log2_floor.simps) (simp add: k_def)
    have "nat (1 + k) = Suc (nat k)" "nat (1 + k + 1) = Suc (Suc (nat k))" "nat (k + 1) = Suc (nat k)"
      using IH(1) by auto
    moreover have "2 * (n div 2) \<le> n" "n \<le> 2 * (n div 2) + 1" by simp_all
    ultimately show ?thesis using IH eq by auto
  qed
qed

lemma log2_ceil_bounds: "1 < n \<Longrightarrow> 1 \<le> log2_ceil n \<and> 2 ^ nat (log2_ceil n - 1) < n \<and> n \<le> 2 ^ nat (log2_ceil n)"
  using log2_floor_bounds [of "n - 1"] by (auto simp: log2_ceil_def add.commute)

lemma flog2_bounds:
  assumes "0 < x"
  shows "pow2 (flog2 x) \<le> x \<and> x < pow2 (flog2 x + 1)"
proof (cases "1 \<le> x")
  case True
  define k where "k = log2_floor \<lfloor>x\<rfloor>"
  have "1 \<le> \<lfloor>x\<rfloor>" using True by simp
  from log2_floor_bounds [OF this] have k: "0 \<le> k" "2 ^ nat k \<le> \<lfloor>x\<rfloor>" "\<lfloor>x\<rfloor> < 2 ^ nat (k + 1)"
    by (auto simp: k_def)
  have "(2 :: rat) ^ nat k \<le> x" using k(2) by (simp add: le_floor_iff)
  moreover have "x < 2 ^ nat (k + 1)" using k(3) by (simp add: floor_less_iff)
  ultimately show ?thesis using True k(1) by (simp add: flog2_def power_int_def k_def)
next
  case False
  define k where "k = log2_ceil \<lceil>1 / x\<rceil>"
  have "1 < 1 / x" using False assms by simp
  then have "1 < \<lceil>1 / x\<rceil>" by (simp add: less_ceiling_iff)
  from log2_ceil_bounds [OF this] have k: "1 \<le> k" "2 ^ nat (k - 1) < \<lceil>1 / x\<rceil>" "\<lceil>1 / x\<rceil> \<le> 2 ^ nat k"
    by (auto simp: k_def)
  have "(2 :: rat) ^ nat (k - 1) < 1 / x" using k(2) by (simp add: less_ceiling_iff)
  moreover have "1 / x \<le> (2 :: rat) ^ nat k" using k(3) by (simp add: ceiling_le_iff)
  ultimately have "pow2 (k - 1) < 1 / x" "1 / x \<le> pow2 k" using k(1) by (simp_all add: power_int_def)
  then have "x < 1 / pow2 (k - 1)" "1 / pow2 k \<le> x"
    using assms by (simp_all add: field_simps)
  moreover have "1 / pow2 (k - 1) = pow2 (- k + 1)" "1 / pow2 k = pow2 (- k)"
    by (simp_all add: power_int_minus_divide [symmetric] del: power_int_minus_divide)
  ultimately show ?thesis using False by (simp add: flog2_def k_def)
qed

lemma flog2_unique: "pow2 k \<le> x \<Longrightarrow> x < pow2 (k + 1) \<Longrightarrow> flog2 x = k"
proof -
  assume a: "pow2 k \<le> x" "x < pow2 (k + 1)"
  then have "0 < x" by (meson less_le_trans pow2_pos(1))
  from flog2_bounds [OF this] have "pow2 (flog2 x) \<le> x" "x < pow2 (flog2 x + 1)" by auto
  then have "pow2 (flog2 x) < pow2 (k + 1)" "pow2 k < pow2 (flog2 x + 1)"
    using a by (meson le_less_trans)+
  then show ?thesis by (simp only: pow2_less_iff)
qed

lemma flog2_mono: "0 < x \<Longrightarrow> x \<le> y \<Longrightarrow> flog2 x \<le> flog2 y"
proof -
  assume a: "0 < x" "x \<le> y"
  then have "pow2 (flog2 x) < pow2 (flog2 y + 1)"
    using flog2_bounds [of x] flog2_bounds [of y] by (meson le_less_trans less_le_trans order_trans)
  then show ?thesis by simp
qed

section \<open>Rounding to the nearest integer, ties to even\<close>

definition rne :: "rat \<Rightarrow> int" where
  "rne x =
     (let f = \<lfloor>x\<rfloor>; d = x - of_int f
      in if d < 1 / 2 then f else if 1 / 2 < d then f + 1 else if even f then f else f + 1)"

lemma rne_of_int [simp]: "rne (of_int n) = n"
  by (simp add: rne_def)

lemma rne_error: "\<bar>of_int (rne x) - x\<bar> \<le> 1 / 2"
  using floor_correct [of x] by (auto simp: rne_def Let_def abs_le_iff field_simps)

lemma rne_floor: "rne x = \<lfloor>x\<rfloor> \<or> rne x = \<lfloor>x\<rfloor> + 1"
  by (simp add: rne_def Let_def)

lemma rne_mono: "x \<le> y \<Longrightarrow> rne x \<le> rne y"
proof -
  assume xy: "x \<le> y"
  then have "\<lfloor>x\<rfloor> \<le> \<lfloor>y\<rfloor>" by (rule floor_mono)
  then consider "\<lfloor>x\<rfloor> = \<lfloor>y\<rfloor>" | "\<lfloor>x\<rfloor> + 1 \<le> \<lfloor>y\<rfloor>" by linarith
  then show ?thesis
  proof cases
    case 1
    then show ?thesis using xy by (auto simp: rne_def Let_def)
  next
    case 2
    then show ?thesis using rne_floor [of x] rne_floor [of y] by linarith
  qed
qed

lemma rne_nonneg: "0 \<le> x \<Longrightarrow> 0 \<le> rne x"
  using rne_mono [of 0 x] rne_of_int [of 0] by simp

section \<open>binary64 values and operations\<close>

text \<open>The exponent of the last place of the binary64 number nearest to a positive rational:
  53 significant bits, and never below the subnormal spacing.\<close>

definition fexp :: "rat \<Rightarrow> int" where
  "fexp x = max (flog2 x - 52) (- 1074)"

text \<open>A non-negative rational rounded to the binary64 grid, before the overflow test.\<close>

definition rval :: "rat \<Rightarrow> rat" where
  "rval x = (if x \<le> 0 then 0 else of_int (rne (x / pow2 (fexp x))) * pow2 (fexp x))"

lemma rval_0 [simp]: "rval 0 = 0"
  by (simp add: rval_def)

lemma rval_nonneg [simp]: "0 \<le> rval x"
  by (auto simp: rval_def intro!: mult_nonneg_nonneg rne_nonneg)

lemma fexp_mono: "0 < x \<Longrightarrow> x \<le> y \<Longrightarrow> fexp x \<le> fexp y"
  using flog2_mono [of x y] by (auto simp: fexp_def)

lemma rval_upper: "0 < x \<Longrightarrow> rval x \<le> pow2 (fexp x + 53)"
proof -
  assume x: "0 < x"
  have "x / pow2 (fexp x) \<le> 2 ^ 53"
  proof -
    have "flog2 x + 1 \<le> 53 + fexp x" by (simp add: fexp_def)
    then have "x \<le> pow2 (53 + fexp x)"
      using flog2_bounds [OF x] by (meson less_imp_le less_le_trans pow2_mono)
    then show ?thesis by (simp add: divide_le_eq pow2_add)
  qed
  then have "rne (x / pow2 (fexp x)) \<le> rne (of_int (2 ^ 53))" by (intro rne_mono) simp
  then have "rne (x / pow2 (fexp x)) \<le> 2 ^ 53" by (simp only: rne_of_int)
  then have "of_int (rne (x / pow2 (fexp x))) \<le> (2 :: rat) ^ 53"
    by (metis of_int_le_iff of_int_numeral of_int_power)
  then show ?thesis using x by (simp add: rval_def pow2_add)
qed

lemma rval_lower: "0 < y \<Longrightarrow> - 1074 < fexp y \<Longrightarrow> pow2 (fexp y + 52) \<le> rval y"
proof -
  assume y: "0 < y" "- 1074 < fexp y"
  then have "flog2 y = 52 + fexp y" by (simp add: fexp_def max_def split: if_splits)
  then have "pow2 (52 + fexp y) \<le> y" using flog2_bounds [OF y(1)] by simp
  then have "2 ^ 52 \<le> y / pow2 (fexp y)" by (simp add: le_divide_eq pow2_add)
  then have "rne (of_int (2 ^ 52)) \<le> rne (y / pow2 (fexp y))" by (intro rne_mono) simp
  then have "2 ^ 52 \<le> rne (y / pow2 (fexp y))" by (simp only: rne_of_int)
  then have "(2 :: rat) ^ 52 \<le> of_int (rne (y / pow2 (fexp y)))"
    by (metis of_int_le_iff of_int_numeral of_int_power)
  then show ?thesis using y by (simp add: rval_def pow2_add)
qed

lemma rval_mono: "x \<le> y \<Longrightarrow> rval x \<le> rval y"
proof -
  assume xy: "x \<le> y"
  show ?thesis
  proof (cases "x \<le> 0")
    case True
    then have "rval x = 0" by (simp add: rval_def)
    then show ?thesis by simp
  next
    case False
    then have x: "0 < x" and y: "0 < y" using xy by auto
    consider "fexp x = fexp y" | "fexp x + 53 \<le> fexp y + 52" "- 1074 < fexp y"
      using fexp_mono [OF x xy] by (fastforce simp: fexp_def)
    then show ?thesis
    proof cases
      case 1
      have "rne (x / pow2 (fexp y)) \<le> rne (y / pow2 (fexp y))"
        using xy by (intro rne_mono divide_right_mono) auto
      then show ?thesis using 1 x y by (simp add: rval_def)
    next
      case 2
      then show ?thesis using rval_upper [OF x] rval_lower [OF y] by (meson order_trans pow2_mono)
    qed
  qed
qed

text \<open>Rounding leaves the representable numbers alone, and is off by at most half a unit in the
  last place: a relative error of at most \<open>2\<^sup>-\<^sup>5\<^sup>3\<close> in the normal range.\<close>

definition representable :: "rat \<Rightarrow> bool" where
  "representable x \<longleftrightarrow> (\<exists>m e. x = of_int m * pow2 e \<and> 0 \<le> m \<and> m < 2 ^ 53 \<and> - 1074 \<le> e)"

lemma rval_representable:
  assumes "representable x"
  shows "rval x = x"
proof (cases "x = 0")
  case False
  obtain m e where me: "x = of_int m * pow2 e" "0 \<le> m" "m < 2 ^ 53" "- 1074 \<le> e"
    using assms by (auto simp: representable_def)
  with False have x: "0 < x" "m \<noteq> 0" by auto
  have "(of_int m :: rat) < 2 ^ 53" using me(3) by (metis of_int_less_iff of_int_numeral of_int_power)
  then have "x < pow2 (53 + e)" using me(1) by (simp add: pow2_add)
  then have "pow2 (flog2 x) < pow2 (53 + e)" using flog2_bounds [OF x(1)] by (meson le_less_trans)
  then have "flog2 x < 53 + e" by (simp only: pow2_less_iff)
  then have e: "fexp x \<le> e" using me(4) by (simp add: fexp_def)
  define k where "k = nat (e - fexp x)"
  have "pow2 e = 2 ^ k * pow2 (fexp x)"
    using e pow2_add [of "e - fexp x" "fexp x"] by (simp add: power_int_def k_def)
  then have "x = of_int (m * 2 ^ k) * pow2 (fexp x)" using me(1) by simp
  then have "x / pow2 (fexp x) = of_int (m * 2 ^ k)"
    by (metis nonzero_mult_div_cancel_right pow2_pos(3))
  then show ?thesis using x by (simp add: rval_def del: of_int_mult) (simp add: field_simps)
qed simp

lemma rval_abs_error: "0 < x \<Longrightarrow> \<bar>rval x - x\<bar> \<le> pow2 (fexp x - 1)"
proof -
  assume x: "0 < x"
  let ?e = "fexp x"
  have "rval x - x = (of_int (rne (x / pow2 ?e)) - x / pow2 ?e) * pow2 ?e"
    using x by (simp add: rval_def algebra_simps)
  then have "\<bar>rval x - x\<bar> = \<bar>of_int (rne (x / pow2 ?e)) - x / pow2 ?e\<bar> * pow2 ?e"
    by (simp add: abs_mult)
  also have "\<dots> \<le> 1 / 2 * pow2 ?e" by (intro mult_right_mono rne_error) simp
  also have "\<dots> = pow2 (?e - 1)" by (simp add: power_int_diff)
  finally show ?thesis .
qed

lemma rval_rel_error: "pow2 (- 1022) \<le> x \<Longrightarrow> \<bar>rval x - x\<bar> \<le> x * pow2 (- 53)"
proof -
  assume n: "pow2 (- 1022) \<le> x"
  then have x: "0 < x" by (meson less_le_trans pow2_pos(1))
  have "- 1022 \<le> flog2 x"
  proof -
    have "pow2 (- 1022) < pow2 (flog2 x + 1)" using n flog2_bounds [OF x] by (meson le_less_trans)
    then show ?thesis by (simp only: pow2_less_iff)
  qed
  then have "fexp x - 1 = flog2 x + - 53" by (simp add: fexp_def)
  then have "pow2 (fexp x - 1) = pow2 (flog2 x) * pow2 (- 53)" by (simp only: pow2_add)
  also have "\<dots> \<le> x * pow2 (- 53)" using flog2_bounds [OF x] by (intro mult_right_mono) auto
  finally show ?thesis using rval_abs_error [OF x] by linarith
qed

text \<open>A Rust \<open>f64\<close>. The sign of zero is not represented: no operation of the program observes it.\<close>

datatype f64 = Fin rat | PInf | NInf | NaN

text \<open>Rounding to nearest, ties to even, with overflow to infinity from \<open>2^1024\<close> on (the test is
  on the exponent, see \<open>overflows_iff\<close>).\<close>

definition overflows :: "rat \<Rightarrow> bool" where
  "overflows y = (0 < y \<and> 1024 \<le> flog2 y)"

definition rnd :: "rat \<Rightarrow> f64" where
  "rnd x =
     (if x < 0 then let y = rval (- x) in if overflows y then NInf else Fin (- y)
      else let y = rval x in if overflows y then PInf else Fin y)"

fun fsgn :: "f64 \<Rightarrow> rat" where
  "fsgn (Fin x) = sgn x"
| "fsgn PInf = 1"
| "fsgn NInf = - 1"
| "fsgn NaN = 0"

definition inf_of_sign :: "rat \<Rightarrow> f64" where
  "inf_of_sign s = (if 0 < s then PInf else if s < 0 then NInf else NaN)"

fun fadd :: "f64 \<Rightarrow> f64 \<Rightarrow> f64" where
  "fadd (Fin x) (Fin y) = rnd (x + y)"
| "fadd NaN _ = NaN"
| "fadd _ NaN = NaN"
| "fadd PInf NInf = NaN"
| "fadd NInf PInf = NaN"
| "fadd (Fin _) b = b"
| "fadd a _ = a"

fun fmul :: "f64 \<Rightarrow> f64 \<Rightarrow> f64" where
  "fmul (Fin x) (Fin y) = rnd (x * y)"
| "fmul a b = inf_of_sign (fsgn a * fsgn b)"

text \<open>Division; a zero divisor counts as \<open>+0\<close>.\<close>

fun fdiv :: "f64 \<Rightarrow> f64 \<Rightarrow> f64" where
  "fdiv (Fin x) (Fin y) = (if y = 0 then inf_of_sign (sgn x) else rnd (x / y))"
| "fdiv NaN _ = NaN"
| "fdiv _ NaN = NaN"
| "fdiv (Fin _) _ = Fin 0"
| "fdiv a (Fin y) = (if y = 0 then a else inf_of_sign (fsgn a * sgn y))"
| "fdiv _ _ = NaN"

text \<open>The order of \<open>partial_cmp\<close>: every comparison with NaN is false.\<close>

fun flt :: "f64 \<Rightarrow> f64 \<Rightarrow> bool" where
  "flt (Fin x) (Fin y) = (x < y)"
| "flt NInf (Fin _) = True"
| "flt NInf PInf = True"
| "flt (Fin _) PInf = True"
| "flt _ _ = False"

definition fle :: "f64 \<Rightarrow> f64 \<Rightarrow> bool" where
  "fle a b = (flt a b \<or> a = b \<and> a \<noteq> NaN)"

text \<open>\<open>u64 as f64\<close> and \<open>f64 as u64\<close> (truncating and saturating; NaN gives 0).\<close>

definition f64_of_u64 :: "u64 \<Rightarrow> f64" where
  "f64_of_u64 w = rnd (of_int (uint w))"

fun u64_of_f64 :: "f64 \<Rightarrow> u64" where
  "u64_of_f64 (Fin x) =
     (if x \<le> 0 then 0 else if 2 ^ 64 \<le> x then - 1 else of_int \<lfloor>x\<rfloor>)"
| "u64_of_f64 PInf = - 1"
| "u64_of_f64 NInf = 0"
| "u64_of_f64 NaN = 0"

text \<open>\<open>f64::round\<close>: to the nearest integer, halfway cases away from zero (always exact).\<close>

fun fround :: "f64 \<Rightarrow> f64" where
  "fround (Fin x) = Fin (of_int (if 0 \<le> x then \<lfloor>x + 1 / 2\<rfloor> else \<lceil>x - 1 / 2\<rceil>))"
| "fround a = a"

lemma overflows_iff: "overflows y \<longleftrightarrow> pow2 1024 \<le> y"
proof (cases "0 < y")
  case True
  have "1024 \<le> flog2 y \<longleftrightarrow> pow2 1024 \<le> y"
  proof
    assume "1024 \<le> flog2 y"
    then show "pow2 1024 \<le> y" using flog2_bounds [OF True] by (meson order_trans pow2_mono)
  next
    assume "pow2 1024 \<le> y"
    then have "pow2 1024 < pow2 (flog2 y + 1)" using flog2_bounds [OF True] by (meson le_less_trans)
    then show "1024 \<le> flog2 y" by (simp only: pow2_less_iff)
  qed
  then show ?thesis using True by (simp only: overflows_def simp_thms)
next
  case False
  then show ?thesis using pow2_pos(1) [of 1024] by (simp only: overflows_def) (meson less_le_trans)
qed

lemma rval_pow2: "- 1074 \<le> k \<Longrightarrow> rval (pow2 k) = pow2 k"
  by (rule rval_representable, unfold representable_def, rule exI [of _ 1], rule exI [of _ k]) simp

lemma rval_bounded: "x \<le> pow2 k \<Longrightarrow> - 1074 \<le> k \<Longrightarrow> rval x \<le> pow2 k"
  using rval_mono [of x "pow2 k"] by (simp only: rval_pow2)

lemma rnd_not_NaN [simp]: "rnd x \<noteq> NaN"
  by (simp add: rnd_def Let_def)

lemma rnd_finite: "0 \<le> x \<Longrightarrow> x \<le> pow2 1023 \<Longrightarrow> rnd x = Fin (rval x)"
proof -
  assume x: "0 \<le> x" "x \<le> pow2 1023"
  have "rval x \<le> pow2 1023" using rval_bounded [OF x(2)] by simp
  also have "\<dots> < pow2 1024" by (simp only: pow2_less_iff)
  finally have "\<not> overflows (rval x)" by (simp only: overflows_iff not_le)
  then show ?thesis using x(1) by (simp add: rnd_def Let_def)
qed

lemma rval_nat: "0 \<le> n \<Longrightarrow> n \<le> 2 ^ 53 \<Longrightarrow> rval (of_int n) = of_int n"
proof (rule rval_representable)
  assume n: "0 \<le> n" "n \<le> 2 ^ 53"
  show "representable (of_int n)"
  proof (cases "n = 2 ^ 53")
    case True
    then have "rat_of_int n = of_int 1 * pow2 53" by simp
    then show ?thesis unfolding representable_def by (intro exI [of _ 1] exI [of _ 53]) simp
  next
    case False
    then have "n < 2 ^ 53" "rat_of_int n = of_int n * pow2 0" using n by simp_all
    then show ?thesis using n
      unfolding representable_def by (intro exI [of _ n] exI [of _ 0]) simp
  qed
qed

lemma fle_Fin [simp]: "fle (Fin x) (Fin y) \<longleftrightarrow> x \<le> y"
  by (auto simp: fle_def)

section \<open>Error bounds for chains of roundings\<close>

text \<open>
  What the rate computations rely on: rounding is monotone, keeps 0, and has a bounded relative
  error above a threshold. \<open>near u k x y\<close> bounds the quotient of two non-negative numbers from
  both sides by \<open>k\<close> factors of \<open>1 - u\<close>, and composes along products, quotients and roundings.
\<close>

definition near :: "rat \<Rightarrow> nat \<Rightarrow> rat \<Rightarrow> rat \<Rightarrow> bool" where
  "near u k x y \<longleftrightarrow> (1 - u) ^ k * x \<le> y \<and> (1 - u) ^ k * y \<le> x"

locale rounding =
  fixes r :: "rat \<Rightarrow> rat" and u :: rat and tiny :: rat
  assumes unit: "0 < u" "u < 1"
    and tiny_pos: "0 < tiny"
    and mono: "x \<le> y \<Longrightarrow> r x \<le> r y"
    and zero: "r 0 = 0"
    and rel_error: "tiny \<le> x \<Longrightarrow> \<bar>r x - x\<bar> \<le> x * u"
begin

lemma factor_pos: "0 < (1 - u) ^ k" "0 \<le> (1 - u) ^ k"
  using unit by simp_all

lemma near_refl: "0 \<le> x \<Longrightarrow> near u k x x"
  using unit by (simp add: near_def mult_left_le_one_le power_le_one)

lemma near_sym: "near u k x y \<Longrightarrow> near u k y x"
  by (simp add: near_def)

lemma near_trans: "near u j x y \<Longrightarrow> near u k y z \<Longrightarrow> near u (j + k) x z"
proof -
  assume a: "near u j x y" "near u k y z"
  have "(1 - u) ^ k * ((1 - u) ^ j * x) \<le> (1 - u) ^ k * y"
    using a factor_pos by (intro mult_left_mono) (auto simp: near_def)
  moreover have "(1 - u) ^ j * ((1 - u) ^ k * z) \<le> (1 - u) ^ j * y"
    using a factor_pos by (intro mult_left_mono) (auto simp: near_def)
  ultimately show ?thesis using a by (auto simp: near_def power_add mult_ac)
qed

lemma near_mult: "near u k x y \<Longrightarrow> 0 \<le> c \<Longrightarrow> near u k (x * c) (y * c)"
  using mult_right_mono [of "(1 - u) ^ k * x" y c] mult_right_mono [of "(1 - u) ^ k * y" x c]
  by (simp add: near_def mult_ac)

lemma near_divide:
  assumes "near u j a b" "near u k c d" "0 < c" "0 < d" "0 \<le> a" "0 \<le> b"
  shows "near u (j + k) (a / c) (b / d)"
proof -
  have *: "(1 - u) ^ (j + k) * (a / c) \<le> b / d"
    if "(1 - u) ^ j * a \<le> b" "(1 - u) ^ k * d \<le> c" "0 < c" "0 < d" "0 \<le> a" for a b c d
  proof -
    have "((1 - u) ^ j * a) * ((1 - u) ^ k * d) \<le> b * c"
      using that factor_pos by (intro mult_mono) (auto intro: order_trans [rotated])
    then show ?thesis using that by (simp add: field_simps power_add)
  qed
  show ?thesis using assms * [of a b d c] * [of b a c d] unfolding near_def by blast
qed

lemma near_round: "tiny \<le> x \<Longrightarrow> near u 1 x (r x)"
proof -
  assume x: "tiny \<le> x"
  then have "\<bar>r x - x\<bar> \<le> x * u" "0 < x" using rel_error tiny_pos by auto
  then have "x - x * u \<le> r x" "r x \<le> x + x * u" by (simp_all add: abs_le_iff)
  moreover have "(1 - u) * (x + x * u) \<le> x"
    using \<open>0 < x\<close> unit by (simp add: algebra_simps)
  moreover have "(1 - u) * r x \<le> (1 - u) * (x + x * u)"
    using unit calculation(2) by (intro mult_left_mono) auto
  ultimately show ?thesis by (simp add: near_def algebra_simps)
qed

lemma near_round_step: "near u k x y \<Longrightarrow> tiny \<le> y \<Longrightarrow> near u (k + 1) x (r y)"
  by (rule near_trans [OF _ near_round])

lemma near_scale_round:
  "near u k x y \<Longrightarrow> 0 \<le> c \<Longrightarrow> tiny \<le> y * c \<Longrightarrow> near u (Suc k) (x * c) (r (y * c))"
  using near_round_step [OF near_mult, of k x y c] by simp

lemma near_divide_round:
  "near u j a b \<Longrightarrow> near u k c d \<Longrightarrow> 0 < c \<Longrightarrow> 0 < d \<Longrightarrow> 0 \<le> a \<Longrightarrow> 0 \<le> b \<Longrightarrow> tiny \<le> b / d
     \<Longrightarrow> near u (Suc (j + k)) (a / c) (r (b / d))"
  using near_round_step [OF near_divide, of j a b k c d] by simp

lemma nonneg: "0 \<le> x \<Longrightarrow> 0 \<le> r x"
  using mono [of 0 x] zero by simp

end

definition unit_roundoff :: rat where
  "unit_roundoff = pow2 (- 53)"

definition min_normal :: rat where
  "min_normal = pow2 (- 1022)"

interpretation b64: rounding rval unit_roundoff min_normal
proof
  show "0 < unit_roundoff" "unit_roundoff < 1" "0 < min_normal"
    using pow2_less_iff [of "- 53" 0] by (simp_all add: unit_roundoff_def min_normal_def)
  show "x \<le> y \<Longrightarrow> rval x \<le> rval y" for x y by (rule rval_mono)
  show "rval 0 = 0" by (rule rval_0)
  show "min_normal \<le> x \<Longrightarrow> \<bar>rval x - x\<bar> \<le> x * unit_roundoff" for x
    unfolding min_normal_def unit_roundoff_def by (rule rval_rel_error)
qed

lemma min_normal_le: "pow2 (- 64) \<le> x \<Longrightarrow> min_normal \<le> x"
  unfolding min_normal_def by (rule order_trans [OF pow2_mono [of _ "- 64"]]) simp_all

lemma min_normal_le_1: "1 \<le> x \<Longrightarrow> min_normal \<le> x"
  unfolding min_normal_def by (rule order_trans [OF pow2_mono [of _ 0]]) simp_all

end
