(* ===== verification/Wire.thy ===== *)
theory Wire
  imports Netutil F64
begin

text \<open>
  The records of \<open>src/src/proto.rs\<close>: the assignment that tells a server its own identity and the
  peers to send to, and the metric window it reports. The messages around them are in theory
  Proto.
\<close>

record target =
  tgt_name :: string
  tgt_id :: u32
  tgt_addr :: string

record assignment =
  self_name :: string
  self_id :: u32
  asg_bind :: string
  targets :: "target list"

record peer_metrics =
  pm_peer :: string
  pm_bytes_sent :: u64
  pm_bytes_recv :: u64
  pm_packets_sent :: u64
  pm_packets_recv :: u64
  pm_packets_dropped :: u64

record metric_window =
  mw_server :: string
  mw_wall_start_ns :: u64
  mw_wall_end_ns :: u64
  mw_duration_ns :: u64
  mw_bytes_sent :: u64
  mw_bytes_recv :: u64
  mw_send_bps :: f64
  mw_recv_bps :: f64
  mw_packets_sent :: u64
  mw_packets_recv :: u64
  mw_packets_dropped :: u64
  mw_cpu_pct :: f64
  mw_memory_bytes :: u64
  mw_peers :: "peer_metrics list"

end
