(* ===== verification/Metrics.thy ===== *)
theory Metrics
  imports Wire
begin

text \<open>
  \<open>src/src/metrics.rs\<close>: the traffic counters and their snapshots, the rates computed from them,
  and the window record of one interval. The atomic counters are plain fields here; every
  \<open>fetch_add\<close> is one update, and interleavings of updates are sequences of these.
\<close>

section \<open>Counters and snapshots\<close>

record atom_stats =
  as_bytes_sent :: u64
  as_bytes_recv :: u64
  as_packets_sent :: u64
  as_packets_recv :: u64
  as_packets_dropped :: u64

definition atom_stats_default :: atom_stats where
  "atom_stats_default =
     \<lparr>as_bytes_sent = 0, as_bytes_recv = 0, as_packets_sent = 0, as_packets_recv = 0, as_packets_dropped = 0\<rparr>"

record snap =
  bytes_sent :: u64
  bytes_recv :: u64
  packets_sent :: u64
  packets_recv :: u64
  packets_dropped :: u64

definition snapshot :: "atom_stats \<Rightarrow> snap" where
  "snapshot s =
     \<lparr>bytes_sent = as_bytes_sent s, bytes_recv = as_bytes_recv s, packets_sent = as_packets_sent s,
      packets_recv = as_packets_recv s, packets_dropped = as_packets_dropped s\<rparr>"

text \<open>\<open>fetch_add\<close> wraps around.\<close>

definition add_sent :: "u64 \<Rightarrow> u64 \<Rightarrow> atom_stats \<Rightarrow> atom_stats" where
  "add_sent bytes packets s =
     (let s = (if 0 < bytes then s\<lparr>as_bytes_sent := as_bytes_sent s + bytes\<rparr> else s)
      in if 0 < packets then s\<lparr>as_packets_sent := as_packets_sent s + packets\<rparr> else s)"

definition add_recv :: "u64 \<Rightarrow> u64 \<Rightarrow> atom_stats \<Rightarrow> atom_stats" where
  "add_recv bytes packets s =
     (let s = (if 0 < bytes then s\<lparr>as_bytes_recv := as_bytes_recv s + bytes\<rparr> else s)
      in if 0 < packets then s\<lparr>as_packets_recv := as_packets_recv s + packets\<rparr> else s)"

definition add_drop :: "u64 \<Rightarrow> atom_stats \<Rightarrow> atom_stats" where
  "add_drop n s = (if 0 < n then s\<lparr>as_packets_dropped := as_packets_dropped s + n\<rparr> else s)"

definition delta :: "snap \<Rightarrow> snap \<Rightarrow> snap" where
  "delta self later =
     \<lparr>bytes_sent = saturating_sub (bytes_sent later) (bytes_sent self),
      bytes_recv = saturating_sub (bytes_recv later) (bytes_recv self),
      packets_sent = saturating_sub (packets_sent later) (packets_sent self),
      packets_recv = saturating_sub (packets_recv later) (packets_recv self),
      packets_dropped = saturating_sub (packets_dropped later) (packets_dropped self)\<rparr>"

record counters =
  cnt_total :: atom_stats
  cnt_peers :: "atom_stats list"
  cnt_names :: "string list"

definition counters_new :: "string list \<Rightarrow> counters" where
  "counters_new hostlist =
     \<lparr>cnt_total = atom_stats_default, cnt_peers = map (\<lambda>_. atom_stats_default) hostlist,
      cnt_names = hostlist\<rparr>"

text \<open>\<open>counters.peer(id)\<close> hands out a shared reference to the peer's counters, or nothing; here it
  gives the index that later updates go through.\<close>

definition counters_peer :: "u32 \<Rightarrow> counters \<Rightarrow> nat option" where
  "counters_peer pid c = (if unat pid < length (cnt_peers c) then Some (unat pid) else None)"

definition on_total :: "(atom_stats \<Rightarrow> atom_stats) \<Rightarrow> counters \<Rightarrow> counters" where
  "on_total f c = c\<lparr>cnt_total := f (cnt_total c)\<rparr>"

definition on_peer :: "nat option \<Rightarrow> (atom_stats \<Rightarrow> atom_stats) \<Rightarrow> counters \<Rightarrow> counters" where
  "on_peer peer f c =
     (case peer of None \<Rightarrow> c | Some i \<Rightarrow> c\<lparr>cnt_peers := (cnt_peers c)[i := f (cnt_peers c ! i)]\<rparr>)"

definition snapshot_all :: "counters \<Rightarrow> snap \<times> snap list" where
  "snapshot_all c = (snapshot (cnt_total c), map snapshot (cnt_peers c))"

section \<open>Process samples\<close>

record proc_sample =
  utime_ticks :: u64
  stime_ticks :: u64
  rss_bytes :: u64

text \<open>\<open>str::get(i..)\<close>: nothing beyond the end or inside a UTF-8 sequence.\<close>

definition str_get_from :: "nat \<Rightarrow> string \<Rightarrow> string option" where
  "str_get_from i s =
     (if length s < i then None
      else if i < length s \<and> of_char (s ! i) \<in> {128..191 :: nat} then None
      else Some (drop i s))"

definition parse_stat_cpu :: "string \<Rightarrow> (u64 \<times> u64) option" where
  "parse_stat_cpu stat =
     Option.bind (rsplit_once (CHR '')'') stat) (\<lambda>(before, _).
     Option.bind (str_get_from (length before + 2) stat) (\<lambda>rest.
       let fields = drop 11 (split_whitespace rest) in
       case fields of
         u # s # _ \<Rightarrow>
           Option.bind (parse_u64 u) (\<lambda>utime.
           map_option (\<lambda>stime. (utime, stime)) (parse_u64 s))
       | _ \<Rightarrow> None))"

text \<open>\<open>sysconf\<close> results, with the defaults for a failed call.\<close>

definition clk_tck :: "int \<Rightarrow> int" where
  "clk_tck sysconf = (if 0 < sysconf then sysconf else 100)"

definition page_size :: "int \<Rightarrow> int" where
  "page_size sysconf = (if 0 < sysconf then sysconf else 4096)"

text \<open>The two files are \<open>None\<close> where reading fails.\<close>

definition sample_proc :: "string option \<Rightarrow> string option \<Rightarrow> int \<Rightarrow> proc_sample option" where
  "sample_proc stat_file statm_file sysconf =
     Option.bind stat_file (\<lambda>stat.
     Option.bind (parse_stat_cpu stat) (\<lambda>(utime, stime).
     Option.bind statm_file (\<lambda>statm.
       let words = split_whitespace statm;
           rss_pages = (if 1 < length words
                        then (case parse_u64 (words ! 1) of Some n \<Rightarrow> n | None \<Rightarrow> 0) else 0)
       in Some \<lparr>utime_ticks = utime, stime_ticks = stime,
                rss_bytes = saturating_mul rss_pages (of_int (page_size sysconf))\<rparr>)))"

text \<open>The clocks, from the result of their \<open>clock_gettime\<close>: \<open>None\<close> for a failed call, else seconds and
  nanoseconds (\<open>as u64\<close>).\<close>

definition realtime_ns :: "(int \<times> int) option \<Rightarrow> u64" where
  "realtime_ns ts =
     (case ts of
        None \<Rightarrow> 0
      | Some (tv_sec, tv_nsec) \<Rightarrow> saturating_add (saturating_mul (of_int tv_sec) 1000000000) (of_int tv_nsec))"

definition monotonic_ns :: "(int \<times> int) option \<Rightarrow> u64" where
  "monotonic_ns ts =
     (case ts of
        None \<Rightarrow> 0
      | Some (tv_sec, tv_nsec) \<Rightarrow> saturating_add (saturating_mul (of_int tv_sec) 1000000000) (of_int tv_nsec))"

section \<open>Rates\<close>

definition cpu_pct :: "int \<Rightarrow> proc_sample \<Rightarrow> proc_sample \<Rightarrow> u64 \<Rightarrow> f64" where
  "cpu_pct sysconf before after duration_ns =
     (if duration_ns = 0 then Fin 0
      else
        let dticks = saturating_add (saturating_sub (utime_ticks after) (utime_ticks before))
              (saturating_sub (stime_ticks after) (stime_ticks before));
            cpu_ns = saturating_mul dticks (1000000000 div of_int (clk_tck sysconf))
        in fmul (fdiv (f64_of_u64 cpu_ns) (f64_of_u64 duration_ns)) (Fin 100))"

definition bps :: "u64 \<Rightarrow> u64 \<Rightarrow> f64" where
  "bps bytes duration_ns =
     (if duration_ns = 0 then Fin 0
      else fdiv (fmul (fmul (f64_of_u64 bytes) (Fin 8)) (Fin 1000000000)) (f64_of_u64 duration_ns))"

section \<open>Windows\<close>

definition snap_active :: "snap \<Rightarrow> bool" where
  "snap_active s =
     (0 < bytes_sent s \<or> 0 < bytes_recv s \<or> 0 < packets_sent s \<or> 0 < packets_recv s \<or> 0 < packets_dropped s)"

definition peer_entry :: "string \<times> snap \<Rightarrow> peer_metrics" where
  "peer_entry p =
     (case p of (name, s) \<Rightarrow>
        \<lparr>pm_peer = name, pm_bytes_sent = bytes_sent s, pm_bytes_recv = bytes_recv s,
         pm_packets_sent = packets_sent s, pm_packets_recv = packets_recv s,
         pm_packets_dropped = packets_dropped s\<rparr>)"

definition build_window ::
  "string \<Rightarrow> u64 \<Rightarrow> u64 \<Rightarrow> u64 \<Rightarrow> snap \<Rightarrow> snap list \<Rightarrow> string list \<Rightarrow> f64 \<Rightarrow> u64 \<Rightarrow> metric_window" where
  "build_window server wall_start_ns wall_end_ns duration_ns tot peer_snaps names cpu memory_bytes =
     \<lparr>mw_server = server, mw_wall_start_ns = wall_start_ns, mw_wall_end_ns = wall_end_ns,
      mw_duration_ns = duration_ns, mw_bytes_sent = bytes_sent tot, mw_bytes_recv = bytes_recv tot,
      mw_send_bps = bps (bytes_sent tot) duration_ns, mw_recv_bps = bps (bytes_recv tot) duration_ns,
      mw_packets_sent = packets_sent tot, mw_packets_recv = packets_recv tot,
      mw_packets_dropped = packets_dropped tot, mw_cpu_pct = cpu, mw_memory_bytes = memory_bytes,
      mw_peers = map peer_entry (filter (\<lambda>(_, s). snap_active s) (zip names peer_snaps))\<rparr>"

section \<open>Facts about the clocks\<close>

text \<open>A later time of the clock reads no less; the reading is exact for the 584 years that 64 bits of
  nanoseconds hold.\<close>

definition timespec_ok :: "int \<times> int \<Rightarrow> bool" where
  "timespec_ok ts \<longleftrightarrow> 0 \<le> fst ts \<and> fst ts < 2 ^ 63 \<and> 0 \<le> snd ts \<and> snd ts < 1000000000"

lemma uint_monotonic_ns:
  assumes "timespec_ok ts"
  shows "uint (monotonic_ns (Some ts)) = min (fst ts * 1000000000 + snd ts) (2 ^ 64 - 1)"
proof -
  have "uint (of_int (fst ts) :: u64) = fst ts" "uint (of_int (snd ts) :: u64) = snd ts"
    using assms by (simp_all add: timespec_ok_def uint_word_of_int)
  then show ?thesis using assms
    by (auto simp: monotonic_ns_def timespec_ok_def sat_simps split: prod.splits)
qed

lemma monotonic_ns_mono:
  assumes "timespec_ok a" "timespec_ok b" "fst a < fst b \<or> fst a = fst b \<and> snd a \<le> snd b"
  shows "monotonic_ns (Some a) \<le> monotonic_ns (Some b)"
proof -
  have "fst a * 1000000000 + snd a \<le> fst b * 1000000000 + snd b"
    using assms by (auto simp: timespec_ok_def)
  then show ?thesis by (simp add: word_le_def uint_monotonic_ns assms min_def) 
qed

section \<open>Facts about snapshots\<close>

text \<open>The five counters, and the order of two snapshots of counters that only grow.\<close>

definition snap_counters :: "(snap \<Rightarrow> u64) set" where
  "snap_counters = {bytes_sent, bytes_recv, packets_sent, packets_recv, packets_dropped}"

definition snap_le :: "snap \<Rightarrow> snap \<Rightarrow> bool" where
  "snap_le s t \<longleftrightarrow> (\<forall>f\<in>snap_counters. f s \<le> f t)"

lemma delta_counter: "f \<in> snap_counters \<Longrightarrow> f (delta s t) = saturating_sub (f t) (f s)"
  by (auto simp: snap_counters_def delta_def)

lemma unat_delta: "f \<in> snap_counters \<Longrightarrow> unat (f (delta s t)) = unat (f t) - unat (f s)"
  by (simp add: delta_counter unat_saturating_sub)

fun deltas :: "snap list \<Rightarrow> snap list" where
  "deltas (s # t # ss) = delta s t # deltas (t # ss)"
| "deltas _ = []"

text \<open>Consecutive deltas of growing counters add up to the whole growth: nothing is lost or
  counted twice at the window borders.\<close>

lemma deltas_telescope:
  assumes "f \<in> snap_counters" "sorted_wrt snap_le (s # ss)"
  shows "sum_list (map (unat \<circ> f) (deltas (s # ss))) + unat (f s) = unat (f (last (s # ss)))"
  using assms(2)
proof (induction ss arbitrary: s)
  case Nil
  then show ?case by simp
next
  case (Cons t ss)
  then have "f s \<le> f t" using assms(1) by (simp add: snap_le_def)
  then have "unat (f (delta s t)) + unat (f s) = unat (f t)"
    by (simp add: unat_delta [OF assms(1)] word_le_nat_alt)
  moreover have "sorted_wrt snap_le (t # ss)" using Cons.prems by simp
  from Cons.IH [OF this]
  have "sum_list (map (unat \<circ> f) (deltas (t # ss))) + unat (f t) = unat (f (last (t # ss)))" .
  ultimately show ?case by (simp add: comp_def)
qed

section \<open>Facts about rates\<close>

lemma u64_real_bounds: "(0 :: rat) \<le> of_int (uint (w :: u64))" "of_int (uint (w :: u64)) \<le> pow2 64"
proof -
  have "uint w \<le> 2 ^ 64" using uint_lt2p [of w] by simp
  then have "rat_of_int (uint w) \<le> of_int (2 ^ 64)" by (simp only: of_int_le_iff)
  then show "of_int (uint w) \<le> pow2 64" by simp
  show "(0 :: rat) \<le> of_int (uint w)" by (simp only: of_int_0_le_iff uint_ge_0)
qed

lemma f64_of_u64_Fin: "f64_of_u64 w = Fin (rval (of_int (uint w)))"
  unfolding f64_of_u64_def
  by (rule rnd_finite) (use u64_real_bounds [of w] pow2_mono [of 64 1023] in \<open>auto intro: order_trans\<close>)

lemma rval_u64_bound: "rval (of_int (uint (w :: u64))) \<le> pow2 64"
  by (rule rval_bounded) (use u64_real_bounds in auto)

lemma rval_ge_1: "1 \<le> x \<Longrightarrow> 1 \<le> rval x"
  using rval_mono [of 1 x] rval_nat [of 1] by simp

lemma uint_pos_rat: "w \<noteq> 0 \<Longrightarrow> (1 :: rat) \<le> of_int (uint (w :: u64))"
proof -
  assume "w \<noteq> 0"
  then have "uint w \<noteq> 0" by (simp add: uint_0_iff)
  then have "1 \<le> uint w" using uint_ge_0 [of w] by linarith
  then show ?thesis by (simp only: of_int_1_le_iff)
qed

text \<open>The value of a rate: the bit count times \<open>10^9\<close> over the duration, rounded after every
  operation; never infinite and never NaN.\<close>

definition rate_value :: "rat \<Rightarrow> rat \<Rightarrow> rat" where
  "rate_value b d = rval (rval (rval (rval b * 8) * 1000000000) / rval d)"

lemma rate_numerator_bound: "0 \<le> b \<Longrightarrow> b \<le> pow2 64 \<Longrightarrow> rval (rval (rval b * 8) * 1000000000) \<le> pow2 97"
proof -
  assume "0 \<le> b" "b \<le> pow2 64"
  then have "rval b * 8 \<le> pow2 64 * 8" by (intro mult_right_mono rval_bounded) auto
  then have "rval (rval b * 8) \<le> pow2 67" by (intro rval_bounded) simp_all
  then have "rval (rval b * 8) * 1000000000 \<le> pow2 67 * pow2 30" by (intro mult_mono) simp_all
  then show ?thesis by (intro rval_bounded) simp_all
qed

lemma rate_numerator:
  "fmul (fmul (f64_of_u64 b) (Fin 8)) (Fin 1000000000) = Fin (rval (rval (rval (of_int (uint b)) * 8) * 1000000000))"
proof -
  let ?b = "of_int (uint b) :: rat"
  have b: "0 \<le> ?b" "?b \<le> pow2 64" by (rule u64_real_bounds)+
  have "rval ?b * 8 \<le> pow2 67" using rval_u64_bound [of b] by simp
  then have B: "rval ?b * 8 \<le> pow2 1023" using pow2_mono [of 67 1023] by simp
  have "rval (rval ?b * 8) * 1000000000 \<le> pow2 67 * pow2 30"
    using \<open>rval ?b * 8 \<le> pow2 67\<close> by (intro mult_mono rval_bounded) simp_all
  then have C: "rval (rval ?b * 8) * 1000000000 \<le> pow2 1023" using pow2_mono [of 97 1023] by simp
  show ?thesis using rnd_finite [OF _ B] rnd_finite [OF _ C] b by (simp add: f64_of_u64_Fin)
qed

lemma rate_quotient:
  assumes "0 \<le> b" "b \<le> pow2 64" "1 \<le> q"
  shows "fdiv (Fin (rval (rval (rval b * 8) * 1000000000))) (Fin q) = Fin (rval (rval (rval (rval b * 8) * 1000000000) / q))"
proof -
  let ?n = "rval (rval (rval b * 8) * 1000000000)"
  have "0 \<le> ?n" using assms(1) by (intro b64.nonneg mult_nonneg_nonneg) simp_all
  have "?n / q \<le> ?n / 1" using assms(3) \<open>0 \<le> ?n\<close> by (intro divide_left_mono) auto
  also have "\<dots> \<le> pow2 97" using rate_numerator_bound [OF assms(1,2)] by simp
  also have "\<dots> \<le> pow2 1023" by (rule pow2_mono) simp
  finally have D: "?n / q \<le> pow2 1023" .
  show ?thesis using rnd_finite [OF _ D] assms(3) \<open>0 \<le> ?n\<close> by simp
qed

lemma bps_value:
  assumes "d \<noteq> 0"
  shows "bps b d = Fin (rate_value (of_int (uint b)) (of_int (uint d)))"
proof -
  have "1 \<le> rval (of_int (uint d))" using uint_pos_rat [OF assms] by (rule rval_ge_1)
  from rate_quotient [OF u64_real_bounds this, of b] show ?thesis
    using assms by (simp only: bps_def rate_numerator f64_of_u64_Fin [of d] rate_value_def if_False)
qed

lemma bps_finite: obtains x where "bps b d = Fin x" "0 \<le> x"
proof (cases "d = 0")
  case True
  then show thesis by (intro that [of 0]) (simp_all add: bps_def)
next
  case False
  have "0 \<le> rate_value (of_int (uint b)) (of_int (uint d))"
    unfolding rate_value_def by (intro b64.nonneg divide_nonneg_nonneg mult_nonneg_nonneg u64_real_bounds(1)) simp_all
  then show thesis using bps_value [OF False, of b] that by blast
qed

text \<open>No number of a window is NaN.\<close>

lemma bps_not_NaN: "bps b d \<noteq> NaN"
  using bps_finite [of b d] by (metis f64.distinct(5))

lemma fdiv_u64_not_NaN: "d \<noteq> 0 \<Longrightarrow> fdiv (f64_of_u64 a) (f64_of_u64 d) \<noteq> NaN"
proof -
  assume "d \<noteq> 0"
  then have "rval (of_int (uint d)) \<noteq> 0" using rval_ge_1 [OF uint_pos_rat] by (metis not_one_le_zero)
  then show ?thesis unfolding f64_of_u64_Fin by simp
qed

lemma fmul_100_not_NaN: "a \<noteq> NaN \<Longrightarrow> fmul a (Fin 100) \<noteq> NaN"
  by (cases a) (simp_all add: inf_of_sign_def)

lemma cpu_pct_not_NaN: "cpu_pct sysconf a b d \<noteq> NaN"
  unfolding cpu_pct_def Let_def using fdiv_u64_not_NaN fmul_100_not_NaN by simp

lemma rate_value_mono:
  assumes "0 \<le> b" "b \<le> b'" "1 \<le> d'" "d' \<le> d"
  shows "rate_value b d \<le> rate_value b' d'"
proof -
  have "rval (rval (rval b * 8) * 1000000000) \<le> rval (rval (rval b' * 8) * 1000000000)"
    using assms by (intro rval_mono mult_right_mono) auto
  moreover have "rval d' \<le> rval d" "1 \<le> rval d'" using assms by (auto intro: rval_mono rval_ge_1)
  ultimately show ?thesis unfolding rate_value_def by (intro rval_mono [of "_ / _"] frac_le) auto
qed

lemma rate_value_near:
  assumes "0 \<le> b" "b = 0 \<or> 1 \<le> b" "1 \<le> d" "d \<le> pow2 128"
  shows "near unit_roundoff 5 (b * 8 * 1000000000 / d) (rate_value b d)"
proof (cases "b = 0")
  case True
  then show ?thesis by (simp add: rate_value_def near_def)
next
  case False
  then have b: "1 \<le> b" using assms by simp
  have B: "1 \<le> rval b * 8" using rval_ge_1 [OF b] by simp
  have C: "1 \<le> rval (rval b * 8) * 1000000000" using rval_ge_1 [OF B] by simp
  have D: "1 \<le> rval (rval (rval b * 8) * 1000000000)" using rval_ge_1 [OF C] .
  have E: "1 \<le> rval d" "rval d \<le> pow2 128" using assms rval_ge_1 rval_bounded [of d 128] by simp_all
  have q: "min_normal \<le> rval (rval (rval b * 8) * 1000000000) / rval d"
  proof (rule order_trans)
    show "min_normal \<le> pow2 (- 128)" unfolding min_normal_def by (rule pow2_mono) simp
    have "pow2 (- 128) = 1 / pow2 128" by (rule power_int_minus_divide)
    also have "\<dots> \<le> rval (rval (rval b * 8) * 1000000000) / rval d"
      using D E by (intro frac_le) auto
    finally show "pow2 (- 128) \<le> rval (rval (rval b * 8) * 1000000000) / rval d" .
  qed
  have "near unit_roundoff 1 b (rval b)" "near unit_roundoff 1 d (rval d)"
    by (intro b64.near_round min_normal_le_1 b assms(3))+
  then have "near unit_roundoff (Suc (Suc (Suc 1) + 1)) (b * 8 * 1000000000 / d) (rate_value b d)"
    unfolding rate_value_def
    using b assms(3) B C D E q
    by (intro b64.near_divide_round b64.near_scale_round) (auto intro: min_normal_le_1)
  moreover have "Suc (Suc (Suc 1) + 1) = 5" by simp
  ultimately show ?thesis by (simp only:)
qed

section \<open>Reading /proc/self/stat\<close>

text \<open>A byte that no white space character starts with, and tokens made of such bytes.\<close>

definition plain :: "string \<Rightarrow> bool" where
  "plain t \<longleftrightarrow> t \<noteq> [] \<and> (\<forall>c\<in>set t. c \<notin> hd ` set white_space)"

lemma plain_no_ws: "c \<notin> hd ` set white_space \<Longrightarrow> w \<in> set white_space \<Longrightarrow> \<not> prefix w (c # s)"
proof
  assume a: "c \<notin> hd ` set white_space" "w \<in> set white_space" "prefix w (c # s)"
  then have "hd w = c" using white_space_nonempty [of w] by (cases w) auto
  then show False using a by blast
qed

lemma find_ws_plain: "c \<notin> hd ` set white_space \<Longrightarrow> find (\<lambda>w. prefix w (c # s)) white_space = None"
  using plain_no_ws by (auto simp: find_None_iff)

lemma drop_leading_plain: "plain t \<Longrightarrow> drop_leading white_space (t @ s) = t @ s"
  by (cases t) (auto simp: plain_def dest: plain_no_ws intro!: drop_leading_id)

lemma space_is_ws: "'' '' \<in> set white_space"
  by (simp add: white_space_def char_of_def)

lemma find_space: "find (\<lambda>w. prefix w (CHR '' '' # s)) white_space = Some '' ''"
proof -
  have hd_space: "\<forall>w\<in>set white_space. hd w = CHR '' '' \<longrightarrow> w = '' ''"
  proof -
    have "list_all (\<lambda>w. hd w = CHR '' '' \<longrightarrow> w = '' '') white_space" by code_simp
    then show ?thesis by (simp add: list_all_iff)
  qed
  obtain w where w: "find (\<lambda>w. prefix w (CHR '' '' # s)) white_space = Some w"
    using space_is_ws
    by (cases "find (\<lambda>w. prefix w (CHR '' '' # s)) white_space") (auto simp: find_None_iff)
  then have "w \<in> set white_space" "prefix w (CHR '' '' # s)" by (auto dest: find_SomeD)
  moreover have "hd v = CHR '' ''" if "prefix v (CHR '' '' # s)" "v \<noteq> []" for v
    using that by (cases v) auto
  ultimately have "w = '' ''" using hd_space white_space_nonempty by blast
  with w show ?thesis by simp
qed

lemma drop_leading_space: "drop_leading white_space (CHR '' '' # s) = drop_leading white_space s"
proof -
  have "find (\<lambda>w. w \<noteq> [] \<and> prefix w (CHR '' '' # s)) white_space = find (\<lambda>w. prefix w (CHR '' '' # s)) white_space"
    by (rule find_cong) (auto dest: white_space_nonempty)
  then show ?thesis by (subst drop_leading.simps) (simp add: find_space)
qed

lemma take_token_plain:
  "\<forall>c\<in>set t. c \<notin> hd ` set white_space \<Longrightarrow> rest = [] \<or> hd rest = CHR '' '' \<Longrightarrow> take_token (t @ rest) = (t, rest)"
proof (induction t)
  case Nil
  then show ?case by (cases rest) (auto simp: find_space)
next
  case (Cons c t)
  then show ?case using find_ws_plain [of c "t @ rest"] by simp
qed

lemma split_whitespace_Nil [simp]: "split_whitespace [] = []"
  by (subst split_whitespace.simps) (simp add: drop_leading_id white_space_nonempty)

lemma split_whitespace_space: "split_whitespace (CHR '' '' # s) = split_whitespace s"
  by (subst (1 2) split_whitespace.simps) (simp add: drop_leading_space)

lemma split_whitespace_token:
  "plain t \<Longrightarrow> rest = [] \<or> hd rest = CHR '' '' \<Longrightarrow> split_whitespace (t @ rest) = t # split_whitespace rest"
  using drop_leading_plain [of t rest] take_token_plain [of t rest]
  by (subst split_whitespace.simps) (simp add: plain_def)

lemma split_whitespace_join:
  "\<forall>t\<in>set ts. plain t \<Longrightarrow> split_whitespace (join_with '' '' ts) = ts"
proof (induction ts)
  case (Cons t ts)
  then show ?case
    using split_whitespace_token [of t "[]"]
    by (cases ts) (auto simp: split_whitespace_token split_whitespace_space)
qed simp

lemma rsplit_once_absent:
  "c \<notin> set b \<Longrightarrow> rsplit_once c (a @ c # b) = Some (a, b)"
  by (simp add: rsplit_once_eq_Some)

lemma in_join_with: "c \<in> set (join_with d ts) \<Longrightarrow> c \<in> set d \<or> (\<exists>t\<in>set ts. c \<in> set t)"
  by (induction d ts rule: join_with.induct) auto

lemma parse_stat_cpu_fields:
  assumes "\<forall>t\<in>set fs. plain t \<and> CHR '')'' \<notin> set t" "13 \<le> length fs"
    and "of_char (hd (hd fs)) \<notin> {128..191 :: nat}"
  shows "parse_stat_cpu (before @ '') '' @ join_with '' '' fs) =
    Option.bind (parse_u64 (fs ! 11)) (\<lambda>u. map_option (Pair u) (parse_u64 (fs ! 12)))"
proof -
  let ?r = "join_with '' '' fs"
  have "CHR '')'' \<notin> set (CHR '' '' # ?r)" using assms(1) in_join_with [of "CHR '')''" "'' ''" fs] by auto
  then have split: "rsplit_once (CHR '')'') (before @ '') '' @ ?r) = Some (before, CHR '' '' # ?r)"
    using rsplit_once_absent [of "CHR '')''" "CHR '' '' # ?r" before] by simp
  obtain f fs' where fs: "fs = f # fs'" using assms(2) by (cases fs) auto
  then have "plain f" using assms(1) by simp
  then have "?r \<noteq> []" "hd ?r = hd (hd fs)" using fs by (cases fs'; auto simp: plain_def)+
  then have get: "str_get_from (length before + 2) (before @ '') '' @ ?r) = Some ?r"
    using assms(3) by (simp add: str_get_from_def nth_append hd_conv_nth)
  have "drop 11 fs = fs ! 11 # fs ! 12 # drop 13 fs"
    using assms(2) by (simp add: Cons_nth_drop_Suc eval_nat_numeral)
  then show ?thesis
    using assms(1) split get by (simp add: parse_stat_cpu_def split_whitespace_join)
qed

section \<open>Properties\<close>

text \<open>C25: a rate over a non-empty interval is a finite number whose quotient with the exact value
  \<open>bytes * 8 * 10^9 / duration_ns\<close> is within five factors \<open>1 - 2^(-53)\<close> of 1: five roundings, and no
  overflow for any pair of 64-bit arguments.\<close>

theorem bps_accurate:
  assumes "d \<noteq> 0"
  shows "\<exists>x. bps b d = Fin x
    \<and> near unit_roundoff 5 (of_int (uint b) * 8 * 1000000000 / of_int (uint d)) x"
proof -
  have "of_int (uint b) = (0 :: rat) \<or> 1 \<le> (of_int (uint b) :: rat)"
    using uint_pos_rat [of b] by (cases "b = 0") (simp_all only: unsigned_0 of_int_0 simp_thms)
  from rate_value_near [OF u64_real_bounds(1) this uint_pos_rat [OF assms] order_trans [OF u64_real_bounds(2) pow2_mono]]
  show ?thesis using bps_value [OF assms, of b] by simp
qed

theorem bps_accurate_witness:
  "\<exists>x. bps 125000000 1000000001 = Fin x
    \<and> near unit_roundoff 5 (of_int (uint (125000000 :: u64)) * 8 * 1000000000 / of_int (uint (1000000001 :: u64))) x"
  by (rule bps_accurate) simp

text \<open>Rates are monotone: more bytes in no more time never give a smaller rate, in spite of the
  roundings.\<close>

theorem bps_monotone:
  assumes "b \<le> b'" "d' \<le> d" "d' \<noteq> 0"
  shows "fle (bps b d) (bps b' d')"
proof -
  have "d \<noteq> 0" using assms(2,3) by auto
  have "rate_value (of_int (uint b)) (of_int (uint d)) \<le> rate_value (of_int (uint b')) (of_int (uint d'))"
    using assms uint_pos_rat [OF assms(3)]
    by (intro rate_value_mono) (simp_all only: word_le_def of_int_le_iff u64_real_bounds)
  then show ?thesis by (simp only: bps_value [OF \<open>d \<noteq> 0\<close>] bps_value [OF assms(3)] fle_Fin)
qed

theorem bps_monotone_witness: "fle (bps 10 3) (bps 11 2)"
  by (rule bps_monotone) simp_all

text \<open>The CPU times are read from the right fields of \<open>/proc/self/stat\<close> whatever the process
  name is: the text before the last closing parenthesis is arbitrary, so a name with spaces or
  parentheses does not shift the fields.\<close>

theorem stat_cpu_robust:
  assumes "\<forall>t\<in>set fs. plain t \<and> CHR '')'' \<notin> set t" "13 \<le> length fs"
    and "of_char (hd (hd fs)) \<notin> {128..191 :: nat}"
  shows "parse_stat_cpu (before @ '') '' @ join_with '' '' fs) =
    Option.bind (parse_u64 (fs ! 11)) (\<lambda>u. map_option (Pair u) (parse_u64 (fs ! 12)))"
  using assms by (rule parse_stat_cpu_fields)

theorem stat_cpu_robust_witness:
  "parse_stat_cpu (''7 (a) b'' @ '') '' @ join_with '' ''
      [''S'', ''1'', ''1'', ''1'', ''0'', ''-1'', ''0'', ''0'', ''0'', ''0'', ''0'', ''10'', ''20'']) =
    Option.bind (parse_u64 ''10'') (\<lambda>u. map_option (Pair u) (parse_u64 ''20''))"
proof -
  let ?fs = "[''S'', ''1'', ''1'', ''1'', ''0'', ''-1'', ''0'', ''0'', ''0'', ''0'', ''0'', ''10'', ''20'']"
  have "list_all (\<lambda>t. t \<noteq> [] \<and> list_all (\<lambda>c. \<not> list_ex (\<lambda>w. hd w = c) white_space) t \<and> CHR '')'' \<notin> set t) ?fs"
    by code_simp
  then have "\<forall>t\<in>set ?fs. plain t \<and> CHR '')'' \<notin> set t"
    unfolding plain_def list_all_iff list_ex_iff image_iff by metis
  then show ?thesis using stat_cpu_robust [of ?fs "''7 (a) b''"] by simp
qed

text \<open>A window lists exactly the peers with some traffic, in host order, each with its own
  counters; idle peers are left out.\<close>

theorem window_lists_active_peers:
  assumes "length names = length snaps"
  shows "mw_peers (build_window server ws we d tot snaps names cpu mem) =
    map (\<lambda>i. peer_entry (names ! i, snaps ! i)) (filter (\<lambda>i. snap_active (snaps ! i)) [0..<length names])"
proof -
  have "zip names snaps = map (\<lambda>i. (names ! i, snaps ! i)) [0..<length names]"
    using assms by (intro nth_equalityI) auto
  then show ?thesis by (simp add: build_window_def filter_map comp_def)
qed

theorem window_lists_active_peers_witness:
  "mw_peers (build_window ''a'' 0 1 1 (snapshot atom_stats_default)
      [snapshot atom_stats_default, snapshot (add_sent 5 1 atom_stats_default)] [''b'', ''c''] (Fin 0) 0) =
    map (\<lambda>i. peer_entry ([''b'', ''c''] ! i,
        [snapshot atom_stats_default, snapshot (add_sent 5 1 atom_stats_default)] ! i))
      (filter (\<lambda>i. snap_active ([snapshot atom_stats_default, snapshot (add_sent 5 1 atom_stats_default)] ! i))
        [0..<length [''b'', ''c'']])"
  by (rule window_lists_active_peers) simp

end
