(* ===== verification/Sampler.thy ===== *)
theory Sampler
  imports Metrics
begin

text \<open>
  The metrics task of \<open>src/src/server.rs\<close>: \<open>metrics_loop\<close>, \<open>wait_until_mono\<close> and \<open>emit_window\<close>. What the
  task reads of its environment (clocks, counters, process figures, the cancellation token) is given
  as values in the order it reads them; the windows it hands to the control connection are its result.
\<close>

section \<open>Waiting for the next mark\<close>

definition WINDOW_NS :: u64 where "WINDOW_NS = 1000000000"
definition WINDOW_SPIN_NS :: u64 where "WINDOW_SPIN_NS = 200000"

text \<open>One turn of a waiting loop: the clock reading, whether the token is found cancelled after it, and
  whether the sleep that may follow is interrupted by the token.\<close>

record tick =
  tk_now :: u64
  tk_cancelled :: bool
  tk_interrupted :: bool

text \<open>The result and the turns not taken; \<open>None\<close> while the loop is still waiting at the end of the turns.\<close>

fun spin_until :: "u64 \<Rightarrow> tick list \<Rightarrow> (bool \<times> tick list) option" where
  "spin_until deadline [] = None"
| "spin_until deadline (t # ts) =
     (if \<not> tk_now t < deadline then Some (True, ts)
      else if tk_cancelled t then Some (False, ts)
      else spin_until deadline ts)"

fun wait_until_mono :: "u64 \<Rightarrow> tick list \<Rightarrow> (bool \<times> tick list) option" where
  "wait_until_mono deadline [] = None"
| "wait_until_mono deadline (t # ts) =
     (if deadline \<le> tk_now t then Some (True, ts)
      else if tk_cancelled t then Some (False, ts)
      else if WINDOW_SPIN_NS < deadline - tk_now t then
        (if tk_interrupted t then Some (False, ts) else wait_until_mono deadline ts)
      else spin_until deadline ts)"

section \<open>Windows\<close>

text \<open>What is read for one window: both clocks, the values of the counters, the process figures
  (\<open>None\<close> where they cannot be read) and the token after the window.\<close>

record reading =
  rd_mono :: u64
  rd_wall :: u64
  rd_counters :: counters
  rd_proc :: "proc_sample option"
  rd_cancelled :: bool

record sampler =
  sm_server :: string
  sm_origin :: u64
  sm_window_i :: u64
  sm_prev_total :: snap
  sm_prev_peers :: "snap list"
  sm_prev_proc :: "proc_sample option"
  sm_mono_start :: u64
  sm_wall_start :: u64
  sm_done :: bool

definition emit_window :: "int \<Rightarrow> reading \<Rightarrow> sampler \<Rightarrow> metric_window \<times> sampler" where
  "emit_window sysconf r m =
     (let mono_end = rd_mono r;
          wall_end = rd_wall r;
          duration_ns = max (saturating_sub mono_end (sm_mono_start m)) 1;
          (tot, peers) = snapshot_all (rd_counters r);
          delta_tot = delta (sm_prev_total m) tot;
          delta_peers = map2 delta (sm_prev_peers m) peers;
          cpu = (case (sm_prev_proc m, rd_proc r) of (Some a, Some b) \<Rightarrow> cpu_pct sysconf a b duration_ns | _ \<Rightarrow> Fin 0);
          mem = (case rd_proc r of Some p \<Rightarrow> rss_bytes p | None \<Rightarrow> 0);
          window = build_window (sm_server m) (sm_wall_start m) wall_end duration_ns delta_tot delta_peers
            (cnt_names (rd_counters r)) cpu mem
      in (window,
          m\<lparr>sm_prev_total := tot, sm_prev_peers := peers, sm_prev_proc := rd_proc r, sm_mono_start := mono_end,
            sm_wall_start := wall_end\<rparr>))"

section \<open>The loop\<close>

text \<open>Before the first window.\<close>

definition sampler_new :: "string \<Rightarrow> reading \<Rightarrow> sampler" where
  "sampler_new server r =
     (let (prev_total, prev_peers) = snapshot_all (rd_counters r); origin = rd_mono r in
      \<lparr>sm_server = server, sm_origin = origin, sm_window_i = 1, sm_prev_total = prev_total, sm_prev_peers = prev_peers,
       sm_prev_proc = rd_proc r, sm_mono_start = origin, sm_wall_start = rd_wall r, sm_done = False\<rparr>)"

definition next_mark :: "sampler \<Rightarrow> u64" where
  "next_mark m = saturating_add (sm_origin m) (saturating_mul (sm_window_i m) WINDOW_NS)"

text \<open>One turn of the loop, with the window it emits: \<open>None\<close> when it is still waiting or has returned.\<close>

definition sampler_turn :: "int \<Rightarrow> tick list \<times> reading \<Rightarrow> sampler \<Rightarrow> (metric_window option \<times> sampler) option" where
  "sampler_turn sysconf turn m =
     (if sm_done m then None
      else case wait_until_mono (next_mark m) (fst turn) of
        None \<Rightarrow> None
      | Some (False, _) \<Rightarrow> Some (None, m\<lparr>sm_done := True\<rparr>)
      | Some (True, _) \<Rightarrow>
          (case emit_window sysconf (snd turn) m of (window, m) \<Rightarrow>
             let m = m\<lparr>sm_window_i := saturating_add (sm_window_i m) 1\<rparr> in
             Some (Some window, if rd_cancelled (snd turn) then m\<lparr>sm_done := True\<rparr> else m)))"

fun metrics_loop :: "int \<Rightarrow> (tick list \<times> reading) list \<Rightarrow> sampler \<Rightarrow> metric_window list \<times> sampler" where
  "metrics_loop sysconf [] m = ([], m)"
| "metrics_loop sysconf (turn # turns) m =
     (case sampler_turn sysconf turn m of
        None \<Rightarrow> ([], m)
      | Some (None, m) \<Rightarrow> ([], m)
      | Some (Some window, m) \<Rightarrow> (case metrics_loop sysconf turns m of (ws, m) \<Rightarrow> (window # ws, m)))"

section \<open>Facts about waiting\<close>

lemma spin_result:
  "spin_until d ts = Some (True, rest) \<Longrightarrow> \<exists>t\<in>set ts. d \<le> tk_now t"
  "spin_until d ts = Some (False, rest) \<Longrightarrow> \<exists>t\<in>set ts. tk_cancelled t"
  by (induction ts) (auto simp: not_less split: if_splits)

lemma wait_result:
  "wait_until_mono d ts = Some (True, rest) \<Longrightarrow> \<exists>t\<in>set ts. d \<le> tk_now t"
  "wait_until_mono d ts = Some (False, rest) \<Longrightarrow> \<exists>t\<in>set ts. tk_cancelled t \<or> tk_interrupted t"
  by (induction ts) (auto split: if_splits dest: spin_result)

lemma spin_returns: "\<exists>t\<in>set ts. d \<le> tk_now t \<Longrightarrow> \<exists>b rest. spin_until d ts = Some (b, rest)"
  by (induction ts) (auto simp: not_less)

lemma wait_returns: "\<exists>t\<in>set ts. d \<le> tk_now t \<Longrightarrow> \<exists>b rest. wait_until_mono d ts = Some (b, rest)"
proof (induction ts)
  case (Cons t ts)
  then show ?case using spin_returns [of ts d] by auto
qed simp

section \<open>Facts about windows\<close>

definition window_total :: "metric_window \<Rightarrow> snap" where
  "window_total w =
     \<lparr>bytes_sent = mw_bytes_sent w, bytes_recv = mw_bytes_recv w, packets_sent = mw_packets_sent w,
      packets_recv = mw_packets_recv w, packets_dropped = mw_packets_dropped w\<rparr>"

definition total_read :: "tick list \<times> reading \<Rightarrow> snap" where
  "total_read turn = snapshot (cnt_total (rd_counters (snd turn)))"

lemma sampler_turn_window:
  assumes "sampler_turn sysconf turn m = Some (Some w, m')"
  shows "\<exists>rest. wait_until_mono (next_mark m) (fst turn) = Some (True, rest)"
    "window_total w = delta (sm_prev_total m) (total_read turn)"
    "sm_prev_total m' = total_read turn"
    "mw_duration_ns w = max (saturating_sub (rd_mono (snd turn)) (sm_mono_start m)) 1"
    "mw_server w = sm_server m" "sm_server m' = sm_server m" "sm_origin m' = sm_origin m"
    "mw_wall_start_ns w = sm_wall_start m" "mw_wall_end_ns w = rd_wall (snd turn)"
    "sm_wall_start m' = rd_wall (snd turn)" "sm_mono_start m' = rd_mono (snd turn)"
    "sm_window_i m' = saturating_add (sm_window_i m) 1"
  using assms
  by (auto simp: sampler_turn_def emit_window_def Let_def snapshot_all_def window_total_def build_window_def delta_def
      total_read_def split: if_splits option.splits bool.splits)

lemma sampler_turn_numbers:
  assumes "sampler_turn sysconf turn m = Some (Some w, m')"
  shows "NaN \<notin> {mw_send_bps w, mw_recv_bps w, mw_cpu_pct w}"
proof -
  have "w = fst (emit_window sysconf (snd turn) m)"
    using assms by (auto simp: sampler_turn_def Let_def split: if_splits option.splits bool.splits prod.splits)
  then show ?thesis
    using bps_not_NaN cpu_pct_not_NaN [symmetric]
    by (simp add: emit_window_def snapshot_all_def Let_def build_window_def split: option.split) metis
qed

lemma sampler_turn_end:
  assumes "sampler_turn sysconf turn m = Some (None, m')"
  shows "m' = m\<lparr>sm_done := True\<rparr>" "\<exists>t\<in>set (fst turn). tk_cancelled t \<or> tk_interrupted t"
  using assms
  by (auto simp: sampler_turn_def Let_def split: if_splits option.splits bool.splits prod.splits dest!: wait_result(2))

lemmas metrics_turn_splits = option.splits prod.splits

lemma metrics_loop_totals:
  assumes "metrics_loop sysconf turns m = (ws, m')"
  shows "map window_total ws = deltas (sm_prev_total m # map total_read (take (length ws) turns))
    \<and> sm_prev_total m' = last (sm_prev_total m # map total_read (take (length ws) turns))"
  using assms
proof (induction turns arbitrary: m ws)
  case (Cons turn turns)
  show ?case
  proof (cases "\<exists>w m1. sampler_turn sysconf turn m = Some (Some w, m1)")
    case True
    then obtain w m1 where t: "sampler_turn sysconf turn m = Some (Some w, m1)" by blast
    then obtain ws1 where "metrics_loop sysconf turns m1 = (ws1, m')" "ws = w # ws1"
      using Cons.prems by (auto split: prod.splits)
    then show ?thesis using Cons.IH sampler_turn_window [OF t] by simp
  next
    case False
    then show ?thesis using Cons.prems by (auto split: option.splits prod.splits dest: sampler_turn_end(1))
  qed
qed simp

text \<open>What a window says of itself, and that it starts where the one before it ended.\<close>

definition window_describes :: "string \<Rightarrow> string list \<Rightarrow> metric_window \<Rightarrow> bool" where
  "window_describes server hosts w \<longleftrightarrow>
     mw_server w = server \<and> subseq (map pm_peer (mw_peers w)) hosts
   \<and> mw_send_bps w = bps (mw_bytes_sent w) (mw_duration_ns w) \<and> mw_recv_bps w = bps (mw_bytes_recv w) (mw_duration_ns w)
   \<and> 1 \<le> mw_duration_ns w"

lemma subseq_filter_zip: "subseq (map fst (filter P (zip xs ys))) xs"
  by (induction xs ys rule: list_induct2') auto

lemma sampler_turn_describes:
  assumes "sampler_turn sysconf turn m = Some (Some w, m')"
  shows "window_describes (sm_server m) (cnt_names (rd_counters (snd turn))) w"
proof -
  have w: "w = fst (emit_window sysconf (snd turn) m)"
    using assms by (auto simp: sampler_turn_def Let_def split: if_splits option.splits bool.splits prod.splits)
  have "pm_peer \<circ> peer_entry = fst" by (auto simp: peer_entry_def fun_eq_iff)
  then show ?thesis
    using subseq_filter_zip by (simp add: w emit_window_def snapshot_all_def Let_def build_window_def window_describes_def)
qed

lemma metrics_loop_chain:
  assumes "metrics_loop sysconf turns m = (ws, m')" "\<forall>turn\<in>set turns. cnt_names (rd_counters (snd turn)) = hosts"
  shows "(\<forall>w\<in>set ws. window_describes (sm_server m) hosts w)
    \<and> map mw_wall_start_ns ws = take (length ws) (sm_wall_start m # map mw_wall_end_ns ws)"
  using assms
proof (induction turns arbitrary: m ws)
  case (Cons turn turns)
  show ?case
  proof (cases "\<exists>w m1. sampler_turn sysconf turn m = Some (Some w, m1)")
    case True
    then obtain w m1 where t: "sampler_turn sysconf turn m = Some (Some w, m1)" by blast
    then obtain ws1 where "metrics_loop sysconf turns m1 = (ws1, m')" "ws = w # ws1"
      using Cons.prems by (auto split: prod.splits)
    then show ?thesis
      using Cons.IH [of m1 ws1] Cons.prems(2) sampler_turn_window [OF t] sampler_turn_describes [OF t] by simp
  next
    case False
    then show ?thesis using Cons.prems by (auto split: option.splits prod.splits)
  qed
qed simp

text \<open>The marks: with no overflow in sight, a window is emitted only when its mark has passed.\<close>

lemma unat_next_mark:
  assumes "sm_window_i m = of_nat i" "unat (sm_origin m) + i * 1000000000 < 2 ^ 64"
  shows "unat (next_mark m) = unat (sm_origin m) + i * 1000000000"
proof -
  have "unat (of_nat i :: u64) = i" using assms(2) by (intro unat_of_nat_small) simp
  then show ?thesis
    using assms by (simp add: next_mark_def WINDOW_NS_def unat_saturating_add unat_saturating_mul)
qed

definition turn_timely :: "tick list \<times> reading \<Rightarrow> bool" where
  "turn_timely turn \<longleftrightarrow> (\<forall>t\<in>set (fst turn). tk_now t \<le> rd_mono (snd turn))"

lemma metrics_loop_marks:
  assumes "metrics_loop sysconf turns m = (ws, m')" "\<forall>turn\<in>set turns. turn_timely turn"
    "sm_window_i m = of_nat (Suc i)" "unat (sm_origin m) + (Suc i + length turns) * 1000000000 < 2 ^ 64"
    "unat (sm_origin m) + i * 1000000000 \<le> unat (sm_mono_start m)" "k \<le> length ws"
  shows "unat (sm_origin m) + (i + k) * 1000000000
    \<le> unat (sm_mono_start m) + sum_list (map (unat \<circ> mw_duration_ns) (take k ws))"
  using assms
proof (induction turns arbitrary: m ws i k)
  case (Cons turn turns)
  show ?case
  proof (cases "\<exists>w m1. sampler_turn sysconf turn m = Some (Some w, m1)")
    case True
    then obtain w m1 where t: "sampler_turn sysconf turn m = Some (Some w, m1)" by blast
    then obtain ws1 where ws1: "metrics_loop sysconf turns m1 = (ws1, m')" "ws = w # ws1"
      using Cons.prems(1) by (auto split: prod.splits)
    note tw = sampler_turn_window [OF t]
    have mark: "unat (next_mark m) = unat (sm_origin m) + Suc i * 1000000000"
      using Cons.prems(3,4) by (intro unat_next_mark) simp_all
    obtain t0 where "t0 \<in> set (fst turn)" "next_mark m \<le> tk_now t0" using tw(1) wait_result(1) by blast
    then have "next_mark m \<le> rd_mono (snd turn)" using Cons.prems(2) by (fastforce simp: turn_timely_def)
    then have end_ge: "unat (sm_origin m) + Suc i * 1000000000 \<le> unat (sm_mono_start m1)"
      using mark tw(11) by (simp add: word_le_nat_alt)
    have dur: "unat (sm_mono_start m1) \<le> unat (sm_mono_start m) + unat (mw_duration_ns w)"
      using tw(4,11) by (simp add: max_def word_le_nat_alt unat_saturating_sub split: if_splits)
    have i1: "sm_window_i m1 = of_nat (Suc (Suc i))"
    proof -
      have "unat (of_nat (Suc i) :: u64) = Suc i" using Cons.prems(4) by (intro unat_of_nat_small) simp
      moreover have "unat (of_nat (Suc (Suc i)) :: u64) = Suc (Suc i)" using Cons.prems(4) by (intro unat_of_nat_small) simp
      moreover have "Suc (Suc i) < 2 ^ 64" using Cons.prems(4) by simp
      ultimately have "unat (sm_window_i m1) = unat (of_nat (Suc (Suc i)) :: u64)"
        unfolding tw(12) Cons.prems(3) unat_saturating_add by simp
      then show ?thesis by (simp only: word_unat_eq_iff)
    qed
    show ?thesis
    proof (cases k)
      case (Suc k1)
      have "unat (sm_origin m1) + (Suc i + k1) * 1000000000
          \<le> unat (sm_mono_start m1) + sum_list (map (unat \<circ> mw_duration_ns) (take k1 ws1))"
        using Cons.prems i1 end_ge tw(7) Suc ws1(2) by (intro Cons.IH [OF ws1(1)]) simp_all
      then show ?thesis using dur tw(7) Suc ws1(2) by (simp add: comp_def)
    qed (use Cons.prems in simp)
  next
    case False
    then have "ws = []" using Cons.prems(1) by (auto split: option.splits prod.splits)
    then show ?thesis using Cons.prems by simp
  qed
qed simp

text \<open>A sample run: two senders' bytes, read late by 0.9 s after the first mark and on time after the second;
  then a stop half way to the third mark.\<close>

definition sample_reading :: "u64 \<Rightarrow> u64 \<Rightarrow> reading" where
  "sample_reading now bytes =
     \<lparr>rd_mono = now, rd_wall = now, rd_counters = on_total (add_sent bytes 0) (counters_new [''a'', ''b'']),
      rd_proc = None, rd_cancelled = False\<rparr>"

definition sample_tick :: "u64 \<Rightarrow> bool \<Rightarrow> tick" where
  "sample_tick now stop = \<lparr>tk_now = now, tk_cancelled = stop, tk_interrupted = False\<rparr>"

definition sample_turns :: "(tick list \<times> reading) list" where
  "sample_turns =
     [([sample_tick 5 False, sample_tick 1900000000 False], sample_reading 1900000000 400),
      ([sample_tick 1900000001 False, sample_tick 1999900000 False, sample_tick 2000000000 False], sample_reading 2000000000 1000),
      ([sample_tick 2500000000 True], sample_reading 2500000000 1500)]"

lemmas sample_defs = sample_turns_def sample_tick_def sample_reading_def counters_new_def on_total_def add_sent_def
  atom_stats_default_def

lemma sample_windows:
  "map (\<lambda>w. (mw_bytes_sent w, mw_duration_ns w)) (fst (metrics_loop 100 sample_turns (sampler_new ''a'' (sample_reading 0 100))))
    = [(300, 1900000000), (600, 100000000)]"
  by (simp add: sample_defs sampler_turn_def emit_window_def next_mark_def WINDOW_NS_def WINDOW_SPIN_NS_def
      saturating_add_def saturating_mul_def saturating_sub_def sampler_new_def snapshot_all_def snapshot_def delta_def
      build_window_def max_def) code_simp

lemma sample_run:
  obtains ws m' where "metrics_loop 100 sample_turns (sampler_new ''a'' (sample_reading 0 100)) = (ws, m')" "length ws = 2"
proof -
  have "length (fst (metrics_loop 100 sample_turns (sampler_new ''a'' (sample_reading 0 100)))) = 2"
    using arg_cong [OF sample_windows, of length] by (simp only: length_map) simp
  with that show ?thesis by (metis surjective_pairing)
qed

section \<open>Properties\<close>

text \<open>C5: the windows of a test account for all of its traffic up to the last one: of each of the five
  counters, the windows together report exactly the growth between the first reading and the last.\<close>

theorem windows_account_for_traffic:
  assumes "metrics_loop sysconf turns (sampler_new server r0) = (ws, m')"
    "sorted_wrt snap_le (snapshot (cnt_total (rd_counters r0)) # map total_read turns)" "f \<in> snap_counters"
  shows "sum_list (map (unat \<circ> f \<circ> window_total) ws) + unat (f (snapshot (cnt_total (rd_counters r0))))
    = unat (f (sm_prev_total m'))"
proof -
  let ?s = "snapshot (cnt_total (rd_counters r0))" and ?n = "length ws"
  have prev: "sm_prev_total (sampler_new server r0) = ?s"
    by (simp add: sampler_new_def snapshot_all_def Let_def)
  note totals = metrics_loop_totals [OF assms(1), unfolded prev]
  have "sorted_wrt snap_le (?s # map total_read (take ?n turns))"
    using assms(2) sorted_wrt_take [of snap_le "map total_read turns" ?n] by (auto simp: take_map dest: in_set_takeD)
  from deltas_telescope [OF assms(3) this] totals show ?thesis by (metis map_map)
qed

theorem windows_account_for_traffic_witness:
  "\<exists>ws m'. metrics_loop 100 sample_turns (sampler_new ''a'' (sample_reading 0 100)) = (ws, m')
    \<and> sum_list (map (unat \<circ> bytes_sent \<circ> window_total) ws) + 100 = unat (bytes_sent (sm_prev_total m')) \<and> length ws = 2"
proof -
  obtain ws m' where run: "metrics_loop 100 sample_turns (sampler_new ''a'' (sample_reading 0 100)) = (ws, m')" "length ws = 2"
    by (rule sample_run)
  have mono: "sorted_wrt snap_le (snapshot (cnt_total (rd_counters (sample_reading 0 100))) # map total_read sample_turns)"
    by (simp add: snap_le_def snap_counters_def sample_defs total_read_def snapshot_def)
  have "unat (bytes_sent (snapshot (cnt_total (rd_counters (sample_reading 0 100))))) = 100" by code_simp
  with windows_account_for_traffic [OF run(1) mono, of bytes_sent] run show ?thesis
    by (auto simp: snap_counters_def)
qed

text \<open>C16: a window is reported only once its one-second mark has passed: while the clock stays below its
  bound, the first \<open>k\<close> windows cover at least \<open>k\<close> seconds, so no partial interval is ever reported ahead
  of its mark.\<close>

theorem windows_reach_their_marks:
  assumes "metrics_loop sysconf turns (sampler_new server r0) = (ws, m')" "\<forall>turn\<in>set turns. turn_timely turn"
    "unat (rd_mono r0) + (1 + length turns) * 1000000000 < 2 ^ 64" "k \<le> length ws"
  shows "k * 1000000000 \<le> sum_list (map (unat \<circ> mw_duration_ns) (take k ws))"
proof -
  have new: "sm_window_i (sampler_new server r0) = of_nat (Suc 0)" "sm_origin (sampler_new server r0) = rd_mono r0"
      "sm_mono_start (sampler_new server r0) = rd_mono r0"
    by (simp_all add: sampler_new_def snapshot_all_def Let_def)
  have "unat (rd_mono r0) + (0 + k) * 1000000000
      \<le> unat (rd_mono r0) + sum_list (map (unat \<circ> mw_duration_ns) (take k ws))"
    using metrics_loop_marks [OF assms(1,2) new(1), of k] assms(3,4) by (simp add: new(2,3))
  then show ?thesis by simp
qed

theorem windows_reach_their_marks_witness:
  "\<exists>ws m'. metrics_loop 100 sample_turns (sampler_new ''a'' (sample_reading 0 100)) = (ws, m')
    \<and> 2 * 1000000000 \<le> sum_list (map (unat \<circ> mw_duration_ns) (take 2 ws))"
proof -
  obtain ws m' where run: "metrics_loop 100 sample_turns (sampler_new ''a'' (sample_reading 0 100)) = (ws, m')" "length ws = 2"
    by (rule sample_run)
  have "\<forall>turn\<in>set sample_turns. turn_timely turn" unfolding turn_timely_def by code_simp
  moreover have "unat (rd_mono (sample_reading 0 100)) + (1 + length sample_turns) * 1000000000 < 2 ^ 64" by code_simp
  ultimately show ?thesis
    using windows_reach_their_marks [OF run(1), of 2] run by auto
qed

text \<open>The bound is one on the sum: a window that is read late is followed by a short one.\<close>

lemma late_window_shortens_next:
  "map mw_duration_ns (fst (metrics_loop 100 sample_turns (sampler_new ''a'' (sample_reading 0 100)))) = [1900000000, 100000000]"
  using arg_cong [OF sample_windows, of "map snd"] by (simp add: comp_def)

text \<open>The wait for a mark ends: as soon as some reading of the clock has reached the mark the loop has
  returned, with true only if a reading did reach it and with false only if the token was cancelled.\<close>

theorem wait_until_mark:
  assumes "\<exists>t\<in>set ts. mark \<le> tk_now t"
  shows "\<exists>b rest. wait_until_mono mark ts = Some (b, rest)
    \<and> (if b then \<exists>t\<in>set ts. mark \<le> tk_now t else \<exists>t\<in>set ts. tk_cancelled t \<or> tk_interrupted t)"
proof -
  obtain b rest where r: "wait_until_mono mark ts = Some (b, rest)" using wait_returns [OF assms] by blast
  have "if b then \<exists>t\<in>set ts. mark \<le> tk_now t else \<exists>t\<in>set ts. tk_cancelled t \<or> tk_interrupted t"
    using r by (cases b) (simp_all add: wait_result)
  with r show ?thesis by (intro exI conjI)
qed

theorem wait_until_mark_witness:
  "\<exists>b rest. wait_until_mono 1000000000 [sample_tick 5 False, sample_tick 1900000000 False] = Some (b, rest) \<and> b"
proof -
  let ?ts = "[sample_tick 5 False, sample_tick 1900000000 False]"
  have reached: "\<exists>t\<in>set ?ts. 1000000000 \<le> tk_now t" by code_simp
  obtain b rest where "wait_until_mono 1000000000 ?ts = Some (b, rest)"
      "if b then \<exists>t\<in>set ?ts. 1000000000 \<le> tk_now t else \<exists>t\<in>set ?ts. tk_cancelled t \<or> tk_interrupted t"
    using wait_until_mark [OF reached] by (elim exE conjE) (rule that)
  moreover have "\<not> (\<exists>t\<in>set ?ts. tk_cancelled t \<or> tk_interrupted t)" by (simp add: sample_tick_def)
  ultimately have b by (simp only: split: if_splits)
  with \<open>wait_until_mono 1000000000 ?ts = Some (b, rest)\<close> show ?thesis by (intro exI conjI)
qed

end
