(* ===== verification/Tcp.thy ===== *)
theory Tcp
  imports Metrics Net_Addr
begin

text \<open>
  The TCP data plane of \<open>src/src/dataplane.rs\<close>: the loops that accept, read and write streams, as
  steps over what the operating system reports. All connections of a server share its counters; the
  steps of different connections interleave.
\<close>

section \<open>Receiving\<close>

text \<open>One outcome of the \<open>select!\<close> in \<open>tcp_recv_loop\<close>; a read of 0 bytes is the end of the stream.\<close>

datatype read_event = Read_cancelled | Read nat | Read_failed

text \<open>A connection: the counters of the peer its address belongs to, and whether its loop still runs.\<close>

record tcp_conn =
  tc_peer :: "nat option"
  tc_open :: bool

definition tcp_recv_step :: "read_event \<Rightarrow> tcp_conn \<times> counters \<Rightarrow> tcp_conn \<times> counters" where
  "tcp_recv_step e cc =
     (case cc of (conn, c) \<Rightarrow>
      if \<not> tc_open conn then cc
      else case e of
        Read_cancelled \<Rightarrow> (conn\<lparr>tc_open := False\<rparr>, c)
      | Read n \<Rightarrow>
          if n = 0 then (conn\<lparr>tc_open := False\<rparr>, c)
          else (conn, on_peer (tc_peer conn) (add_recv (of_nat n) 0) (on_total (add_recv (of_nat n) 0) c))
      | Read_failed \<Rightarrow> (conn\<lparr>tc_open := False\<rparr>, c))"

section \<open>Accepting\<close>

record tcp_server =
  ts_accepting :: bool
  ts_conns :: "tcp_conn list"
  ts_counters :: counters

text \<open>An accept that succeeds (with the peer's address), fails (and whether the test was cancelled by
  then), is cancelled; or an event of a connection.\<close>

datatype tcp_event = Accepted socket_addr | Accept_failed bool | Accept_cancelled | On_conn nat read_event

definition tcp_step :: "(ip_addr \<Rightarrow> u32 option) \<Rightarrow> tcp_event \<Rightarrow> tcp_server \<Rightarrow> tcp_server" where
  "tcp_step ip_to_id e s =
     (case e of
        Accepted peer \<Rightarrow>
          if ts_accepting s
          then s\<lparr>ts_conns := ts_conns s @
                 [\<lparr>tc_peer = Option.bind (ip_to_id (sock_ip peer)) (\<lambda>i. counters_peer i (ts_counters s)),
                   tc_open = True\<rparr>]\<rparr>
          else s
      | Accept_failed cancelled \<Rightarrow> if ts_accepting s \<and> cancelled then s\<lparr>ts_accepting := False\<rparr> else s
      | Accept_cancelled \<Rightarrow> s\<lparr>ts_accepting := False\<rparr>
      | On_conn i r \<Rightarrow>
          if i < length (ts_conns s)
          then (case tcp_recv_step r (ts_conns s ! i, ts_counters s) of
                  (conn, c) \<Rightarrow> s\<lparr>ts_conns := (ts_conns s)[i := conn], ts_counters := c\<rparr>)
          else s)"

definition tcp_serve :: "(ip_addr \<Rightarrow> u32 option) \<Rightarrow> string list \<Rightarrow> tcp_event list \<Rightarrow> tcp_server" where
  "tcp_serve ip_to_id hostlist es =
     fold (tcp_step ip_to_id) es \<lparr>ts_accepting = True, ts_conns = [], ts_counters = counters_new hostlist\<rparr>"

section \<open>Sending\<close>

text \<open>What one turn of \<open>tcp_send_loop\<close> meets: the test cancelled at the loop head, a write that
  succeeds, or one that fails (and whether the test was cancelled by then).\<close>

datatype write_event = Head_cancelled | Wrote | Write_failed bool

datatype send_end = Running | Ended | Send_error

fun tcp_send_loop :: "nat \<Rightarrow> nat option \<Rightarrow> write_event list \<Rightarrow> counters \<Rightarrow> send_end \<times> counters" where
  "tcp_send_loop len peer [] c = (Running, c)"
| "tcp_send_loop len peer (Head_cancelled # es) c = (Ended, c)"
| "tcp_send_loop len peer (Wrote # es) c =
     tcp_send_loop len peer es
       (on_peer peer (add_sent (of_nat len) 1) (on_total (add_sent (of_nat len) 1) c))"
| "tcp_send_loop len peer (Write_failed cancelled # es) c =
     (if cancelled then (Ended, c)
      else (Send_error, on_peer peer (add_drop 1) (on_total (add_drop 1) c)))"

section \<open>Facts\<close>

text \<open>Read off the events alone: the addresses accepted, in order, while the loop accepts; whether a
  connection has ended; and the address and the number of bytes that an event brings in.\<close>

definition accepts :: "tcp_event \<Rightarrow> bool" where
  "accepts e \<longleftrightarrow> e \<noteq> Accept_cancelled \<and> e \<noteq> Accept_failed True"

definition accepted :: "tcp_event list \<Rightarrow> ip_addr list" where
  "accepted es = concat (map (\<lambda>e. case e of Accepted peer \<Rightarrow> [sock_ip peer] | _ \<Rightarrow> []) (takeWhile accepts es))"

definition conn_over :: "tcp_event list \<Rightarrow> nat \<Rightarrow> bool" where
  "conn_over es j \<longleftrightarrow> (\<exists>m<length es. j < length (accepted (take m es))
     \<and> es ! m \<in> {On_conn j Read_cancelled, On_conn j (Read 0), On_conn j Read_failed})"

definition brings :: "tcp_event list \<Rightarrow> tcp_event \<Rightarrow> (ip_addr \<times> nat) option" where
  "brings before e =
     (case e of
        On_conn j (Read n) \<Rightarrow>
          if j < length (accepted before) \<and> \<not> conn_over before j then Some (accepted before ! j, n) else None
      | _ \<Rightarrow> None)"

definition bytes_from :: "(ip_addr \<Rightarrow> bool) \<Rightarrow> tcp_event list \<Rightarrow> nat" where
  "bytes_from P es =
     (\<Sum>k<length es. case brings (take k es) (es ! k) of Some (ip, n) \<Rightarrow> if P ip then n else 0 | None \<Rightarrow> 0)"

lemma accepted_Nil [simp]: "accepted [] = []"
  by (simp add: accepted_def)

lemma accepted_snoc:
  "accepted (es @ [e]) = accepted es @
     (case e of Accepted peer \<Rightarrow> if \<forall>e\<in>set es. accepts e then [sock_ip peer] else [] | _ \<Rightarrow> [])"
proof (cases "\<forall>e\<in>set es. accepts e")
  case True
  then have "takeWhile accepts es = es" "takeWhile accepts (es @ [e]) = es @ takeWhile accepts [e]" by simp_all
  then have "accepted (es @ [e]) = accepted es @ accepted [e]" by (simp only: accepted_def map_append concat_append)
  moreover have "accepted [e] = (case e of Accepted peer \<Rightarrow> [sock_ip peer] | _ \<Rightarrow> [])"
    by (cases e) (simp_all add: accepted_def accepts_def)
  ultimately show ?thesis using True by (simp split: tcp_event.split)
next
  case False
  then have "takeWhile accepts (es @ [e]) = takeWhile accepts es" by (meson takeWhile_append1)
  then show ?thesis using False by (cases e) (auto simp: accepted_def)
qed

lemma ex_prefix_snoc:
  "(\<exists>m<length (xs @ [x]). P (take m (xs @ [x])) ((xs @ [x]) ! m)) \<longleftrightarrow> (\<exists>m<length xs. P (take m xs) (xs ! m)) \<or> P xs x"
proof -
  have "(\<exists>m<length (xs @ [x]). P (take m (xs @ [x])) ((xs @ [x]) ! m))
      \<longleftrightarrow> (\<exists>m<length xs. P (take m (xs @ [x])) ((xs @ [x]) ! m)) \<or> P xs x"
    by (auto simp: less_Suc_eq)
  also have "(\<exists>m<length xs. P (take m (xs @ [x])) ((xs @ [x]) ! m)) \<longleftrightarrow> (\<exists>m<length xs. P (take m xs) (xs ! m))"
    by (simp add: nth_append cong: conj_cong)
  finally show ?thesis .
qed

lemma conn_over_Nil [simp]: "\<not> conn_over [] j"
  by (simp add: conn_over_def)

lemma conn_over_snoc:
  "conn_over (es @ [e]) j \<longleftrightarrow> conn_over es j
     \<or> j < length (accepted es) \<and> e \<in> {On_conn j Read_cancelled, On_conn j (Read 0), On_conn j Read_failed}"
  unfolding conn_over_def ex_prefix_snoc
    [where P = "\<lambda>b x. j < length (accepted b) \<and> x \<in> {On_conn j Read_cancelled, On_conn j (Read 0), On_conn j Read_failed}"] ..

lemma conn_over_accepted: "conn_over es j \<Longrightarrow> j < length (accepted es)"
  by (induction es rule: rev_induct) (auto simp: conn_over_snoc accepted_snoc split: tcp_event.split)

lemma bytes_from_Nil [simp]: "bytes_from P [] = 0"
  by (simp add: bytes_from_def)

lemma bytes_from_snoc:
  "bytes_from P (es @ [e]) = bytes_from P es
     + (case brings es e of Some (ip, n) \<Rightarrow> if P ip then n else 0 | None \<Rightarrow> 0)"
proof -
  have "(\<Sum>k<length es. case brings (take k (es @ [e])) ((es @ [e]) ! k) of Some (ip, n) \<Rightarrow> if P ip then n else 0 | None \<Rightarrow> 0)
      = bytes_from P es"
    unfolding bytes_from_def by (rule sum.cong) (simp_all add: nth_append)
  then show ?thesis by (simp add: bytes_from_def)
qed

lemma add_recv_stats [simp]:
  "as_bytes_recv (add_recv b p a) = as_bytes_recv a + b"
  by (simp add: add_recv_def Let_def word_gt_0)

lemma on_total_simps [simp]:
  "cnt_total (on_total f c) = f (cnt_total c)" "cnt_peers (on_total f c) = cnt_peers c"
  "cnt_total (on_peer p f c) = cnt_total c" "length (cnt_peers (on_peer p f c)) = length (cnt_peers c)"
  by (auto simp: on_total_def on_peer_def split: option.split)

lemma on_peer_nth [simp]:
  "i < length (cnt_peers c) \<Longrightarrow>
    cnt_peers (on_peer p f c) ! i = (if p = Some i then f (cnt_peers c ! i) else cnt_peers c ! i)"
  by (auto simp: on_peer_def nth_list_update split: option.split)

text \<open>The state after some events, in the terms of the events.\<close>

definition peer_at :: "(ip_addr \<Rightarrow> u32 option) \<Rightarrow> string list \<Rightarrow> ip_addr \<Rightarrow> nat option" where
  "peer_at ip_to_id hosts ip =
     (case ip_to_id ip of Some k \<Rightarrow> if unat k < length hosts then Some (unat k) else None | None \<Rightarrow> None)"

definition tcp_account :: "(ip_addr \<Rightarrow> u32 option) \<Rightarrow> string list \<Rightarrow> tcp_event list \<Rightarrow> tcp_server \<Rightarrow> bool" where
  "tcp_account ip_to_id hosts es s \<longleftrightarrow>
     (ts_accepting s \<longleftrightarrow> (\<forall>e\<in>set es. accepts e))
   \<and> length (ts_conns s) = length (accepted es)
   \<and> (\<forall>j<length (accepted es). ts_conns s ! j = \<lparr>tc_peer = peer_at ip_to_id hosts (accepted es ! j), tc_open = (\<not> conn_over es j)\<rparr>)
   \<and> length (cnt_peers (ts_counters s)) = length hosts
   \<and> as_bytes_recv (cnt_total (ts_counters s)) = of_nat (bytes_from (\<lambda>_. True) es)
   \<and> (\<forall>i<length hosts. as_bytes_recv (cnt_peers (ts_counters s) ! i)
        = of_nat (bytes_from (\<lambda>ip. peer_at ip_to_id hosts ip = Some i) es))"

lemma tcp_account_accept:
  assumes "tcp_account f hosts es s" "\<forall>j r. e \<noteq> On_conn j r"
  shows "tcp_account f hosts (es @ [e]) (tcp_step f e s)"
proof -
  have quiet: "conn_over (es @ [e]) j \<longleftrightarrow> conn_over es j" "bytes_from P (es @ [e]) = bytes_from P es" for j P
    using assms(2) by (auto simp: conn_over_snoc bytes_from_snoc brings_def split: tcp_event.split)
  have new: "\<not> conn_over es (length (accepted es))" using conn_over_accepted by blast
  show ?thesis
    using assms quiet new
    by (cases e) (auto simp: tcp_account_def tcp_step_def accepted_snoc accepts_def nth_append less_Suc_eq peer_at_def
      counters_peer_def split: option.split)
qed

lemma tcp_account_conn:
  assumes "tcp_account f hosts es s"
  shows "tcp_account f hosts (es @ [On_conn j r]) (tcp_step f (On_conn j r) s)"
proof (cases "j < length (accepted es) \<and> \<not> conn_over es j")
  case False
  then have "j < length (ts_conns s) \<Longrightarrow> \<not> tc_open (ts_conns s ! j)" using assms by (auto simp: tcp_account_def)
  then have "tcp_step f (On_conn j r) s = s" by (simp add: tcp_step_def tcp_recv_step_def)
  moreover have "conn_over (es @ [On_conn j r]) k \<longleftrightarrow> conn_over es k" "bytes_from P (es @ [On_conn j r]) = bytes_from P es" for k P
    using False by (auto simp: conn_over_snoc bytes_from_snoc brings_def split: read_event.split)
  ultimately show ?thesis using assms by (simp add: tcp_account_def accepted_snoc accepts_def)
next
  case True
  then have conn: "ts_conns s ! j = \<lparr>tc_peer = peer_at f hosts (accepted es ! j), tc_open = True\<rparr>"
    using assms by (simp add: tcp_account_def)
  show ?thesis
    using assms True conn
    by (cases r) (auto simp: tcp_account_def tcp_step_def tcp_recv_step_def accepted_snoc accepts_def conn_over_snoc
      bytes_from_snoc brings_def nth_list_update)
qed

lemma tcp_serve_account: "tcp_account f hosts es (tcp_serve f hosts es)"
proof (induction es rule: rev_induct)
  case Nil
  show ?case by (simp add: tcp_account_def tcp_serve_def counters_new_def atom_stats_default_def)
next
  case (snoc e es)
  have "tcp_serve f hosts (es @ [e]) = tcp_step f e (tcp_serve f hosts es)" by (simp add: tcp_serve_def)
  with snoc show ?case by (cases e) (simp_all add: tcp_account_accept tcp_account_conn)
qed

lemma add_sent_stats [simp]:
  "as_bytes_sent (add_sent b p a) = as_bytes_sent a + b"
  "as_packets_sent (add_sent b p a) = as_packets_sent a + p"
  "as_packets_dropped (add_sent b p a) = as_packets_dropped a"
  "as_bytes_sent (add_drop g a) = as_bytes_sent a"
  "as_packets_sent (add_drop g a) = as_packets_sent a"
  "as_packets_dropped (add_drop g a) = as_packets_dropped a + g"
  "as_bytes_recv (add_sent b p a) = as_bytes_recv a"
  "as_packets_recv (add_sent b p a) = as_packets_recv a"
  "as_bytes_recv (add_drop g a) = as_bytes_recv a"
  "as_packets_recv (add_drop g a) = as_packets_recv a"
  by (simp_all add: add_sent_def add_drop_def Let_def word_gt_0)

text \<open>What a sender adds to one set of counters: \<open>k\<close> writes and \<open>d\<close> drops.\<close>

definition sent_writes :: "nat \<Rightarrow> nat \<Rightarrow> nat \<Rightarrow> atom_stats \<Rightarrow> atom_stats \<Rightarrow> bool" where
  "sent_writes len k d a b \<longleftrightarrow>
     as_bytes_sent b = as_bytes_sent a + of_nat (k * len) \<and> as_packets_sent b = as_packets_sent a + of_nat k
     \<and> as_packets_dropped b = as_packets_dropped a + of_nat d
     \<and> as_bytes_recv b = as_bytes_recv a \<and> as_packets_recv b = as_packets_recv a"

lemma sent_writes_id [simp]: "sent_writes len 0 0 a a"
  by (simp add: sent_writes_def)

text \<open>The writes before anything else happens, and the drop where that is a failed write.\<close>

definition completed :: "write_event list \<Rightarrow> nat" where
  "completed es = length (takeWhile (\<lambda>e. e = Wrote) es)"

definition stopped_by :: "write_event list \<Rightarrow> write_event option" where
  "stopped_by es = find (\<lambda>e. e \<noteq> Wrote) es"

lemma first_events [simp]:
  "completed [] = 0" "stopped_by [] = None"
  "completed (Wrote # es) = Suc (completed es)" "stopped_by (Wrote # es) = stopped_by es"
  "e \<noteq> Wrote \<Longrightarrow> completed (e # es) = 0" "e \<noteq> Wrote \<Longrightarrow> stopped_by (e # es) = Some e"
  by (auto simp: completed_def stopped_by_def)

lemma tcp_send_loop_end:
  "fst (tcp_send_loop len peer es c) =
     (case stopped_by es of None \<Rightarrow> Running | Some (Write_failed False) \<Rightarrow> Send_error | Some _ \<Rightarrow> Ended)"
  by (induction len peer es c rule: tcp_send_loop.induct) simp_all

lemma sent_writes_Suc: "sent_writes len k d (add_sent (of_nat len) 1 a) b \<Longrightarrow> sent_writes len (Suc k) d a b"
  by (simp add: sent_writes_def algebra_simps)

lemma sent_writes_drop: "sent_writes len 0 (Suc 0) a (add_drop 1 a)"
  by (simp add: sent_writes_def)

definition drops :: "write_event list \<Rightarrow> nat" where
  "drops es = (if stopped_by es = Some (Write_failed False) then 1 else 0)"

lemma tcp_send_loop_total:
  "sent_writes len (completed es) (drops es) (cnt_total c) (cnt_total (snd (tcp_send_loop len peer es c)))"
  by (induction len peer es c rule: tcp_send_loop.induct)
     (simp_all add: drops_def sent_writes_Suc sent_writes_drop)

lemma tcp_send_loop_peers:
  "j < length (cnt_peers c) \<Longrightarrow>
     (if peer = Some j then sent_writes len (completed es) (drops es) (cnt_peers c ! j) (cnt_peers (snd (tcp_send_loop len peer es c)) ! j)
      else cnt_peers (snd (tcp_send_loop len peer es c)) ! j = cnt_peers c ! j)"
  by (induction len peer es c rule: tcp_send_loop.induct)
     (simp_all add: drops_def sent_writes_Suc sent_writes_drop split: if_splits)

section \<open>Properties\<close>

text \<open>C34: a TCP sender counts the payload once per completed write, for the whole test and for its
  peer, and exactly one drop where the first thing that is not a completed write is a write that fails
  before the test is cancelled; it then ends in an error, and without one on cancellation, before a write
  or during it. Nothing is counted as received, and nothing for another peer.\<close>

theorem tcp_sender_counts:
  assumes "es = replicate k Wrote @ rest" "rest = [] \<or> hd rest \<noteq> Wrote"
    and "tcp_send_loop len (Some i) es c = (r, c')" "i < length (cnt_peers c)"
  shows "r = (case rest of [] \<Rightarrow> Running | Write_failed False # _ \<Rightarrow> Send_error | _ \<Rightarrow> Ended)
    \<and> sent_writes len k (case rest of Write_failed False # _ \<Rightarrow> 1 | _ \<Rightarrow> 0) (cnt_total c) (cnt_total c')
    \<and> sent_writes len k (case rest of Write_failed False # _ \<Rightarrow> 1 | _ \<Rightarrow> 0) (cnt_peers c ! i) (cnt_peers c' ! i)
    \<and> (\<forall>j<length (cnt_peers c). j \<noteq> i \<longrightarrow> cnt_peers c' ! j = cnt_peers c ! j)"
proof -
  have "stopped_by rest = (case rest of [] \<Rightarrow> None | e # _ \<Rightarrow> Some e)" "completed rest = 0"
    using assms(2) by (cases rest; simp)+
  then have stop: "stopped_by es = (case rest of [] \<Rightarrow> None | e # _ \<Rightarrow> Some e)" and "completed es = k"
    unfolding assms(1) by (induction k) simp_all
  moreover from stop have "drops es = (case rest of Write_failed False # _ \<Rightarrow> 1 | _ \<Rightarrow> 0)"
    by (auto simp: drops_def split: list.split write_event.split)
  moreover from stop have "r = (case rest of [] \<Rightarrow> Running | Write_failed False # _ \<Rightarrow> Send_error | _ \<Rightarrow> Ended)"
    using tcp_send_loop_end [of len "Some i" es c] assms(3) by (simp split: list.split)
  moreover have "sent_writes len (completed es) (drops es) (cnt_total c) (cnt_total c')"
      "sent_writes len (completed es) (drops es) (cnt_peers c ! i) (cnt_peers c' ! i)"
      "\<forall>j<length (cnt_peers c). j \<noteq> i \<longrightarrow> cnt_peers c' ! j = cnt_peers c ! j"
    using tcp_send_loop_total [of len es c "Some i"] tcp_send_loop_peers [of _ c "Some i" len es] assms(3,4)
    by (force split: if_splits)+
  ultimately show ?thesis by simp
qed

theorem tcp_sender_counts_witness:
  "sent_writes 100 2 1 (cnt_total (counters_new [''a'']))
     (cnt_total (snd (tcp_send_loop 100 (Some 0) [Wrote, Wrote, Write_failed False] (counters_new [''a'']))))
   \<and> sent_writes 100 1 0 (cnt_total (counters_new [''a'']))
     (cnt_total (snd (tcp_send_loop 100 (Some 0) [Wrote, Write_failed True] (counters_new [''a'']))))"
  using tcp_sender_counts [of "[Wrote, Wrote, Write_failed False]" 2 "[Write_failed False]" 100 0 "counters_new [''a'']" _
      "snd (tcp_send_loop 100 (Some 0) [Wrote, Wrote, Write_failed False] (counters_new [''a'']))", OF _ _ prod.collapse [symmetric]]
    tcp_sender_counts [of "[Wrote, Write_failed True]" 1 "[Write_failed True]" 100 0 "counters_new [''a'']" _
      "snd (tcp_send_loop 100 (Some 0) [Wrote, Write_failed True] (counters_new [''a'']))", OF _ _ prod.collapse [symmetric]]
  by (simp add: counters_new_def numeral_2_eq_2)

end
