(* ===== verification/Bytes.thy ===== *)
theory Bytes
  imports Prelude
begin

text \<open>
  Big-endian integers in byte strings: the interface that the control frames and the datagram
  header both use, and its two instances.
\<close>

section \<open>Fixed-width codecs\<close>

locale fixed_codec =
  fixes width :: nat
    and enc :: "'a \<Rightarrow> byte list"
    and dec :: "byte list \<Rightarrow> 'a"
  assumes enc_length: "length (enc x) = width"
    and dec_enc: "dec (enc x) = x"
    and enc_dec: "length bs = width \<Longrightarrow> enc (dec bs) = bs"
begin

lemma enc_inject: "enc x = enc y \<longleftrightarrow> x = y"
  by (metis dec_enc)

lemma take_enc: "take width (enc x @ rest) = enc x"
  by (simp add: enc_length)

lemma drop_enc: "drop width (enc x @ rest) = rest"
  by (simp add: enc_length)

lemma drop_enc_more: "width \<le> n \<Longrightarrow> drop n (enc x @ rest) = drop (n - width) rest"
  by (simp add: enc_length)

lemma dec_prefix: "dec (take width (enc x @ rest)) = x"
  by (simp only: take_enc dec_enc)

lemma enc_append_inject: "enc x @ xs = enc y @ ys \<longleftrightarrow> x = y \<and> xs = ys"
  by (metis drop_enc dec_prefix)

lemma enc_of_slice: "width \<le> length bs \<Longrightarrow> bs = enc (dec (take width bs)) @ drop width bs"
  by (simp add: enc_dec)

end

section \<open>Big-endian numbers\<close>

primrec to_be :: "nat \<Rightarrow> nat \<Rightarrow> byte list" where
  "to_be 0 n = []"
| "to_be (Suc k) n = to_be k (n div 256) @ [of_nat n]"

definition from_be :: "byte list \<Rightarrow> nat" where
  "from_be bs = foldl (\<lambda>acc b. acc * 256 + unat b) 0 bs"

lemma from_be_Nil [simp]: "from_be [] = 0"
  by (simp add: from_be_def)

lemma from_be_snoc [simp]: "from_be (bs @ [b]) = from_be bs * 256 + unat b"
  by (simp add: from_be_def)

lemma length_to_be [simp]: "length (to_be k n) = k"
  by (induction k arbitrary: n) auto

lemma unat_byte_less: "unat (b :: byte) < 256"
  using unsigned_less [of b, where 'a = nat] by simp

lemma unat_of_nat_byte: "unat (of_nat n :: byte) = n mod 256"
  by (simp add: unsigned_of_nat take_bit_eq_mod)

lemma from_be_bound: "from_be bs < 256 ^ length bs"
proof (induction bs rule: rev_induct)
  case (snoc b bs)
  then have "from_be bs * 256 + 256 \<le> 256 ^ length bs * 256" by simp
  then show ?case using unat_byte_less [of b] by simp
qed simp

lemma from_be_to_be: "from_be (to_be k n) = n mod 256 ^ k"
proof (induction k arbitrary: n)
  case (Suc k)
  have "n mod (256 * 256 ^ k) = 256 * (n div 256 mod 256 ^ k) + n mod 256"
    by (rule mod_mult2_eq)
  then show ?case using Suc by (simp add: unat_of_nat_byte)
qed simp

lemma to_be_from_be: "to_be (length bs) (from_be bs) = bs"
proof (induction bs rule: rev_induct)
  case (snoc b bs)
  have "(from_be bs * 256 + unat b) div 256 = from_be bs" using unat_byte_less [of b] by simp
  moreover have "(of_nat (from_be bs * 256 + unat b) :: byte) = b"
  proof (rule word_unat_eq_iff [THEN iffD2])
    show "unat (of_nat (from_be bs * 256 + unat b) :: byte) = unat b"
      using unat_byte_less [of b] by (simp only: unat_of_nat_byte) simp
  qed
  ultimately show ?case using snoc by simp
qed simp

definition to_be_u32 :: "u32 \<Rightarrow> byte list" where "to_be_u32 w = to_be 4 (unat w)"
definition from_be_u32 :: "byte list \<Rightarrow> u32" where "from_be_u32 bs = of_nat (from_be bs)"
definition to_be_u64 :: "u64 \<Rightarrow> byte list" where "to_be_u64 w = to_be 8 (unat w)"
definition from_be_u64 :: "byte list \<Rightarrow> u64" where "from_be_u64 bs = of_nat (from_be bs)"

lemma unat_u32_less: "unat (w :: u32) < 256 ^ 4"
  using unsigned_less [of w, where 'a = nat] by simp

lemma unat_u64_less: "unat (w :: u64) < 256 ^ 8"
  using unsigned_less [of w, where 'a = nat] by simp

interpretation be32: fixed_codec 4 to_be_u32 from_be_u32
proof
  fix bs :: "byte list" assume l: "length bs = 4"
  then have "unat (of_nat (from_be bs) :: u32) = from_be bs"
    using from_be_bound [of bs] by (intro unat_of_nat_small) simp
  then show "to_be_u32 (from_be_u32 bs) = bs"
    using to_be_from_be [of bs] l by (simp add: to_be_u32_def from_be_u32_def)
qed (use unat_u32_less in \<open>simp_all add: to_be_u32_def from_be_u32_def from_be_to_be\<close>)

interpretation be64: fixed_codec 8 to_be_u64 from_be_u64
proof
  fix bs :: "byte list" assume l: "length bs = 8"
  then have "unat (of_nat (from_be bs) :: u64) = from_be bs"
    using from_be_bound [of bs] by (intro unat_of_nat_small) simp
  then show "to_be_u64 (from_be_u64 bs) = bs"
    using to_be_from_be [of bs] l by (simp add: to_be_u64_def from_be_u64_def)
qed (use unat_u64_less in \<open>simp_all add: to_be_u64_def from_be_u64_def from_be_to_be\<close>)

end
