(* ===== verification/Udp.thy ===== *)
theory Udp
  imports Metrics Bytes
begin

text \<open>
  The receiving half of the UDP data plane of \<open>src/src/dataplane.rs\<close>: the datagram header, the
  gap detector \<open>note_seq\<close> that turns sequence numbers into drop counts, and the receive loop as a
  fold over its events.
\<close>

section \<open>Datagrams\<close>

definition UDP_HDR :: nat where "UDP_HDR = 20"
definition UDP_PKT :: nat where "UDP_PKT = 8192"
definition UDP_MAGIC :: u32 where "UDP_MAGIC = 0x54465031"
definition RECV_BUF :: nat where "RECV_BUF = 64 * 1024"

text \<open>\<open>buf[i..i + bs.len()].copy_from_slice(bs)\<close>: panics (\<open>None\<close>) out of range.\<close>

definition copy_into :: "nat \<Rightarrow> 'a list \<Rightarrow> 'a list \<Rightarrow> 'a list option" where
  "copy_into i bs buf =
     (if i + length bs \<le> length buf then Some (take i buf @ bs @ drop (i + length bs) buf) else None)"

definition write_hdr :: "byte list \<Rightarrow> u32 \<Rightarrow> u64 \<Rightarrow> u32 \<Rightarrow> byte list option" where
  "write_hdr buf sender_id seq len =
     Option.bind (copy_into 0 (to_be_u32 UDP_MAGIC) buf) (\<lambda>buf.
     Option.bind (copy_into 4 (to_be_u32 sender_id) buf) (\<lambda>buf.
     Option.bind (copy_into 8 (to_be_u64 seq) buf) (\<lambda>buf.
     copy_into 16 (to_be_u32 len) buf)))"

definition subslice :: "nat \<Rightarrow> nat \<Rightarrow> 'a list \<Rightarrow> 'a list" where
  "subslice i j xs = take (j - i) (drop i xs)"

definition read_hdr :: "byte list \<Rightarrow> (u32 \<times> u64 \<times> u32) option" where
  "read_hdr buf =
     (if length buf < UDP_HDR then None
      else if from_be_u32 (subslice 0 4 buf) \<noteq> UDP_MAGIC then None
      else Some (from_be_u32 (subslice 4 8 buf), from_be_u64 (subslice 8 16 buf), from_be_u32 (subslice 16 20 buf)))"

definition hdr_bytes :: "u32 \<Rightarrow> u64 \<Rightarrow> u32 \<Rightarrow> byte list" where
  "hdr_bytes sender_id seq len =
     to_be_u32 UDP_MAGIC @ to_be_u32 sender_id @ to_be_u64 seq @ to_be_u32 len"

section \<open>Sequence gaps\<close>

text \<open>The slot holds the next expected sequence number; the result is the new slot and the number
  of datagrams found missing.\<close>

definition note_seq :: "u64 option \<Rightarrow> u64 \<Rightarrow> u64 option \<times> u64" where
  "note_seq slot seq =
     (case slot of
        None \<Rightarrow> (Some (saturating_add seq 1), 0)
      | Some nxt \<Rightarrow>
          if seq = nxt then (Some (saturating_add nxt 1), 0)
          else if nxt < seq then (Some (saturating_add seq 1), seq - nxt)
          else (slot, 0))"

section \<open>The receive loop\<close>

type_synonym recv_state = "counters \<times> u64 option list"

definition udp_recv_datagram :: "nat \<Rightarrow> u32 \<Rightarrow> byte list \<Rightarrow> recv_state \<Rightarrow> recv_state" where
  "udp_recv_datagram npeers own_id dgram st =
     (case st of (c, expected) \<Rightarrow>
      case read_hdr dgram of
        None \<Rightarrow> (c, expected)
      | Some (sender_id, seq, plen) \<Rightarrow>
          let payload_bytes = of_nat (length dgram - UDP_HDR) :: u64 in
          if ucast plen \<noteq> payload_bytes then (c, expected)
          else
            let c = on_total (add_recv payload_bytes 1) c in
            if unat sender_id < npeers \<and> sender_id \<noteq> own_id then
              let c = on_peer (counters_peer sender_id c) (add_recv payload_bytes 1) c in
              if unat sender_id < length expected then
                (case note_seq (expected ! unat sender_id) seq of (slot, d) \<Rightarrow>
                   let c = on_total (add_drop d) c;
                       c = on_peer (counters_peer sender_id c) (add_drop d) c
                   in (c, expected[unat sender_id := slot]))
              else (c, expected)
            else (c, expected))"

text \<open>What the \<open>select!\<close> of one iteration delivers; a failed receive also sees whether the test
  was cancelled. The buffer holds 65536 bytes, a longer datagram is cut.\<close>

datatype recv_event = Recv_cancelled | Received "byte list" | Recv_failed bool

fun udp_recv_loop :: "nat \<Rightarrow> u32 \<Rightarrow> recv_event list \<Rightarrow> recv_state \<Rightarrow> recv_state" where
  "udp_recv_loop npeers own_id [] st = st"
| "udp_recv_loop npeers own_id (Recv_cancelled # es) st = st"
| "udp_recv_loop npeers own_id (Received d # es) st =
     udp_recv_loop npeers own_id es (udp_recv_datagram npeers own_id (take 65536 d) st)"
| "udp_recv_loop npeers own_id (Recv_failed cancelled # es) st =
     (if cancelled then st else udp_recv_loop npeers own_id es st)"

definition udp_recv_init :: "string list \<Rightarrow> recv_state" where
  "udp_recv_init hostlist = (counters_new hostlist, map (\<lambda>_. None) hostlist)"

section \<open>Headers\<close>

lemma length_hdr_bytes [simp]: "length (hdr_bytes i s l) = UDP_HDR"
  by (simp add: hdr_bytes_def UDP_HDR_def be32.enc_length be64.enc_length)

lemma copy_into_Some: "i + length bs \<le> length buf \<Longrightarrow> copy_into i bs buf = Some (take i buf @ bs @ drop (i + length bs) buf)"
  by (simp add: copy_into_def)

lemma write_hdr_bytes:
  "UDP_HDR \<le> length buf \<Longrightarrow> write_hdr buf i s l = Some (hdr_bytes i s l @ drop UDP_HDR buf)"
  by (simp add: write_hdr_def copy_into_def hdr_bytes_def UDP_HDR_def be32.enc_length be64.enc_length add.commute)

lemma write_hdr_short: "length buf < UDP_HDR \<Longrightarrow> write_hdr buf i s l = None"
  by (auto simp: write_hdr_def copy_into_def UDP_HDR_def be32.enc_length be64.enc_length split: option.splits bind_splits)

lemma read_hdr_bytes: "read_hdr (hdr_bytes i s l @ rest) = Some (i, s, l)"
  by (simp add: read_hdr_def hdr_bytes_def UDP_HDR_def subslice_def be32.enc_length be64.enc_length
      be32.dec_enc be64.dec_enc)

text \<open>The reader accepts exactly what the writer produces.\<close>

lemma read_hdr_complete:
  assumes "read_hdr buf = Some (i, s, l)"
  shows "buf = hdr_bytes i s l @ drop UDP_HDR buf"
proof -
  have len: "20 \<le> length buf" and magic: "from_be_u32 (subslice 0 4 buf) = UDP_MAGIC"
    and f: "i = from_be_u32 (subslice 4 8 buf)" "s = from_be_u64 (subslice 8 16 buf)" "l = from_be_u32 (subslice 16 20 buf)"
    using assms by (auto simp: read_hdr_def UDP_HDR_def split: if_splits)
  have "hdr_bytes i s l = subslice 0 4 buf @ subslice 4 8 buf @ subslice 8 16 buf @ subslice 16 20 buf"
    using len by (simp add: hdr_bytes_def f flip: magic) (simp add: be32.enc_dec be64.enc_dec subslice_def)
  also have "\<dots> = take (4 + (4 + (8 + 4))) buf"
    unfolding subslice_def by (simp only: take_add drop_drop) simp
  finally show ?thesis by (simp add: UDP_HDR_def)
qed

section \<open>What a gap detector reports\<close>

text \<open>A run of the detector over the numbers that arrive: the final state and every reported
  count.\<close>

fun note_all :: "('s \<Rightarrow> 'x \<Rightarrow> 's \<times> 'd) \<Rightarrow> 's \<Rightarrow> 'x list \<Rightarrow> 's \<times> 'd list" where
  "note_all observe s [] = (s, [])"
| "note_all observe s (x # xs) =
     (case observe s x of (s', d) \<Rightarrow> case note_all observe s' xs of (s'', ds) \<Rightarrow> (s'', d # ds))"

lemma note_all_snoc:
  "note_all observe s (xs @ [x]) =
     (case note_all observe s xs of (s', ds) \<Rightarrow> case observe s' x of (s'', d) \<Rightarrow> (s'', ds @ [d]))"
  by (induction xs arbitrary: s) (auto split: prod.splits)

definition reported :: "('d \<Rightarrow> nat) \<Rightarrow> ('s \<Rightarrow> 'x \<Rightarrow> 's \<times> 'd) \<Rightarrow> 's \<Rightarrow> 'x list \<Rightarrow> nat" where
  "reported cnt observe s xs = sum_list (map cnt (snd (note_all observe s xs)))"

lemma reported_simps [simp]:
  "reported cnt observe s [] = 0"
  "reported cnt observe s (x # xs) =
     cnt (snd (observe s x)) + reported cnt observe (fst (observe s x)) xs"
  by (simp_all add: reported_def split: prod.splits)

text \<open>The number expected after a run, and the numbers that arrive in their turn: not below the one
  expected at that time.\<close>

fun next_after :: "nat \<Rightarrow> nat list \<Rightarrow> nat" where
  "next_after h [] = h"
| "next_after h (n # ns) = next_after (if h \<le> n then Suc n else h) ns"

fun on_time :: "nat \<Rightarrow> nat list \<Rightarrow> nat set" where
  "on_time h [] = {}"
| "on_time h (n # ns) = (if h \<le> n then insert n (on_time (Suc n) ns) else on_time h ns)"

lemma next_after_ge: "h \<le> next_after h ns"
  by (induction h ns rule: next_after.induct) (auto split: if_splits)

lemma next_after_Max: "next_after h ns = Max (insert h (Suc ` set ns))"
proof (induction h ns rule: next_after.induct)
  case (2 h n ns)
  have "Max (insert h (insert (Suc n) (Suc ` set ns))) = max h (Max (insert (Suc n) (Suc ` set ns)))"
    by (rule Max_insert) auto
  also have "\<dots> = Max (insert (if h \<le> n then Suc n else h) (Suc ` set ns))"
    by (cases "set ns = {}") (auto simp: Max_insert)
  finally show ?case using 2 by simp
qed simp

lemma on_time_range: "on_time h ns \<subseteq> {h..<next_after h ns}"
proof (induction h ns rule: on_time.induct)
  case (2 h n ns)
  then show ?case using next_after_ge [of "Suc n" ns] by fastforce
qed simp

lemma on_time_arrived: "on_time h ns \<subseteq> set ns"
  by (induction h ns rule: on_time.induct) auto

lemma on_time_sorted: "sorted ns \<Longrightarrow> on_time h ns = {n \<in> set ns. h \<le> n}"
proof (induction h ns rule: on_time.induct)
  case (2 h n ns)
  then show ?case by (cases "n \<in> set ns") (auto simp: Suc_le_eq order.strict_iff_order)
qed simp

lemma finite_on_time: "finite (on_time h ns)"
  by (rule finite_subset [OF on_time_range]) simp

text \<open>The numbers skipped: those that did not arrive in their turn.\<close>

definition skipped :: "nat \<Rightarrow> nat list \<Rightarrow> nat set" where
  "skipped h ns = {h..<next_after h ns} - on_time h ns"

lemma skipped_missing: "{h..<next_after h ns} - set ns \<subseteq> skipped h ns"
  using on_time_arrived unfolding skipped_def by blast

lemma skipped_sorted: "sorted ns \<Longrightarrow> skipped h ns = {h..<next_after h ns} - set ns"
  by (auto simp: skipped_def on_time_sorted)

lemma card_skipped: "card (skipped h ns) + card (on_time h ns) + h = next_after h ns"
  using next_after_ge [of h ns] card_mono [OF _ on_time_range, of h ns]
  by (simp add: skipped_def card_Diff_subset [OF finite_on_time on_time_range])

lemma card_skipped_Cons:
  "card (skipped h (n # ns)) = (n - h) + card (skipped (if h \<le> n then Suc n else h) ns)"
proof -
  have "n \<notin> on_time (Suc n) ns" using on_time_range [of "Suc n" ns] by auto
  then show ?thesis
    using card_skipped [of h "n # ns"] card_skipped [of "if h \<le> n then Suc n else h" ns]
    by (auto simp: finite_on_time)
qed

text \<open>The interface of a gap detector: numbers below a limit, a state that expects some number
  next, and counts.\<close>

locale gap_detector =
  fixes observe :: "'s \<Rightarrow> 'x \<Rightarrow> 's \<times> 'd"
    and expects :: "'s \<Rightarrow> nat option"
    and num :: "'x \<Rightarrow> nat"
    and cnt :: "'d \<Rightarrow> nat"
    and limit :: nat
  assumes note_first: "expects s = None \<Longrightarrow> num x < limit \<Longrightarrow>
      expects (fst (observe s x)) = Some (Suc (num x)) \<and> cnt (snd (observe s x)) = 0"
    and note_next: "expects s = Some h \<Longrightarrow> num x < limit \<Longrightarrow>
      expects (fst (observe s x)) = Some (if h \<le> num x then Suc (num x) else h) \<and>
      cnt (snd (observe s x)) = num x - h"
begin

theorem reported_skipped:
  assumes "expects s = Some h" "\<forall>x\<in>set xs. num x < limit"
  shows "reported cnt observe s xs = card (skipped h (map num xs))"
  using assms
proof (induction xs arbitrary: s h)
  case Nil
  then show ?case by (simp add: skipped_def)
next
  case (Cons x xs)
  then have x: "expects (fst (observe s x)) = Some (if h \<le> num x then Suc (num x) else h)"
      "cnt (snd (observe s x)) = num x - h"
    using note_next [of s h x] by simp_all
  show ?case using Cons.IH [OF x(1)] Cons.prems x(2) card_skipped_Cons [of h "num x" "map num xs"] by simp
qed

theorem reported_from_start:
  assumes "expects s = None" "\<forall>x\<in>set (x # xs). num x < limit"
  shows "reported cnt observe s (x # xs) = card (skipped (num x) (map num (x # xs)))"
  using note_first [OF assms(1), of x] assms(2) reported_skipped [of "fst (observe s x)" "Suc (num x)" xs]
    card_skipped_Cons [of "num x" "num x" "map num xs"]
  by simp

end

text \<open>The code's detector, below the top sequence number where it saturates.\<close>

lemma unat_suc_u64: "unat s < 2 ^ 64 - 1 \<Longrightarrow> unat (saturating_add s 1 :: u64) = Suc (unat s)"
  by (simp add: unat_saturating_add)

interpretation gaps: gap_detector note_seq "map_option unat" unat unat "2 ^ 64 - 1"
proof
  fix s :: "u64 option" and x :: u64
  assume "map_option unat s = None" "unat x < 2 ^ 64 - 1"
  then show "map_option unat (fst (note_seq s x)) = Some (Suc (unat x)) \<and> unat (snd (note_seq s x)) = 0"
    by (simp add: note_seq_def unat_suc_u64)
next
  fix s :: "u64 option" and h and x :: u64
  assume "map_option unat s = Some h" and x: "unat x < 2 ^ 64 - 1"
  then obtain z where z: "s = Some z" "h = unat z" by auto
  show "map_option unat (fst (note_seq s x)) = Some (if h \<le> unat x then Suc (unat x) else h)
      \<and> unat (snd (note_seq s x)) = unat x - h"
    using x unfolding z
    by (auto simp: note_seq_def unat_suc_u64 word_le_nat_alt word_less_nat_alt unat_sub word_unat_eq_iff
        simp del: map_option_eq_Some)
qed

section \<open>Accounting of the receive loop\<close>

text \<open>A datagram that the loop counts: a valid header whose length field is the payload's.\<close>

definition accepted :: "byte list \<Rightarrow> (u32 \<times> u64 \<times> u32) option" where
  "accepted d =
     (case read_hdr d of
        None \<Rightarrow> None
      | Some (i, s, l) \<Rightarrow> if ucast l = (of_nat (length d - UDP_HDR) :: u64) then Some (i, s, l) else None)"

text \<open>The sequence numbers and lengths a sender's datagrams carry, in order of arrival.\<close>

fun from_sender :: "u32 \<Rightarrow> byte list list \<Rightarrow> (u64 \<times> u32) list" where
  "from_sender i [] = []"
| "from_sender i (d # ds) =
     (case accepted d of
        Some (j, s, l) \<Rightarrow> if j = i then (s, l) # from_sender i ds else from_sender i ds
      | None \<Rightarrow> from_sender i ds)"

lemma udp_recv_datagram_rejected: "accepted d = None \<Longrightarrow> udp_recv_datagram n own d st = st"
  by (auto simp: udp_recv_datagram_def accepted_def Let_def split: option.splits prod.splits if_splits)

lemma udp_recv_datagram_foreign:
  "accepted d = Some (j, s, l) \<Longrightarrow> \<not> (unat j < n \<and> j \<noteq> own) \<Longrightarrow>
    udp_recv_datagram n own d (c, ex) = (on_total (add_recv (ucast l) 1) c, ex)"
  by (auto simp: udp_recv_datagram_def accepted_def Let_def split: option.splits if_splits)

lemma udp_recv_datagram_peer:
  assumes "accepted d = Some (j, s, l)" "unat j < n" "j \<noteq> own" "length (cnt_peers c) = n" "length ex = n"
    and "note_seq (ex ! unat j) s = (slot, g)"
  shows "udp_recv_datagram n own d (c, ex) =
    (c\<lparr>cnt_total := add_drop g (add_recv (ucast l) 1 (cnt_total c)),
       cnt_peers := (cnt_peers c)[unat j := add_drop g (add_recv (ucast l) 1 (cnt_peers c ! unat j))]\<rparr>,
     ex[unat j := slot])"
  using assms
  by (auto simp: udp_recv_datagram_def accepted_def Let_def on_total_def on_peer_def counters_peer_def
      split: option.splits if_splits)

lemma udp_recv_loop_cancelled:
  "\<forall>d\<in>set ds. length d \<le> 65536 \<Longrightarrow>
    udp_recv_loop n own (map Received ds @ Recv_cancelled # es) st = fold (udp_recv_datagram n own) ds st"
  by (induction ds arbitrary: st) auto

lemma stats_recv_drop:
  "as_bytes_recv (add_drop g (add_recv b p a)) = as_bytes_recv a + b"
  "as_packets_recv (add_drop g (add_recv b p a)) = as_packets_recv a + p"
  "as_packets_dropped (add_drop g (add_recv b p a)) = as_packets_dropped a + g"
  "as_bytes_sent (add_drop g (add_recv b p a)) = as_bytes_sent a"
  "as_packets_sent (add_drop g (add_recv b p a)) = as_packets_sent a"
  "as_bytes_recv (add_recv b p a) = as_bytes_recv a + b"
  "as_packets_recv (add_recv b p a) = as_packets_recv a + p"
  "as_packets_dropped (add_recv b p a) = as_packets_dropped a"
  "as_bytes_sent (add_recv b p a) = as_bytes_sent a"
  "as_packets_sent (add_recv b p a) = as_packets_sent a"
  by (simp_all add: add_drop_def add_recv_def Let_def word_gt_0)

text \<open>The counters of a peer after the datagrams of one sender.\<close>

definition received_stats :: "(u64 \<times> u32) list \<Rightarrow> u64 option \<Rightarrow> atom_stats \<Rightarrow> atom_stats" where
  "received_stats ms slot a =
     a\<lparr>as_bytes_recv := as_bytes_recv a + sum_list (map (ucast \<circ> snd) ms),
       as_packets_recv := as_packets_recv a + of_nat (length ms),
       as_packets_dropped := as_packets_dropped a + sum_list (snd (note_all note_seq slot (map fst ms)))\<rparr>"

lemma received_stats_Nil [simp]: "received_stats [] slot a = a"
  by (simp add: received_stats_def)

lemma received_stats_Cons:
  "note_seq slot s = (slot', g) \<Longrightarrow>
    received_stats ((s, l) # ms) slot a = received_stats ms slot' (add_drop g (add_recv (ucast l) 1 a))"
  by (cases a) (simp add: received_stats_def add_drop_def add_recv_def word_gt_0 Let_def
      split: prod.splits)

lemma fold_recv_peer:
  assumes "unat i < n" "i \<noteq> own" "length (cnt_peers c) = n" "length ex = n"
    and "fold (udp_recv_datagram n own) ds (c, ex) = (c', ex')"
  shows "cnt_peers c' ! unat i = received_stats (from_sender i ds) (ex ! unat i) (cnt_peers c ! unat i)
    \<and> ex' ! unat i = fst (note_all note_seq (ex ! unat i) (map fst (from_sender i ds)))"
  using assms(3-5)
proof (induction ds arbitrary: c ex)
  case Nil
  then show ?case by simp
next
  case (Cons d ds)
  show ?case
  proof (cases "accepted d")
    case None
    then show ?thesis using Cons by (simp add: udp_recv_datagram_rejected)
  next
    case (Some m)
    obtain j s l where m: "m = (j, s, l)" by (cases m)
    show ?thesis
    proof (cases "unat j < n \<and> j \<noteq> own")
      case False
      then have "j \<noteq> i" using assms(1,2) by auto
      then show ?thesis
        using Cons.IH [of "on_total (add_recv (ucast l) 1) c" ex] Cons.prems Some m
          udp_recv_datagram_foreign [OF Some [unfolded m] False, of c ex]
        by (simp add: on_total_def)
    next
      case True
      obtain slot g where g: "note_seq (ex ! unat j) s = (slot, g)" by fastforce
      have ne: "j \<noteq> i \<Longrightarrow> unat j \<noteq> unat i" by (simp add: word_unat_eq_iff)
      show ?thesis
        using Cons.IH [OF _ _ Cons.prems(3) [unfolded fold_simps udp_recv_datagram_peer
            [OF Some [unfolded m] True [THEN conjunct1] True [THEN conjunct2] Cons.prems(1,2) g]]]
          Cons.prems(1,2) Some m g True ne
        by (cases "j = i") (auto simp: received_stats_Cons split: prod.splits)
    qed
  qed
qed

text \<open>Every drop is counted once for the whole test and once for its peer; every accepted datagram
  counts for the whole test, those of other members of the host list also for the peer.\<close>

lemma sum_list_update_word:
  "i < length xs \<Longrightarrow> sum_list (map f (xs[i := y])) = sum_list (map f xs) + (f y - f (xs ! i))"
  for f :: "'a \<Rightarrow> 'b::len word"
  by (induction xs arbitrary: i) (auto simp: nth_Cons split: nat.splits)

lemma udp_recv_datagram_invariant:
  assumes "udp_recv_datagram n own d (c, ex) = (c', ex')" "length (cnt_peers c) = n" "length ex = n"
  shows "length (cnt_peers c') = n \<and> length ex' = n
    \<and> as_packets_dropped (cnt_total c') - sum_list (map as_packets_dropped (cnt_peers c'))
      = as_packets_dropped (cnt_total c) - sum_list (map as_packets_dropped (cnt_peers c))
    \<and> as_packets_recv (cnt_total c') = as_packets_recv (cnt_total c) + (if accepted d = None then 0 else 1)"
proof (cases "accepted d")
  case None
  then show ?thesis using assms by (simp add: udp_recv_datagram_rejected)
next
  case (Some m)
  obtain j s l where m: "m = (j, s, l)" by (cases m)
  show ?thesis
  proof (cases "unat j < n \<and> j \<noteq> own")
    case False
    show ?thesis
      using assms udp_recv_datagram_foreign [OF Some [unfolded m] False, of c ex] Some
      by (auto simp: on_total_def stats_recv_drop)
  next
    case True
    obtain slot g where g: "note_seq (ex ! unat j) s = (slot, g)" by fastforce
    show ?thesis
      using assms(1)
      unfolding udp_recv_datagram_peer [OF Some [unfolded m] True [THEN conjunct1] True [THEN conjunct2] assms(2,3) g]
      using assms(2,3) True Some by (auto simp: stats_recv_drop sum_list_update_word)
  qed
qed

lemma fold_recv_invariant:
  assumes "fold (udp_recv_datagram n own) ds (c, ex) = (c', ex')" "length (cnt_peers c) = n" "length ex = n"
  shows "length (cnt_peers c') = n \<and> length ex' = n
    \<and> as_packets_dropped (cnt_total c') - sum_list (map as_packets_dropped (cnt_peers c'))
      = as_packets_dropped (cnt_total c) - sum_list (map as_packets_dropped (cnt_peers c))
    \<and> as_packets_recv (cnt_total c') = as_packets_recv (cnt_total c) + of_nat (length (filter (\<lambda>d. accepted d \<noteq> None) ds))"
  using assms
proof (induction ds arbitrary: c ex)
  case (Cons d ds)
  obtain c1 ex1 where step: "udp_recv_datagram n own d (c, ex) = (c1, ex1)" by fastforce
  note inv = udp_recv_datagram_invariant [OF step Cons.prems(2,3)]
  have run: "fold (udp_recv_datagram n own) ds (c1, ex1) = (c', ex')" using Cons.prems(1) step by simp
  from Cons.IH [OF run inv [THEN conjunct1] inv [THEN conjunct2, THEN conjunct1]] inv
  show ?case by (auto simp: add.assoc)
qed simp

lemma udp_recv_init_lengths:
  "udp_recv_init hosts = (c, ex) \<Longrightarrow> length (cnt_peers c) = length hosts \<and> length ex = length hosts"
  by (auto simp: udp_recv_init_def counters_new_def)

lemma udp_recv_init_peer:
  "udp_recv_init hosts = (c, ex) \<Longrightarrow> k < length hosts \<Longrightarrow> cnt_peers c ! k = atom_stats_default \<and> ex ! k = None"
  by (auto simp: udp_recv_init_def counters_new_def)

lemma udp_loop_peer:
  assumes "\<forall>d\<in>set ds. length d \<le> 65536" "unat i < length hosts" "i \<noteq> own"
  shows "cnt_peers (fst (udp_recv_loop (length hosts) own (map Received ds @ Recv_cancelled # es) (udp_recv_init hosts))) ! unat i
    = received_stats (from_sender i ds) None atom_stats_default"
proof -
  obtain c ex where init: "udp_recv_init hosts = (c, ex)" by fastforce
  obtain c' ex' where run: "fold (udp_recv_datagram (length hosts) own) ds (c, ex) = (c', ex')" by fastforce
  from fold_recv_peer [OF assms(2,3) _ _ run] udp_recv_init_lengths [OF init] udp_recv_init_peer [OF init assms(2)] run init
  show ?thesis by (simp add: udp_recv_loop_cancelled [OF assms(1)])
qed

lemma next_after_limit: "\<forall>n\<in>set ns. n < k \<Longrightarrow> h \<le> k \<Longrightarrow> next_after h ns \<le> k"
  by (induction h ns rule: next_after.induct) auto

lemma next_after_first: "{n..<next_after n (n # ns)} = {n..Max (set (n # ns))}"
proof -
  have "Max (insert n (Suc ` set (n # ns))) = max n (Max (Suc ` set (n # ns)))" by (rule Max_insert) auto
  also have "Max (Suc ` set (n # ns)) = Suc (Max (set (n # ns)))"
    by (rule mono_Max_commute [symmetric]) (auto simp: mono_Suc)
  also have "max n (Suc (Max (set (n # ns)))) = Suc (Max (set (n # ns)))"
    by (intro max_absorb2 le_SucI Max_ge) auto
  finally have "Max (insert n (Suc ` set (n # ns))) = Suc (Max (set (n # ns)))" .
  then show ?thesis by (simp only: next_after_Max atLeastLessThanSuc_atLeastAtMost)
qed

lemma skipped_sorted_Max: "sorted (n # ns) \<Longrightarrow> skipped n (n # ns) = {n..Max (set (n # ns))} - set (n # ns)"
  by (simp only: skipped_sorted next_after_first)

lemma dropped_of_received:
  assumes "map fst ms = x # xs" "\<forall>y\<in>set (x # xs). unat y < 2 ^ 64 - 1"
  shows "unat (as_packets_dropped (received_stats ms None atom_stats_default)) = card (skipped (unat x) (map unat (x # xs)))"
proof -
  let ?ds = "snd (note_all note_seq None (map fst ms))"
  have rep: "sum_list (map unat ?ds) = card (skipped (unat x) (map unat (x # xs)))"
    using gaps.reported_from_start [of None x xs] assms by (simp add: reported_def)
  have "next_after (unat x) (map unat (x # xs)) \<le> 2 ^ 64 - 1"
    by (rule next_after_limit) (use assms(2) in \<open>auto simp: less_imp_le\<close>)
  then have "card (skipped (unat x) (map unat (x # xs))) < 2 ^ LENGTH(64)"
    using card_skipped [of "unat x" "map unat (x # xs)"] by simp
  then have "unat (sum_list ?ds) = card (skipped (unat x) (map unat (x # xs)))"
    using unat_sum_list [of ?ds] rep by simp
  then show ?thesis by (simp add: received_stats_def atom_stats_default_def)
qed

section \<open>Properties\<close>

text \<open>C32: a header written into a packet buffer is read back as it was, leaves the payload area
  alone, and is the only byte sequence that reads so.\<close>

theorem udp_header_roundtrip:
  assumes "UDP_HDR \<le> length buf"
  shows "\<exists>b. write_hdr buf i s l = Some b \<and> length b = length buf \<and> drop UDP_HDR b = drop UDP_HDR buf
    \<and> read_hdr b = Some (i, s, l) \<and> (\<forall>b'. read_hdr b' = Some (i, s, l) \<longleftrightarrow> take UDP_HDR b' = take UDP_HDR b)"
proof (intro exI conjI allI iffI)
  show "write_hdr buf i s l = Some (hdr_bytes i s l @ drop UDP_HDR buf)" using assms by (rule write_hdr_bytes)
next
  fix b' assume "read_hdr b' = Some (i, s, l)"
  from read_hdr_complete [OF this]
  have "take UDP_HDR b' = take UDP_HDR (hdr_bytes i s l @ drop UDP_HDR b')" by simp
  then show "take UDP_HDR b' = take UDP_HDR (hdr_bytes i s l @ drop UDP_HDR buf)" by simp
next
  fix b' assume "take UDP_HDR b' = take UDP_HDR (hdr_bytes i s l @ drop UDP_HDR buf)"
  then have "b' = hdr_bytes i s l @ drop UDP_HDR b'" by (metis append_take_drop_id append_eq_conv_conj length_hdr_bytes)
  then show "read_hdr b' = Some (i, s, l)" by (metis read_hdr_bytes)
qed (use assms in \<open>simp_all add: read_hdr_bytes\<close>)

theorem udp_header_roundtrip_witness:
  "\<exists>b. write_hdr (replicate 24 1) 7 99 1234 = Some b \<and> length b = length (replicate 24 (1 :: byte))
    \<and> drop UDP_HDR b = drop UDP_HDR (replicate 24 1) \<and> read_hdr b = Some (7, 99, 1234)
    \<and> (\<forall>b'. read_hdr b' = Some (7, 99, 1234) \<longleftrightarrow> take UDP_HDR b' = take UDP_HDR b)"
  by (rule udp_header_roundtrip) (simp add: UDP_HDR_def)

text \<open>C14: the drop count of a peer is the number of its sequence numbers, from the first that
  arrived to the highest, that did not arrive in their turn. No loss goes uncounted, and when the
  peer's datagrams arrive in increasing order the count is exactly the number lost. Datagrams of
  other senders and malformed ones do not disturb it.\<close>

theorem udp_drop_accounting:
  fixes es :: "recv_event list"
  assumes "\<forall>d\<in>set ds. length d \<le> 65536" "unat i < length hosts" "i \<noteq> own"
    and "map (unat \<circ> fst) (from_sender i ds) = n # ns" "\<forall>k\<in>set (n # ns). k < 2 ^ 64 - 1"
  defines "st \<equiv> cnt_peers (fst (udp_recv_loop (length hosts) own (map Received ds @ Recv_cancelled # es)
      (udp_recv_init hosts))) ! unat i"
  shows "unat (as_packets_dropped st) = card (skipped n (n # ns))
    \<and> card ({n..Max (set (n # ns))} - set (n # ns)) \<le> unat (as_packets_dropped st)
    \<and> (sorted (n # ns) \<longrightarrow> unat (as_packets_dropped st) = card ({n..Max (set (n # ns))} - set (n # ns)))"
proof -
  obtain x xs where x: "map fst (from_sender i ds) = x # xs" "n = unat x" "ns = map unat xs"
    using assms(4) by (cases "from_sender i ds") auto
  have "st = received_stats (from_sender i ds) None atom_stats_default"
    unfolding st_def by (rule udp_loop_peer [OF assms(1-3)])
  then have drops: "unat (as_packets_dropped st) = card (skipped n (n # ns))"
    using dropped_of_received [OF x(1)] assms(5) x(2,3) by simp
  note range = next_after_first [of n ns]
  with drops show ?thesis
    using skipped_missing [of n "n # ns"] skipped_sorted_Max [of n ns]
    by (auto simp: skipped_def range simp del: next_after.simps on_time.simps set_simps sorted_wrt.simps intro!: card_mono)
qed

theorem udp_drop_accounting_witness:
  "unat (as_packets_dropped (cnt_peers (fst (udp_recv_loop (length [''a'', ''b'']) 1
      (map Received (map (\<lambda>s. hdr_bytes 0 s 1 @ [7]) [0, 1, 5]) @ Recv_cancelled # [])
      (udp_recv_init [''a'', ''b'']))) ! unat (0 :: u32)))
    = card ({0..Max (set [0, 1, 5])} - set [0, 1, 5 :: nat])"
proof -
  let ?ds = "map (\<lambda>s. hdr_bytes 0 s 1 @ [7]) [0, 1, 5]"
  have a: "\<forall>d\<in>set ?ds. length d \<le> 65536" by code_simp
  have b: "map (unat \<circ> fst) (from_sender 0 ?ds) = 0 # [1, 5]" by code_simp
  show ?thesis using udp_drop_accounting [OF a _ _ b, of "[''a'', ''b'']" 1 "[]"] by simp
qed

text \<open>Over any run the drops of the whole test are the sum of the drops of its peers, and the
  received packets are the datagrams with a valid header and length.\<close>

theorem udp_totals:
  fixes es :: "recv_event list" and hosts :: "string list" and own :: u32
  assumes "\<forall>d\<in>set ds. length d \<le> 65536"
  defines "c \<equiv> fst (udp_recv_loop (length hosts) own (map Received ds @ Recv_cancelled # es) (udp_recv_init hosts))"
  shows "as_packets_dropped (cnt_total c) = sum_list (map as_packets_dropped (cnt_peers c))
    \<and> as_packets_recv (cnt_total c) = of_nat (length (filter (\<lambda>d. accepted d \<noteq> None) ds))"
proof -
  obtain c0 ex0 where init: "udp_recv_init hosts = (c0, ex0)" by fastforce
  obtain c' ex' where run: "fold (udp_recv_datagram (length hosts) own) ds (c0, ex0) = (c', ex')" by fastforce
  have "as_packets_dropped (cnt_total c0) = 0" "as_packets_recv (cnt_total c0) = 0"
      "sum_list (map as_packets_dropped (cnt_peers c0)) = 0"
    using init by (auto simp: udp_recv_init_def counters_new_def atom_stats_default_def comp_def)
  with fold_recv_invariant [OF run] udp_recv_init_lengths [OF init] show ?thesis
    by (simp add: c_def udp_recv_loop_cancelled [OF assms(1)] init run)
qed

theorem udp_totals_witness:
  "as_packets_dropped (cnt_total (fst (udp_recv_loop (length [''a'', ''b'']) 1
      (map Received [hdr_bytes 0 4 1 @ [7], [3], hdr_bytes 0 6 1 @ [7]] @ Recv_cancelled # []) (udp_recv_init [''a'', ''b'']))))
    = sum_list (map as_packets_dropped (cnt_peers (fst (udp_recv_loop (length [''a'', ''b'']) 1
      (map Received [hdr_bytes 0 4 1 @ [7], [3], hdr_bytes 0 6 1 @ [7]] @ Recv_cancelled # []) (udp_recv_init [''a'', ''b''])))))"
  using udp_totals [of "[hdr_bytes 0 4 1 @ [7], [3], hdr_bytes 0 6 1 @ [7]]" "[''a'', ''b'']" 1 "[]"]
  by (simp add: UDP_HDR_def)

end
