(* ===== verification/Udp_Send.thy ===== *)
theory Udp_Send
  imports Udp
begin

text \<open>
  The sending half of the UDP data plane of \<open>src/src/dataplane.rs\<close>: \<open>udp_send_loop\<close>, one copy per
  worker, as a program-counter machine whose steps interleave with those of the other workers.
  The workers of one destination share its sequence counter, all share the traffic counters and
  the socket. What the operating system decides (does a send succeed, is the test cancelled) is
  an input of the step.
\<close>

section \<open>One worker\<close>

definition udp_chunk :: nat where "udp_chunk = UDP_PKT - UDP_HDR"

text \<open>Where a worker stands: at the head of the outer loop, at the head of the inner loop with an
  offset, at \<open>send_to\<close> with a packet ready, between the total and the peer update of a failure or of
  a completed write, finished, or panicked. The bytes and the packets of one \<open>add_sent\<close> are added in one step: its
  two \<open>fetch_add\<close>s go to different counters, which no worker reads.\<close>

datatype udp_pc =
  Loop_head | Next_chunk nat | Sending nat nat | Failed_peer | Done_peer | Returned | Panicked

record udp_worker =
  uw_dest :: socket_addr
  uw_dest_id :: u32
  uw_peer :: "nat option"
  uw_pkt :: "byte list"
  uw_pc :: udp_pc

text \<open>The wire holds the datagrams the socket took, oldest first, each with its destination.\<close>

record udp_shared =
  us_seqs :: "u64 list"
  us_counters :: counters
  us_wire :: "(u32 \<times> socket_addr \<times> byte list) list"

definition udp_worker_new :: "socket_addr \<Rightarrow> u32 \<Rightarrow> nat option \<Rightarrow> udp_worker" where
  "udp_worker_new dest dest_id peer =
     \<lparr>uw_dest = dest, uw_dest_id = dest_id, uw_peer = peer, uw_pkt = replicate UDP_PKT 0,
      uw_pc = (if udp_chunk = 0 then Returned else Loop_head)\<rparr>"

text \<open>\<open>seqs.get(dest_id).map(|s| s.fetch_add(1)).unwrap_or(0)\<close>\<close>

definition fetch_seq :: "u32 \<Rightarrow> u64 list \<Rightarrow> u64 \<times> u64 list" where
  "fetch_seq dest_id seqs =
     (if unat dest_id < length seqs
      then (seqs ! unat dest_id, seqs[unat dest_id := seqs ! unat dest_id + 1]) else (0, seqs))"

definition fill_pkt :: "u32 \<Rightarrow> u64 \<Rightarrow> byte list \<Rightarrow> byte list \<Rightarrow> byte list option" where
  "fill_pkt own_id seq chunk pkt =
     Option.bind (write_hdr pkt own_id seq (of_nat (length chunk))) (copy_into UDP_HDR chunk)"

definition div_ceil :: "nat \<Rightarrow> nat \<Rightarrow> nat" where
  "div_ceil a b = (if a mod b = 0 then a div b else a div b + 1)"

definition udp_send_step ::
  "u32 \<Rightarrow> byte list \<Rightarrow> bool \<Rightarrow> bool \<Rightarrow> udp_worker \<times> udp_shared \<Rightarrow> udp_worker \<times> udp_shared" where
  "udp_send_step own_id payload cancelled sent_ok ws =
     (case ws of (w, sh) \<Rightarrow>
      case uw_pc w of
        Loop_head \<Rightarrow>
          (w\<lparr>uw_pc := if cancelled then Returned else Next_chunk 0\<rparr>, sh)
      | Next_chunk off \<Rightarrow>
          if off < length payload then
            if cancelled then (w\<lparr>uw_pc := Loop_head\<rparr>, sh)
            else
              let n = min (length payload - off) udp_chunk in
              (case fetch_seq (uw_dest_id w) (us_seqs sh) of (seq, seqs) \<Rightarrow>
               case fill_pkt own_id seq (subslice off (off + n) payload) (uw_pkt w) of
                 None \<Rightarrow> (w\<lparr>uw_pc := Panicked\<rparr>, sh\<lparr>us_seqs := seqs\<rparr>)
               | Some pkt \<Rightarrow> (w\<lparr>uw_pkt := pkt, uw_pc := Sending off n\<rparr>, sh\<lparr>us_seqs := seqs\<rparr>))
          else if off = length payload then
            (w\<lparr>uw_pc := Done_peer\<rparr>,
             sh\<lparr>us_counters := on_total (add_sent (of_nat (length payload))
               (max (of_nat (div_ceil (length payload) udp_chunk)) 1)) (us_counters sh)\<rparr>)
          else (w\<lparr>uw_pc := Loop_head\<rparr>, sh)
      | Sending off n \<Rightarrow>
          if sent_ok then
            (w\<lparr>uw_pc := Next_chunk (off + n)\<rparr>,
             sh\<lparr>us_wire := us_wire sh @ [(uw_dest_id w, uw_dest w, take (UDP_HDR + n) (uw_pkt w))]\<rparr>)
          else
            (w\<lparr>uw_pc := Failed_peer\<rparr>, sh\<lparr>us_counters := on_total (add_drop 1) (us_counters sh)\<rparr>)
      | Failed_peer \<Rightarrow>
          (w\<lparr>uw_pc := Loop_head\<rparr>, sh\<lparr>us_counters := on_peer (uw_peer w) (add_drop 1) (us_counters sh)\<rparr>)
      | Done_peer \<Rightarrow>
          (w\<lparr>uw_pc := Loop_head\<rparr>,
           sh\<lparr>us_counters := on_peer (uw_peer w) (add_sent (of_nat (length payload))
             (max (of_nat (div_ceil (length payload) udp_chunk)) 1)) (us_counters sh)\<rparr>)
      | Returned \<Rightarrow> ws
      | Panicked \<Rightarrow> ws)"

section \<open>All workers\<close>

record udp_system =
  sys_cancel :: bool
  sys_workers :: "udp_worker list"
  sys_shared :: udp_shared

inductive udp_step :: "u32 \<Rightarrow> byte list \<Rightarrow> udp_system \<Rightarrow> udp_system \<Rightarrow> bool" for own_id payload where
  worker: "i < length (sys_workers s) \<Longrightarrow>
    udp_send_step own_id payload (sys_cancel s) sent_ok (sys_workers s ! i, sys_shared s) = (w, sh) \<Longrightarrow>
    udp_step own_id payload s (s\<lparr>sys_workers := (sys_workers s)[i := w], sys_shared := sh\<rparr>)"
| cancel: "udp_step own_id payload s (s\<lparr>sys_cancel := True\<rparr>)"

text \<open>The state once every worker is spawned: one destination per entry.\<close>

definition udp_system_new :: "string list \<Rightarrow> (socket_addr \<times> u32) list \<Rightarrow> udp_system" where
  "udp_system_new hostlist dests =
     \<lparr>sys_cancel = False,
      sys_workers = map (\<lambda>(a, d). udp_worker_new a d (counters_peer d (counters_new hostlist))) dests,
      sys_shared = \<lparr>us_seqs = map (\<lambda>_. 0) hostlist, us_counters = counters_new hostlist, us_wire = []\<rparr>\<rparr>"

text \<open>The states reached in a number of steps.\<close>

inductive udp_run :: "u32 \<Rightarrow> byte list \<Rightarrow> udp_system \<Rightarrow> nat \<Rightarrow> udp_system \<Rightarrow> bool"
  for own_id payload s0 where
  start: "udp_run own_id payload s0 0 s0"
| step: "udp_run own_id payload s0 k s \<Longrightarrow> udp_step own_id payload s t \<Longrightarrow> udp_run own_id payload s0 (Suc k) t"

inductive_cases udp_stepE: "udp_step own_id payload s t"

text \<open>An invariant of every single step, counting steps, holds in every reached state.\<close>

lemma udp_run_invariant:
  assumes "udp_run own_id payload s0 k s" "I 0 s0"
    and "\<And>k s i ok w sh. I k s \<Longrightarrow> i < length (sys_workers s) \<Longrightarrow>
      udp_send_step own_id payload (sys_cancel s) ok (sys_workers s ! i, sys_shared s) = (w, sh) \<Longrightarrow>
      I (Suc k) (s\<lparr>sys_workers := (sys_workers s)[i := w], sys_shared := sh\<rparr>)"
    and "\<And>k s. I k s \<Longrightarrow> I (Suc k) (s\<lparr>sys_cancel := True\<rparr>)"
  shows "I k s"
  using assms(1)
proof induction
  case start
  show ?case by (rule assms(2))
next
  case (step k s t)
  from step.hyps(2) step.IH show ?case by (auto elim!: udp_stepE intro: assms(3,4))
qed

section \<open>Packets\<close>

lemma fill_pkt_Some:
  assumes "length pkt = UDP_PKT" "length chunk \<le> udp_chunk"
  shows "\<exists>rest. fill_pkt i s chunk pkt = Some (hdr_bytes i s (of_nat (length chunk)) @ chunk @ rest)
    \<and> length (hdr_bytes i s (of_nat (length chunk)) @ chunk @ rest) = UDP_PKT"
  using assms
  by (simp add: fill_pkt_def write_hdr_bytes copy_into_def udp_chunk_def UDP_PKT_def UDP_HDR_def)

lemma accepted_packet:
  assumes "length chunk \<le> udp_chunk"
  shows "accepted (hdr_bytes i s (of_nat (length chunk)) @ chunk) = Some (i, s, of_nat (length chunk))"
proof -
  have "length chunk < 2 ^ 32" using assms by (simp add: udp_chunk_def UDP_PKT_def UDP_HDR_def)
  then have "ucast (of_nat (length chunk) :: u32) = (of_nat (length chunk) :: u64)"
    by (intro word_unat_eq_iff [THEN iffD2]) (simp add: unsigned_of_nat unsigned_ucast_eq take_bit_nat_eq_self)
  then show ?thesis by (simp add: accepted_def read_hdr_bytes)
qed

text \<open>The sequence number that a packet buffer carries.\<close>

definition pkt_seq :: "byte list \<Rightarrow> u64" where
  "pkt_seq pkt = (case read_hdr pkt of Some (_, s, _) \<Rightarrow> s | None \<Rightarrow> 0)"

lemma pkt_seq_bytes [simp]: "pkt_seq (hdr_bytes i s l @ rest) = s"
  by (simp add: pkt_seq_def read_hdr_bytes)

text \<open>A worker in good order: its buffer is whole, and when it is about to send, the buffer starts
  with a packet holding the next piece of the payload.\<close>

definition worker_ok :: "u32 \<Rightarrow> byte list \<Rightarrow> udp_worker \<Rightarrow> bool" where
  "worker_ok own_id payload w \<longleftrightarrow>
     length (uw_pkt w) = UDP_PKT \<and> uw_pc w \<noteq> Panicked
     \<and> (\<forall>off. uw_pc w = Next_chunk off \<longrightarrow> off = length payload \<or> off < length payload \<and> udp_chunk dvd off)
     \<and> (\<forall>off n. uw_pc w = Sending off n \<longrightarrow> off < length payload \<and> udp_chunk dvd off
          \<and> n = min (length payload - off) udp_chunk
          \<and> (\<exists>rest. uw_pkt w = hdr_bytes own_id (pkt_seq (uw_pkt w)) (of_nat n) @ subslice off (off + n) payload @ rest))"

lemma udp_chunk_pos: "0 < udp_chunk"
  by (simp add: udp_chunk_def UDP_PKT_def UDP_HDR_def)

lemma length_subslice: "j \<le> length xs \<Longrightarrow> length (subslice i j xs) = j - i"
  by (simp add: subslice_def)

lemma chunk_end:
  assumes "off < length payload" "udp_chunk dvd off" "n = min (length payload - off) udp_chunk"
  shows "off + n = length payload \<or> off + n < length payload \<and> udp_chunk dvd off + n"
  using assms by (auto simp: min_def)

lemma worker_ok_step:
  assumes "worker_ok own_id payload w" "udp_send_step own_id payload c ok (w, sh) = (w', sh')" "payload \<noteq> []"
  shows "worker_ok own_id payload w'"
proof (cases "uw_pc w")
  case (Next_chunk off)
  show ?thesis
  proof (cases "off < length payload \<and> \<not> c")
    case True
    let ?n = "min (length payload - off) udp_chunk"
    let ?ch = "subslice off (off + ?n) payload"
    obtain seq seqs where f: "fetch_seq (uw_dest_id w) (us_seqs sh) = (seq, seqs)" by fastforce
    have len: "length ?ch = ?n" by (subst length_subslice) (use True in auto)
    obtain rest where fill: "fill_pkt own_id seq ?ch (uw_pkt w) = Some (hdr_bytes own_id seq (of_nat ?n) @ ?ch @ rest)"
      and l: "length (hdr_bytes own_id seq (of_nat ?n) @ ?ch @ rest) = UDP_PKT"
      using fill_pkt_Some [of "uw_pkt w" ?ch own_id seq] assms(1) len by (auto simp: worker_ok_def)
    have "w' = w\<lparr>uw_pkt := hdr_bytes own_id seq (of_nat ?n) @ ?ch @ rest, uw_pc := Sending off ?n\<rparr>"
      using assms(2) Next_chunk True f fill by (simp add: udp_send_step_def Let_def)
    then show ?thesis using assms(1) Next_chunk True l by (auto simp: worker_ok_def)
  qed (use assms Next_chunk in \<open>auto simp: udp_send_step_def worker_ok_def split: if_splits\<close>)
next
  case (Sending off n)
  then have "off + n = length payload \<or> off + n < length payload \<and> udp_chunk dvd off + n"
    using assms(1) by (intro chunk_end) (auto simp: worker_ok_def)
  then show ?thesis
    using assms(1,2) Sending by (auto simp: udp_send_step_def worker_ok_def split: if_splits)
qed (use assms in \<open>auto simp: udp_send_step_def worker_ok_def split: if_splits\<close>)

section \<open>What a step does to the sequence counters and the wire\<close>

definition is_sending :: "udp_worker \<Rightarrow> bool" where
  "is_sending w \<longleftrightarrow> (case uw_pc w of Sending _ _ \<Rightarrow> True | _ \<Rightarrow> False)"

lemma is_sendingE: "is_sending w \<Longrightarrow> (\<And>off n. uw_pc w = Sending off n \<Longrightarrow> P) \<Longrightarrow> P"
  by (auto simp: is_sending_def split: udp_pc.splits)

definition packet_of :: "udp_worker \<Rightarrow> byte list" where
  "packet_of w = (case uw_pc w of Sending off n \<Rightarrow> take (UDP_HDR + n) (uw_pkt w) | _ \<Rightarrow> [])"

lemma step_identity:
  "udp_send_step own_id payload c ok (w, sh) = (w', sh') \<Longrightarrow>
    uw_dest w' = uw_dest w \<and> uw_dest_id w' = uw_dest_id w \<and> uw_peer w' = uw_peer w"
  by (auto simp: udp_send_step_def Let_def split: udp_pc.splits if_splits option.splits prod.splits)

lemma step_effect [consumes 3, case_names quiet fetch transmit]:
  assumes "udp_send_step own_id payload c ok (w, sh) = (w', sh')" "worker_ok own_id payload w" "payload \<noteq> []"
  obtains
    (quiet) "\<not> is_sending w'" "us_seqs sh' = us_seqs sh" "us_wire sh' = us_wire sh"
  | (fetch) "is_sending w'" "\<not> is_sending w" "us_seqs sh' = snd (fetch_seq (uw_dest_id w) (us_seqs sh))"
      "pkt_seq (uw_pkt w') = fst (fetch_seq (uw_dest_id w) (us_seqs sh))" "us_wire sh' = us_wire sh"
  | (transmit) "is_sending w" "\<not> is_sending w'" "us_seqs sh' = us_seqs sh"
      "us_wire sh' = us_wire sh @ [(uw_dest_id w, uw_dest w, packet_of w)]"
proof (cases "uw_pc w")
  case (Next_chunk off)
  show ?thesis
  proof (cases "off < length payload \<and> \<not> c")
    case True
    let ?n = "min (length payload - off) udp_chunk"
    let ?ch = "subslice off (off + ?n) payload"
    obtain seq seqs where f: "fetch_seq (uw_dest_id w) (us_seqs sh) = (seq, seqs)" by fastforce
    have len: "length ?ch = ?n" by (subst length_subslice) (use True in auto)
    obtain rest where fill: "fill_pkt own_id seq ?ch (uw_pkt w) = Some (hdr_bytes own_id seq (of_nat ?n) @ ?ch @ rest)"
      using fill_pkt_Some [of "uw_pkt w" ?ch own_id seq] assms(2) len by (auto simp: worker_ok_def)
    show ?thesis
      by (rule fetch) (use assms(1) Next_chunk True f fill in \<open>auto simp: udp_send_step_def Let_def is_sending_def\<close>)
  qed (rule quiet; use assms(1) Next_chunk in \<open>auto simp: udp_send_step_def is_sending_def split: if_splits\<close>)
next
  case (Sending off n)
  show ?thesis
  proof (cases ok)
    case True
    then show ?thesis
      using assms(1) Sending by (intro transmit) (auto simp: udp_send_step_def is_sending_def packet_of_def)
  qed (rule quiet; use assms(1) Sending in \<open>auto simp: udp_send_step_def is_sending_def\<close>)
qed (rule quiet; use assms(1) in \<open>auto simp: udp_send_step_def is_sending_def split: if_splits\<close>)+

text \<open>The packet on its way to the socket is one the receiver accepts.\<close>

lemma accepted_packet_of:
  assumes "worker_ok own_id payload w" "is_sending w"
  shows "\<exists>l. accepted (packet_of w) = Some (own_id, pkt_seq (uw_pkt w), l)"
    and "length (packet_of w) \<le> UDP_PKT"
proof -
  obtain off n where pc: "uw_pc w = Sending off n" using assms(2) by (rule is_sendingE)
  let ?ch = "subslice off (off + n) payload"
  obtain rest where n: "n = min (length payload - off) udp_chunk" "off < length payload"
    and pkt: "uw_pkt w = hdr_bytes own_id (pkt_seq (uw_pkt w)) (of_nat n) @ ?ch @ rest"
    using assms(1) pc by (auto simp: worker_ok_def)
  have len: "length ?ch = n" by (subst length_subslice) (use n in auto)
  have "packet_of w = hdr_bytes own_id (pkt_seq (uw_pkt w)) (of_nat n) @ ?ch"
    unfolding packet_of_def pc by (subst pkt) (simp add: len)
  moreover have "length ?ch \<le> udp_chunk" using n(1) len by simp
  ultimately show "\<exists>l. accepted (packet_of w) = Some (own_id, pkt_seq (uw_pkt w), l)"
    using accepted_packet [of ?ch own_id "pkt_seq (uw_pkt w)"] len by auto
  have "length (uw_pkt w) = UDP_PKT" using assms(1) by (simp add: worker_ok_def)
  then show "length (packet_of w) \<le> UDP_PKT" by (simp add: packet_of_def pc)
qed

lemma accepted_pkt_seq: "accepted d = Some (i, s, l) \<Longrightarrow> pkt_seq d = s"
  by (auto simp: accepted_def pkt_seq_def split: option.splits if_splits)

lemma pkt_seq_packet_of:
  "worker_ok own_id payload w \<Longrightarrow> is_sending w \<Longrightarrow> pkt_seq (packet_of w) = pkt_seq (uw_pkt w)"
  using accepted_packet_of(1) accepted_pkt_seq by blast

lemma worker_ok_new: "worker_ok own_id payload (udp_worker_new a d p)"
  by (simp add: worker_ok_def udp_worker_new_def)

definition workers_ok :: "u32 \<Rightarrow> byte list \<Rightarrow> udp_system \<Rightarrow> bool" where
  "workers_ok own_id payload s \<longleftrightarrow>
     (\<forall>w\<in>set (sys_workers s). worker_ok own_id payload w)
     \<and> (\<forall>(d, a, p)\<in>set (us_wire (sys_shared s)).
          length p \<le> UDP_PKT \<and> (\<exists>l. accepted p = Some (own_id, pkt_seq p, l)))"

lemma workers_ok_step:
  assumes "workers_ok own_id payload s" "i < length (sys_workers s)" "payload \<noteq> []"
    and "udp_send_step own_id payload c ok (sys_workers s ! i, sys_shared s) = (w, sh)"
  shows "workers_ok own_id payload (s\<lparr>sys_workers := (sys_workers s)[i := w], sys_shared := sh\<rparr>)"
proof -
  let ?w = "sys_workers s ! i"
  have ok: "worker_ok own_id payload ?w" using assms(1,2) by (auto simp: workers_ok_def)
  have "\<forall>v\<in>set ((sys_workers s)[i := w]). worker_ok own_id payload v"
    using assms(1) worker_ok_step [OF ok assms(4,3)] set_update_subset_insert [of "sys_workers s" i w]
    by (auto simp: workers_ok_def)
  moreover have "\<forall>(d, a, p)\<in>set (us_wire sh). length p \<le> UDP_PKT \<and> (\<exists>l. accepted p = Some (own_id, pkt_seq p, l))"
    using assms(4) ok assms(3)
  proof (cases rule: step_effect)
    case transmit
    then show ?thesis
      using assms(1) accepted_packet_of [OF ok transmit(1)] pkt_seq_packet_of [OF ok transmit(1)]
      by (auto simp: workers_ok_def)
  qed (use assms(1) in \<open>auto simp: workers_ok_def\<close>)
  ultimately show ?thesis by (simp add: workers_ok_def)
qed

lemma workers_ok_run:
  assumes "udp_run own_id payload (udp_system_new hosts dests) k s" "payload \<noteq> []"
  shows "workers_ok own_id payload s"
  using assms(1)
proof (rule udp_run_invariant [where I = "\<lambda>_. workers_ok own_id payload"])
  show "workers_ok own_id payload (udp_system_new hosts dests)"
    by (auto simp: workers_ok_def udp_system_new_def worker_ok_new)
next
  fix s :: udp_system
  assume "workers_ok own_id payload s"
  then show "workers_ok own_id payload (s\<lparr>sys_cancel := True\<rparr>)" by (simp add: workers_ok_def)
qed (rule workers_ok_step [OF _ _ assms(2)])

section \<open>Sequence numbers\<close>

text \<open>The sequence numbers on the wire for a destination, oldest first, and the workers holding a
  number that is not yet sent.\<close>

definition sent_to :: "u32 \<Rightarrow> udp_shared \<Rightarrow> u64 list" where
  "sent_to d sh = map (\<lambda>(_, _, p). pkt_seq p) (filter (\<lambda>(d', _, _). d' = d) (us_wire sh))"

definition holds :: "u32 \<Rightarrow> udp_worker \<Rightarrow> bool" where
  "holds d w \<longleftrightarrow> is_sending w \<and> uw_dest_id w = d"

text \<open>The counter of a destination is above every number handed out; no number is handed out twice.\<close>

definition seq_inv :: "u32 \<Rightarrow> udp_system \<Rightarrow> bool" where
  "seq_inv d s \<longleftrightarrow>
     (let ws = sys_workers s; top = us_seqs (sys_shared s) ! unat d; sent = sent_to d (sys_shared s) in
      unat d < length (us_seqs (sys_shared s)) \<and> distinct sent \<and> (\<forall>q\<in>set sent. q < top)
      \<and> (\<forall>i<length ws. holds d (ws ! i) \<longrightarrow> pkt_seq (uw_pkt (ws ! i)) < top \<and> pkt_seq (uw_pkt (ws ! i)) \<notin> set sent)
      \<and> (\<forall>i<length ws. \<forall>j<length ws. i \<noteq> j \<longrightarrow> holds d (ws ! i) \<longrightarrow> holds d (ws ! j) \<longrightarrow>
            pkt_seq (uw_pkt (ws ! i)) \<noteq> pkt_seq (uw_pkt (ws ! j))))"

text \<open>With one worker for the destination the numbers go out in order.\<close>

definition order_inv :: "u32 \<Rightarrow> udp_system \<Rightarrow> bool" where
  "order_inv d s \<longleftrightarrow>
     sorted_wrt (<) (sent_to d (sys_shared s))
     \<and> (\<forall>w\<in>set (sys_workers s). holds d w \<longrightarrow> (\<forall>q\<in>set (sent_to d (sys_shared s)). q < pkt_seq (uw_pkt w)))"

definition single_worker :: "u32 \<Rightarrow> udp_system \<Rightarrow> bool" where
  "single_worker d s \<longleftrightarrow>
     (\<forall>i<length (sys_workers s). \<forall>j<length (sys_workers s).
        uw_dest_id (sys_workers s ! i) = d \<longrightarrow> uw_dest_id (sys_workers s ! j) = d \<longrightarrow> i = j)"

lemma sent_to_transmit:
  "us_wire sh' = us_wire sh @ [(d', a, p)] \<Longrightarrow>
    sent_to d sh' = sent_to d sh @ (if d' = d then [pkt_seq p] else [])"
  by (simp add: sent_to_def)

lemma sent_to_same: "us_wire sh' = us_wire sh \<Longrightarrow> sent_to d sh' = sent_to d sh"
  by (simp add: sent_to_def)

lemma less_succ_u64: "unat (m :: u64) < 2 ^ 64 - 1 \<Longrightarrow> unat (m + 1) = Suc (unat m)"
proof -
  assume "unat m < 2 ^ 64 - 1"
  then have "unat m + unat (1 :: u64) < 2 ^ LENGTH(64)" by simp
  then have "unat (m + 1) = unat m + unat (1 :: u64)" by (simp only: unat_add_lem)
  then show ?thesis by simp
qed

lemma fetch_seq_other: "unat d < length seqs \<Longrightarrow> e \<noteq> d \<Longrightarrow> snd (fetch_seq e seqs) ! unat d = seqs ! unat d"
  by (simp add: fetch_seq_def word_unat_eq_iff)

lemma fetch_seq_same: "unat d < length seqs \<Longrightarrow> fetch_seq d seqs = (seqs ! unat d, seqs[unat d := seqs ! unat d + 1])"
  by (simp add: fetch_seq_def)

lemma length_fetch_seq [simp]: "length (snd (fetch_seq d seqs)) = length seqs"
  by (simp add: fetch_seq_def)

lemma seq_top_step:
  fixes d :: u32
  assumes "udp_send_step own_id payload c ok (w, sh) = (w', sh')" "worker_ok own_id payload w" "payload \<noteq> []"
    and "unat d < length (us_seqs sh)" "unat (us_seqs sh ! unat d) \<le> k" "Suc k < 2 ^ 64"
  shows "length (us_seqs sh') = length (us_seqs sh) \<and> unat (us_seqs sh' ! unat d) \<le> Suc k
    \<and> us_seqs sh ! unat d \<le> us_seqs sh' ! unat d"
proof -
  have "unat (us_seqs sh ! unat d) < 2 ^ 64 - 1" using assms(5,6) by simp
  note succ = less_succ_u64 [OF this]
  show ?thesis
    using assms(1-3)
  proof (cases rule: step_effect)
    case fetch
    then show ?thesis
      using assms(4,5) succ fetch_seq_other [OF assms(4), of "uw_dest_id w"] fetch_seq_same [OF assms(4)]
      by (cases "uw_dest_id w = d") (simp_all add: word_le_nat_alt)
  qed (use assms(5) in simp_all)
qed

lemma seq_inv_step:
  assumes "seq_inv d s" "workers_ok own_id payload s" "i < length (sys_workers s)" "payload \<noteq> []"
    and step: "udp_send_step own_id payload c ok (sys_workers s ! i, sys_shared s) = (w, sh)"
    and top: "unat (us_seqs (sys_shared s) ! unat d) < 2 ^ 64 - 1"
  shows "seq_inv d (s\<lparr>sys_workers := (sys_workers s)[i := w], sys_shared := sh\<rparr>)"
proof -
  let ?w = "sys_workers s ! i"
  have ok: "worker_ok own_id payload ?w" using assms(2,3) by (auto simp: workers_ok_def)
  have len: "unat d < length (us_seqs (sys_shared s))" using assms(1) by (simp add: seq_inv_def Let_def)
  have same: "uw_dest_id w = uw_dest_id ?w" using step_identity [OF step] by simp
  have next_top: "us_seqs (sys_shared s) ! unat d < us_seqs (sys_shared s) ! unat d + 1"
    using less_succ_u64 [OF top] by (simp add: word_less_nat_alt)
  show ?thesis
    using step ok assms(4)
  proof (cases rule: step_effect)
    case quiet
    then have "\<not> holds d w" by (simp add: holds_def)
    then show ?thesis
      using assms(1,3) quiet unfolding seq_inv_def Let_def
      by (auto simp: sent_to_same [OF quiet(3)] nth_list_update)
  next
    case fetch
    note sent = sent_to_same [OF fetch(5), of d]
    show ?thesis
    proof (cases "uw_dest_id ?w = d")
      case True
      have eq: "us_seqs sh = (us_seqs (sys_shared s))[unat d := us_seqs (sys_shared s) ! unat d + 1]"
          "pkt_seq (uw_pkt w) = us_seqs (sys_shared s) ! unat d"
        using fetch(3,4) True fetch_seq_same [OF len] by simp_all
      show ?thesis
        using assms(1,3) len next_top unfolding seq_inv_def Let_def
        by (auto simp: sent eq nth_list_update dest: less_trans)
    next
      case False
      then have "us_seqs sh ! unat d = us_seqs (sys_shared s) ! unat d" "\<not> holds d w"
        using fetch(3) fetch_seq_other [OF len] same by (simp_all add: holds_def)
      then show ?thesis
        using assms(1,3) fetch(3) unfolding seq_inv_def Let_def by (auto simp: sent nth_list_update)
    qed
  next
    case transmit
    have "\<not> holds d w" using transmit by (simp add: holds_def)
    have sent: "sent_to d sh = sent_to d (sys_shared s) @ (if uw_dest_id ?w = d then [pkt_seq (uw_pkt ?w)] else [])"
      using sent_to_transmit [OF transmit(4)] pkt_seq_packet_of [OF ok transmit(1)] by simp
    show ?thesis
    proof (cases "uw_dest_id ?w = d")
      case True
      then have "holds d ?w" using transmit(1) by (simp add: holds_def)
      then show ?thesis
        using assms(1,3) transmit(3) \<open>\<not> holds d w\<close> True unfolding seq_inv_def Let_def
        by (auto simp: sent nth_list_update)
    next
      case False
      then show ?thesis
        using assms(1,3) transmit(3) \<open>\<not> holds d w\<close> unfolding seq_inv_def Let_def
        by (auto simp: sent nth_list_update)
    qed
  qed
qed

lemma order_inv_step:
  assumes "order_inv d s" "seq_inv d s" "single_worker d s" "workers_ok own_id payload s"
    and "i < length (sys_workers s)" "payload \<noteq> []"
    and step: "udp_send_step own_id payload c ok (sys_workers s ! i, sys_shared s) = (w, sh)"
  shows "order_inv d (s\<lparr>sys_workers := (sys_workers s)[i := w], sys_shared := sh\<rparr>)"
proof -
  let ?w = "sys_workers s ! i" and ?ws = "sys_workers s"
  have ok: "worker_ok own_id payload ?w" using assms(4,5) by (auto simp: workers_ok_def)
  have same: "uw_dest_id w = uw_dest_id ?w" using step_identity [OF step] by simp
  have members: "v = w \<or> v \<in> set ?ws" if "v \<in> set (?ws[i := w])" for v
    using that set_update_subset_insert [of ?ws i w] by auto
  have sent_below: "\<forall>q\<in>set (sent_to d (sys_shared s)). q < us_seqs (sys_shared s) ! unat d"
      and len: "unat d < length (us_seqs (sys_shared s))"
    using assms(2) by (auto simp: seq_inv_def Let_def)
  show ?thesis
    using step ok assms(6)
  proof (cases rule: step_effect)
    case quiet
    then show ?thesis
      using assms(1) by (auto dest!: members simp: order_inv_def sent_to_same [OF quiet(3)] holds_def)
  next
    case fetch
    have "pkt_seq (uw_pkt w) = us_seqs (sys_shared s) ! unat d" if "uw_dest_id ?w = d"
      using fetch(4) fetch_seq_same [OF len] that by simp
    then have "\<forall>v\<in>set (?ws[i := w]). holds d v \<longrightarrow> (\<forall>q\<in>set (sent_to d sh). q < pkt_seq (uw_pkt v))"
      using assms(1) sent_below same by (auto dest!: members simp: order_inv_def sent_to_same [OF fetch(5)] holds_def)
    then show ?thesis using assms(1) by (simp add: order_inv_def sent_to_same [OF fetch(5)])
  next
    case transmit
    have sent: "sent_to d sh = sent_to d (sys_shared s) @ (if uw_dest_id ?w = d then [pkt_seq (uw_pkt ?w)] else [])"
      using sent_to_transmit [OF transmit(4)] pkt_seq_packet_of [OF ok transmit(1)] by simp
    show ?thesis
    proof (cases "uw_dest_id ?w = d")
      case False
      then show ?thesis using assms(1) transmit(2) by (auto dest!: members simp: order_inv_def sent holds_def)
    next
      case True
      have none: "\<not> holds d v" if v: "v \<in> set (?ws[i := w])" for v
      proof -
        obtain j where j: "j < length ?ws" "v = ?ws[i := w] ! j" using v by (auto simp: in_set_conv_nth)
        show ?thesis
          using assms(3,5) j True transmit(2) by (cases "j = i") (auto simp: single_worker_def holds_def)
      qed
      have "\<forall>q\<in>set (sent_to d (sys_shared s)). q < pkt_seq (uw_pkt ?w)"
        using assms(1,5) True transmit(1) by (auto simp: order_inv_def holds_def)
      then show ?thesis using assms(1) none True by (auto simp: order_inv_def sent sorted_wrt_append)
    qed
  qed
qed

lemma single_worker_step:
  "single_worker d s \<Longrightarrow> i < length (sys_workers s) \<Longrightarrow>
    udp_send_step own_id payload c ok (sys_workers s ! i, sys_shared s) = (w, sh) \<Longrightarrow>
    single_worker d (s\<lparr>sys_workers := (sys_workers s)[i := w], sys_shared := sh\<rparr>)"
  unfolding single_worker_def by (auto simp: nth_list_update dest!: step_identity)

lemma system_new_simps [simp]:
  "us_seqs (sys_shared (udp_system_new hosts dests)) = map (\<lambda>_. 0) hosts"
  "us_wire (sys_shared (udp_system_new hosts dests)) = []"
  "us_counters (sys_shared (udp_system_new hosts dests)) = counters_new hosts"
  "sent_to d (sys_shared (udp_system_new hosts dests)) = []"
  by (simp_all add: udp_system_new_def sent_to_def)

lemma worker_new_not_holding [simp]: "\<not> holds d (udp_worker_new a e p)" "\<not> is_sending (udp_worker_new a e p)"
  by (simp_all add: holds_def is_sending_def udp_worker_new_def)

lemma system_new_not_holding: "w \<in> set (sys_workers (udp_system_new hosts dests)) \<Longrightarrow> \<not> holds d w"
  by (auto simp: udp_system_new_def)

lemma seq_inv_run:
  fixes d :: u32
  assumes "udp_run own_id payload (udp_system_new hosts dests) k s" "payload \<noteq> []" "k < 2 ^ 64"
    and d: "unat d < length hosts"
  shows "seq_inv d s \<and> unat (us_seqs (sys_shared s) ! unat d) \<le> k
    \<and> (single_worker d (udp_system_new hosts dests) \<longrightarrow> single_worker d s \<and> order_inv d s)"
proof -
  let ?I = "\<lambda>k s. k < 2 ^ 64 \<longrightarrow> workers_ok own_id payload s \<and> seq_inv d s
    \<and> unat (us_seqs (sys_shared s) ! unat d) \<le> k
    \<and> (single_worker d (udp_system_new hosts dests) \<longrightarrow> single_worker d s \<and> order_inv d s)"
  from assms(1) have "?I k s"
  proof (rule udp_run_invariant [where I = ?I])
    let ?s = "udp_system_new hosts dests"
    have "workers_ok own_id payload ?s" by (auto simp: workers_ok_def udp_system_new_def worker_ok_new)
    moreover have "seq_inv d ?s"
      using d system_new_not_holding [OF nth_mem] by (auto simp: seq_inv_def Let_def)
    moreover have "order_inv d ?s" using system_new_not_holding by (auto simp: order_inv_def)
    ultimately show "?I 0 ?s" using d by simp
  next
    fix k s i ok w sh
    assume I: "?I k s" and i: "i < length (sys_workers s)"
      and step: "udp_send_step own_id payload (sys_cancel s) ok (sys_workers s ! i, sys_shared s) = (w, sh)"
    show "?I (Suc k) (s\<lparr>sys_workers := (sys_workers s)[i := w], sys_shared := sh\<rparr>)"
    proof
      assume k: "Suc k < 2 ^ 64"
      then have J: "workers_ok own_id payload s" "seq_inv d s" "unat (us_seqs (sys_shared s) ! unat d) \<le> k"
          "single_worker d (udp_system_new hosts dests) \<Longrightarrow> single_worker d s \<and> order_inv d s"
        using I by auto
      have ok: "worker_ok own_id payload (sys_workers s ! i)" using J(1) i by (auto simp: workers_ok_def)
      have len: "unat d < length (us_seqs (sys_shared s))" using J(2) by (simp add: seq_inv_def Let_def)
      have top: "unat (us_seqs (sys_shared s) ! unat d) < 2 ^ 64 - 1" using J(3) k by simp
      show "workers_ok own_id payload (s\<lparr>sys_workers := (sys_workers s)[i := w], sys_shared := sh\<rparr>)
        \<and> seq_inv d (s\<lparr>sys_workers := (sys_workers s)[i := w], sys_shared := sh\<rparr>)
        \<and> unat (us_seqs (sys_shared (s\<lparr>sys_workers := (sys_workers s)[i := w], sys_shared := sh\<rparr>)) ! unat d) \<le> Suc k
        \<and> (single_worker d (udp_system_new hosts dests) \<longrightarrow>
            single_worker d (s\<lparr>sys_workers := (sys_workers s)[i := w], sys_shared := sh\<rparr>)
            \<and> order_inv d (s\<lparr>sys_workers := (sys_workers s)[i := w], sys_shared := sh\<rparr>))"
        using workers_ok_step [OF J(1) i assms(2) step] seq_inv_step [OF J(2,1) i assms(2) step top]
          seq_top_step [OF step ok assms(2) len J(3) k] single_worker_step [OF _ i step]
          order_inv_step [OF _ J(2) _ J(1) i assms(2) step] J(4)
        by simp
    qed
  next
    fix k s
    assume "?I k s"
    then show "?I (Suc k) (s\<lparr>sys_cancel := True\<rparr>)"
      by (auto simp: workers_ok_def seq_inv_def order_inv_def single_worker_def)
  qed
  then show ?thesis using assms(3) by simp
qed

section \<open>Traffic counters\<close>

lemma sum_list_update_nat:
  "i < length xs \<Longrightarrow> sum_list (map f (xs[i := y])) + f (xs ! i) = sum_list (map f xs) + (f y :: nat)"
  by (induction xs arbitrary: i) (auto simp: nth_Cons split: nat.splits)

text \<open>What the workers have sent of the write they are in: packets and bytes.\<close>

definition pass_packets :: "udp_worker \<Rightarrow> nat" where
  "pass_packets w =
     (case uw_pc w of Next_chunk off \<Rightarrow> div_ceil off udp_chunk | Sending off _ \<Rightarrow> div_ceil off udp_chunk | _ \<Rightarrow> 0)"

definition pass_bytes :: "udp_worker \<Rightarrow> nat" where
  "pass_bytes w = (case uw_pc w of Next_chunk off \<Rightarrow> off | Sending off _ \<Rightarrow> off | _ \<Rightarrow> 0)"

definition wire_bytes :: "udp_shared \<Rightarrow> nat" where
  "wire_bytes sh = sum_list (map (\<lambda>(_, _, p). length p - UDP_HDR) (us_wire sh))"

lemma div_ceil_next: "c dvd off \<Longrightarrow> 0 < n \<Longrightarrow> n \<le> c \<Longrightarrow> div_ceil (off + n) c = Suc (div_ceil off c)"
proof -
  assume "c dvd off" "0 < n" "n \<le> c"
  then obtain k where "off = c * k" by (elim dvdE)
  with \<open>0 < n\<close> \<open>n \<le> c\<close> show ?thesis by (cases "n = c") (simp_all add: div_ceil_def)
qed

lemma div_ceil_pos: "0 < a \<Longrightarrow> 0 < c \<Longrightarrow> 0 < div_ceil a c"
  by (auto simp: div_ceil_def mod_eq_0_iff_dvd div_greater_zero_iff dvd_imp_le)

lemma div_ceil_0 [simp]: "div_ceil 0 c = 0"
  by (simp add: div_ceil_def)

lemma sent_stats [simp]:
  "as_bytes_sent (add_sent b p a) = as_bytes_sent a + b"
  "as_packets_sent (add_sent b p a) = as_packets_sent a + p"
  "as_packets_dropped (add_sent b p a) = as_packets_dropped a"
  "as_bytes_sent (add_drop g a) = as_bytes_sent a"
  "as_packets_sent (add_drop g a) = as_packets_sent a"
  "as_packets_dropped (add_drop g a) = as_packets_dropped a + g"
  by (simp_all add: add_sent_def add_drop_def Let_def word_gt_0)

lemma cnt_simps [simp]:
  "cnt_total (on_total f c) = f (cnt_total c)" "cnt_peers (on_total f c) = cnt_peers c"
  "cnt_total (on_peer p f c) = cnt_total c"
  "cnt_peers (on_peer None f c) = cnt_peers c"
  "cnt_peers (on_peer (Some j) f c) = (cnt_peers c)[j := f (cnt_peers c ! j)]"
  by (auto simp: on_total_def on_peer_def split: option.split)

text \<open>A step moves credit from the wire to the worker, and from the worker to the counter.\<close>

lemma traffic_step:
  assumes "udp_send_step own_id payload c ok (w, sh) = (w', sh')" "worker_ok own_id payload w" "payload \<noteq> []"
    and "unat (as_packets_sent (cnt_total (us_counters sh))) + pass_packets w < 2 ^ 64"
    and "unat (as_bytes_sent (cnt_total (us_counters sh))) + pass_bytes w < 2 ^ 64"
  shows "unat (as_packets_sent (cnt_total (us_counters sh'))) + pass_packets w' + length (us_wire sh)
      \<le> unat (as_packets_sent (cnt_total (us_counters sh))) + pass_packets w + length (us_wire sh')"
    and "unat (as_bytes_sent (cnt_total (us_counters sh'))) + pass_bytes w' + wire_bytes sh
      \<le> unat (as_bytes_sent (cnt_total (us_counters sh))) + pass_bytes w + wire_bytes sh'"
    and "length (us_wire sh') \<le> Suc (length (us_wire sh))"
    and "wire_bytes sh' \<le> wire_bytes sh + UDP_PKT"
proof -
  let ?ps = "as_packets_sent (cnt_total (us_counters sh))" and ?bs = "as_bytes_sent (cnt_total (us_counters sh))"
  have "unat (as_packets_sent (cnt_total (us_counters sh'))) + pass_packets w' + length (us_wire sh)
      \<le> unat ?ps + pass_packets w + length (us_wire sh')
    \<and> unat (as_bytes_sent (cnt_total (us_counters sh'))) + pass_bytes w' + wire_bytes sh
      \<le> unat ?bs + pass_bytes w + wire_bytes sh'
    \<and> length (us_wire sh') \<le> Suc (length (us_wire sh)) \<and> wire_bytes sh' \<le> wire_bytes sh + UDP_PKT"
  proof (cases "uw_pc w")
    case (Next_chunk off)
    show ?thesis
    proof (cases "off = length payload")
      case True
      let ?c = "div_ceil (length payload) udp_chunk"
      have pos: "0 < ?c" using assms(3) udp_chunk_pos by (intro div_ceil_pos) auto
      have b: "?c < 2 ^ LENGTH(64)" "length payload < 2 ^ LENGTH(64)" "unat ?ps + ?c < 2 ^ LENGTH(64)"
          "unat ?bs + length payload < 2 ^ LENGTH(64)"
        using assms(4,5) Next_chunk True by (simp_all add: pass_packets_def pass_bytes_def)
      have "(of_nat ?c :: u64) \<noteq> 0" using pos unat_of_nat_small [OF b(1)] by (metis not_less0 unat_0)
      then have mx: "max (of_nat ?c :: u64) 1 = of_nat ?c"
        by (intro max_absorb1) (simp add: word_le_nat_alt unat_gt_0 Suc_le_eq)
      have "unat (?ps + of_nat ?c) = unat ?ps + ?c" "unat (?bs + of_nat (length payload)) = unat ?bs + length payload"
        using b(3,4) unat_of_nat_small [OF b(1)] unat_of_nat_small [OF b(2)] unat_add_lem by metis+
      then show ?thesis
        using assms(1) Next_chunk True mx
        by (auto simp: udp_send_step_def pass_packets_def pass_bytes_def wire_bytes_def)
    next
      case False
      then show ?thesis
        using assms(1) Next_chunk
        by (auto simp: udp_send_step_def pass_packets_def pass_bytes_def wire_bytes_def Let_def
            split: if_splits prod.splits option.splits)
    qed
  next
    case (Sending off n)
    then have n: "0 < n" "n \<le> udp_chunk" "udp_chunk dvd off" "length (uw_pkt w) = UDP_PKT"
      using assms(2) udp_chunk_pos by (auto simp: worker_ok_def)
    have "UDP_HDR + n \<le> UDP_PKT" using n(2) by (simp add: udp_chunk_def UDP_PKT_def UDP_HDR_def)
    then show ?thesis
      using assms(1) Sending n div_ceil_next [OF n(3,1,2)]
      by (auto simp: udp_send_step_def pass_packets_def pass_bytes_def wire_bytes_def split: if_splits)
  qed (use assms(1) in \<open>auto simp: udp_send_step_def pass_packets_def pass_bytes_def wire_bytes_def split: if_splits\<close>)
  then show "unat (as_packets_sent (cnt_total (us_counters sh'))) + pass_packets w' + length (us_wire sh)
      \<le> unat ?ps + pass_packets w + length (us_wire sh')"
    and "unat (as_bytes_sent (cnt_total (us_counters sh'))) + pass_bytes w' + wire_bytes sh
      \<le> unat ?bs + pass_bytes w + wire_bytes sh'"
    and "length (us_wire sh') \<le> Suc (length (us_wire sh))" and "wire_bytes sh' \<le> wire_bytes sh + UDP_PKT"
    by blast+
qed

text \<open>The counters never run ahead of the wire.\<close>

definition traffic_inv :: "nat \<Rightarrow> udp_system \<Rightarrow> bool" where
  "traffic_inv k s \<longleftrightarrow>
     (let sh = sys_shared s; tot = cnt_total (us_counters sh) in
      unat (as_packets_sent tot) + sum_list (map pass_packets (sys_workers s)) \<le> length (us_wire sh)
      \<and> unat (as_bytes_sent tot) + sum_list (map pass_bytes (sys_workers s)) \<le> wire_bytes sh
      \<and> length (us_wire sh) \<le> k \<and> wire_bytes sh \<le> k * UDP_PKT)"

lemma traffic_inv_run:
  assumes "udp_run own_id payload (udp_system_new hosts dests) k s" "payload \<noteq> []" "k * UDP_PKT < 2 ^ 64"
  shows "traffic_inv k s"
proof -
  let ?I = "\<lambda>k s. workers_ok own_id payload s \<and> (k * UDP_PKT < 2 ^ 64 \<longrightarrow> traffic_inv k s)"
  from assms(1) have "?I k s"
  proof (rule udp_run_invariant [where I = ?I])
    show "?I 0 (udp_system_new hosts dests)"
      using workers_ok_run [OF udp_run.start assms(2)]
      by (simp add: traffic_inv_def Let_def udp_system_new_def wire_bytes_def
          counters_new_def atom_stats_default_def comp_def case_prod_beta pass_packets_def pass_bytes_def udp_worker_new_def)
  next
    fix k s i ok w sh
    assume I: "?I k s" and i: "i < length (sys_workers s)"
      and step: "udp_send_step own_id payload (sys_cancel s) ok (sys_workers s ! i, sys_shared s) = (w, sh)"
    let ?w = "sys_workers s ! i"
    have ok: "worker_ok own_id payload ?w" using I i by (auto simp: workers_ok_def)
    have "traffic_inv (Suc k) (s\<lparr>sys_workers := (sys_workers s)[i := w], sys_shared := sh\<rparr>)"
      if k: "Suc k * UDP_PKT < 2 ^ 64"
    proof -
      have J: "traffic_inv k s" using I k by simp
      have up: "sum_list (map f ((sys_workers s)[i := w])) + f ?w = sum_list (map f (sys_workers s)) + (f w :: nat)" for f
        using i by (rule sum_list_update_nat)
      have le: "f ?w \<le> sum_list (map f (sys_workers s))" for f :: "udp_worker \<Rightarrow> nat"
        using i by (intro member_le_sum_list) auto
      have "k < 2 ^ 64" using k by (simp add: UDP_PKT_def)
      then have "unat (as_packets_sent (cnt_total (us_counters (sys_shared s)))) + pass_packets ?w < 2 ^ 64"
          "unat (as_bytes_sent (cnt_total (us_counters (sys_shared s)))) + pass_bytes ?w < 2 ^ 64"
        using J k le [of pass_packets] le [of pass_bytes] by (auto simp: traffic_inv_def Let_def)
      from traffic_step [OF step ok assms(2) this]
      show ?thesis
        using J up [of pass_packets] up [of pass_bytes] by (auto simp: traffic_inv_def Let_def)
    qed
    then show "?I (Suc k) (s\<lparr>sys_workers := (sys_workers s)[i := w], sys_shared := sh\<rparr>)"
      using I workers_ok_step [OF _ i assms(2) step] by simp
  qed (auto simp: workers_ok_def traffic_inv_def Let_def)
  then show ?thesis using assms(3) by simp
qed

text \<open>What a worker has counted for the whole test and not yet for its peer.\<close>

definition drop_debt :: "udp_worker \<Rightarrow> u64" where
  "drop_debt w = (if uw_pc w = Failed_peer then 1 else 0)"

definition sent_debt :: "u64 \<Rightarrow> udp_worker \<Rightarrow> u64" where
  "sent_debt x w = (if uw_pc w = Done_peer then x else 0)"

definition balance_inv :: "byte list \<Rightarrow> udp_system \<Rightarrow> bool" where
  "balance_inv payload s \<longleftrightarrow>
     (let c = us_counters (sys_shared s); ws = sys_workers s in
      (\<forall>w\<in>set ws. \<exists>j<length (cnt_peers c). uw_peer w = Some j)
      \<and> as_packets_dropped (cnt_total c) = sum_list (map as_packets_dropped (cnt_peers c)) + sum_list (map drop_debt ws)
      \<and> as_bytes_sent (cnt_total c) = sum_list (map as_bytes_sent (cnt_peers c))
          + sum_list (map (sent_debt (of_nat (length payload))) ws)
      \<and> as_packets_sent (cnt_total c) = sum_list (map as_packets_sent (cnt_peers c))
          + sum_list (map (sent_debt (max (of_nat (div_ceil (length payload) udp_chunk)) 1)) ws))"

lemma balance_step:
  assumes "udp_send_step own_id payload c ok (w, sh) = (w', sh')"
    and "uw_peer w = Some j" "j < length (cnt_peers (us_counters sh))"
  shows "length (cnt_peers (us_counters sh')) = length (cnt_peers (us_counters sh))
    \<and> as_packets_dropped (cnt_total (us_counters sh')) - sum_list (map as_packets_dropped (cnt_peers (us_counters sh')))
        = as_packets_dropped (cnt_total (us_counters sh)) - sum_list (map as_packets_dropped (cnt_peers (us_counters sh)))
          + (drop_debt w' - drop_debt w)
    \<and> as_bytes_sent (cnt_total (us_counters sh')) - sum_list (map as_bytes_sent (cnt_peers (us_counters sh')))
        = as_bytes_sent (cnt_total (us_counters sh)) - sum_list (map as_bytes_sent (cnt_peers (us_counters sh)))
          + (sent_debt (of_nat (length payload)) w' - sent_debt (of_nat (length payload)) w)
    \<and> as_packets_sent (cnt_total (us_counters sh')) - sum_list (map as_packets_sent (cnt_peers (us_counters sh')))
        = as_packets_sent (cnt_total (us_counters sh)) - sum_list (map as_packets_sent (cnt_peers (us_counters sh)))
          + (sent_debt (max (of_nat (div_ceil (length payload) udp_chunk)) 1) w'
             - sent_debt (max (of_nat (div_ceil (length payload) udp_chunk)) 1) w)"
proof -
  have "w' = w \<and> sh' = sh \<or> drop_debt w = 0 \<and> drop_debt w' = 0 \<and> (\<forall>x. sent_debt x w = 0 \<and> sent_debt x w' = 0)
      \<and> us_counters sh' = us_counters sh
    \<or> uw_pc w \<in> {Failed_peer, Done_peer} \<and> w' = w\<lparr>uw_pc := Loop_head\<rparr>
    \<or> (\<exists>off n. uw_pc w = Sending off n \<and> w' = w\<lparr>uw_pc := Failed_peer\<rparr>
         \<and> us_counters sh' = on_total (add_drop 1) (us_counters sh))
    \<or> (\<exists>off. uw_pc w = Next_chunk off \<and> w' = w\<lparr>uw_pc := Done_peer\<rparr>
         \<and> us_counters sh' = on_total (add_sent (of_nat (length payload))
             (max (of_nat (div_ceil (length payload) udp_chunk)) 1)) (us_counters sh))"
    using assms(1)
    by (auto simp: udp_send_step_def drop_debt_def sent_debt_def Let_def
        split: udp_pc.splits if_splits prod.splits option.splits)
  then show ?thesis
    using assms
    by (elim disjE conjE exE insertE)
      (auto simp: udp_send_step_def drop_debt_def sent_debt_def sum_list_update_word)
qed

lemma balance_inv_step:
  assumes "balance_inv payload s" "i < length (sys_workers s)"
    and step: "udp_send_step own_id payload c ok (sys_workers s ! i, sys_shared s) = (w, sh)"
  shows "balance_inv payload (s\<lparr>sys_workers := (sys_workers s)[i := w], sys_shared := sh\<rparr>)"
proof -
  let ?w = "sys_workers s ! i"
  obtain j where j: "uw_peer ?w = Some j" "j < length (cnt_peers (us_counters (sys_shared s)))"
    using assms(1,2) nth_mem unfolding balance_inv_def Let_def by blast
  note b = balance_step [OF step j]
  have up: "sum_list (map f ((sys_workers s)[i := w])) = sum_list (map f (sys_workers s)) + (f w - f ?w)"
    for f :: "udp_worker \<Rightarrow> u64"
    using assms(2) by (rule sum_list_update_word)
  have peers: "\<exists>j<length (cnt_peers (us_counters sh)). uw_peer v = Some j" if "v \<in> set ((sys_workers s)[i := w])" for v
  proof -
    have "v = w \<or> v \<in> set (sys_workers s)" using that set_update_subset_insert [of "sys_workers s" i w] by auto
    then show ?thesis using assms(1) j step_identity [OF step] b by (auto simp: balance_inv_def Let_def)
  qed
  have shift: "a = p + r" if "a - p = r" for a p r :: u64
    using that by (simp add: algebra_simps)
  show ?thesis
    unfolding balance_inv_def Let_def
    using assms(1) b peers unfolding balance_inv_def Let_def
    by (simp add: up) (elim conjE, intro conjI; rule shift; assumption)
qed

lemma balance_inv_run:
  assumes "udp_run own_id payload (udp_system_new hosts dests) k s" "\<forall>(a, d)\<in>set dests. unat d < length hosts"
  shows "balance_inv payload s"
  using assms(1)
proof (rule udp_run_invariant [where I = "\<lambda>_. balance_inv payload"])
  have "sum_list (map f (sys_workers (udp_system_new hosts dests))) = 0" if "\<And>a d p. f (udp_worker_new a d p) = 0"
    for f :: "udp_worker \<Rightarrow> u64"
    using that by (auto simp: udp_system_new_def comp_def case_prod_beta)
  moreover have "sum_list (map f (cnt_peers (counters_new hosts))) = 0" if "f atom_stats_default = 0"
    for f :: "atom_stats \<Rightarrow> u64"
    using that by (simp add: counters_new_def comp_def)
  ultimately show "balance_inv payload (udp_system_new hosts dests)"
    using assms(2)
    by (auto simp: balance_inv_def Let_def drop_debt_def sent_debt_def udp_worker_new_def atom_stats_default_def)
      (auto simp: udp_system_new_def udp_worker_new_def counters_peer_def counters_new_def atom_stats_default_def)
next
  fix s :: udp_system
  assume "balance_inv payload s"
  then show "balance_inv payload (s\<lparr>sys_cancel := True\<rparr>)" by (simp add: balance_inv_def)
qed (rule balance_inv_step)

section \<open>Scheduled runs\<close>

text \<open>Running a schedule: which worker moves, and whether a send at that point succeeds.\<close>

fun udp_exec :: "u32 \<Rightarrow> byte list \<Rightarrow> (nat \<times> bool) list \<Rightarrow> udp_system \<Rightarrow> udp_system" where
  "udp_exec own_id payload [] s = s"
| "udp_exec own_id payload ((i, ok) # sched) s =
     udp_exec own_id payload sched
       (if i < length (sys_workers s)
        then (case udp_send_step own_id payload (sys_cancel s) ok (sys_workers s ! i, sys_shared s) of
                (w, sh) \<Rightarrow> s\<lparr>sys_workers := (sys_workers s)[i := w], sys_shared := sh\<rparr>)
        else s\<lparr>sys_cancel := True\<rparr>)"

lemma udp_exec_run:
  "udp_run own_id payload s0 k s \<Longrightarrow> udp_run own_id payload s0 (k + length sched) (udp_exec own_id payload sched s)"
proof (induction own_id payload sched s arbitrary: k rule: udp_exec.induct)
  case (2 own_id payload i ok sched s)
  have "udp_step own_id payload s
       (if i < length (sys_workers s)
        then (case udp_send_step own_id payload (sys_cancel s) ok (sys_workers s ! i, sys_shared s) of
                (w, sh) \<Rightarrow> s\<lparr>sys_workers := (sys_workers s)[i := w], sys_shared := sh\<rparr>)
        else s\<lparr>sys_cancel := True\<rparr>)"
    by (auto split: prod.split intro: udp_step.intros)
  from "2.IH" [OF udp_run.step [OF "2.prems" this]] show ?case by simp
qed simp

lemma fill_pkt_eq:
  "length pkt = UDP_PKT \<Longrightarrow> length chunk \<le> udp_chunk \<Longrightarrow>
    fill_pkt i s chunk pkt = Some (hdr_bytes i s (of_nat (length chunk)) @ chunk @ drop (UDP_HDR + length chunk) pkt)"
  by (simp add: fill_pkt_def write_hdr_bytes copy_into_def udp_chunk_def UDP_PKT_def UDP_HDR_def add.commute)

lemma min_1_chunk: "min (Suc 0) udp_chunk = Suc 0" "udp_chunk \<noteq> 0"  "Suc 0 \<le> udp_chunk"
  using udp_chunk_pos by auto

lemma overtaking_wire:
  "us_wire (sys_shared (udp_exec 0 [7]
      [(2, True), (2, True), (2, True), (0, True), (0, True), (1, True), (1, True), (1, True), (0, True)]
      (udp_system_new [''a'', ''b''] [(dest, 1), (dest, 1), (dest, 1)]))) =
    [(1, dest, hdr_bytes 0 0 1 @ [7]), (1, dest, hdr_bytes 0 2 1 @ [7]), (1, dest, hdr_bytes 0 1 1 @ [7])]"
  by (simp add: udp_system_new_def udp_worker_new_def udp_send_step_def fetch_seq_def fill_pkt_eq min_1_chunk
      subslice_def Let_def)

lemma refilled_length: "Suc (UDP_HDR + (UDP_PKT - Suc UDP_HDR)) = UDP_PKT"
  by (simp add: UDP_PKT_def UDP_HDR_def)

definition three_writes :: "(nat \<times> bool) list" where
  "three_writes = replicate 15 (0, True)"

lemma udp_exec_append:
  "udp_exec own_id payload (xs @ ys) s = udp_exec own_id payload ys (udp_exec own_id payload xs s)"
  by (induction own_id payload xs s rule: udp_exec.induct) simp_all

text \<open>One worker at rest, about to take a number.\<close>

definition at_rest :: "socket_addr \<Rightarrow> u64 \<Rightarrow> (u32 \<times> socket_addr \<times> byte list) list \<Rightarrow> udp_system \<Rightarrow> bool" where
  "at_rest dest q wire s \<longleftrightarrow>
     (\<exists>p pkt c. length pkt = UDP_PKT \<and> s =
        \<lparr>sys_cancel = False,
         sys_workers = [\<lparr>uw_dest = dest, uw_dest_id = 1, uw_peer = p, uw_pkt = pkt, uw_pc = Loop_head\<rparr>],
         sys_shared = \<lparr>us_seqs = [0, q], us_counters = c, us_wire = wire\<rparr>\<rparr>)"

lemma at_rest_write:
  assumes "at_rest dest q wire s"
  shows "at_rest dest (q + 1) (wire @ [(1, dest, hdr_bytes 0 q 1 @ [7])]) (udp_exec 0 [7] (replicate 5 (0, True)) s)"
proof -
  have "udp_chunk = Suc (udp_chunk - 1)" using udp_chunk_pos by simp
  moreover have "replicate 5 (0 :: nat, True) = [(0, True), (0, True), (0, True), (0, True), (0, True)]"
    by (simp add: eval_nat_numeral)
  ultimately show ?thesis
    using assms unfolding at_rest_def
    by (elim exE conjE)
      (simp add: udp_send_step_def fetch_seq_def fill_pkt_eq min_1_chunk subslice_def Let_def refilled_length)
qed

lemma three_writes_wire:
  "us_wire (sys_shared (udp_exec 0 [7] three_writes (udp_system_new [''a'', ''b''] [(dest, 1)]))) =
    map (\<lambda>q. (1, dest, hdr_bytes 0 q 1 @ [7])) [0, 1, 2]"
proof -
  let ?five = "replicate 5 (0 :: nat, True)"
  have split: "three_writes = ?five @ ?five @ ?five" by (simp add: three_writes_def flip: replicate_add)
  have "at_rest dest 0 [] (udp_system_new [''a'', ''b''] [(dest, 1)])"
    by (simp add: at_rest_def udp_system_new_def udp_worker_new_def min_1_chunk)
  from at_rest_write [OF at_rest_write [OF at_rest_write [OF this]]]
  show ?thesis by (auto simp: split udp_exec_append at_rest_def simp del: replicate.simps)
qed

text \<open>The datagrams taken by the socket for a destination, oldest first.\<close>

definition wire_to :: "u32 \<Rightarrow> udp_system \<Rightarrow> byte list list" where
  "wire_to d s = map (\<lambda>(_, _, p). p) (filter (\<lambda>(d', _, _). d' = d) (us_wire (sys_shared s)))"

lemma sent_to_wire_to: "sent_to d (sys_shared s) = map pkt_seq (wire_to d s)"
  by (simp add: sent_to_def wire_to_def case_prod_beta comp_def)

lemma from_sender_accepted:
  "\<forall>p\<in>set ds. \<exists>l. accepted p = Some (i, pkt_seq p, l) \<Longrightarrow> map fst (from_sender i ds) = map pkt_seq ds"
  by (induction ds) auto

lemma wire_to_ok:
  assumes "workers_ok own_id payload s" "p \<in> set (wire_to d s)"
  shows "length p \<le> 65536 \<and> (\<exists>l. accepted p = Some (own_id, pkt_seq p, l))"
  using assms by (fastforce simp: workers_ok_def wire_to_def UDP_PKT_def)

lemma single_worker_new:
  assumes "length (filter (\<lambda>(_, e). e = d) dests) \<le> 1"
  shows "single_worker d (udp_system_new hosts dests)"
  unfolding single_worker_def
proof (intro allI impI)
  let ?ws = "sys_workers (udp_system_new hosts dests)"
  have id: "uw_dest_id (?ws ! i) = snd (dests ! i)" if "i < length dests" for i
    using that by (simp add: udp_system_new_def udp_worker_new_def case_prod_beta)
  fix i j assume "i < length ?ws" "j < length ?ws" "uw_dest_id (?ws ! i) = d" "uw_dest_id (?ws ! j) = d"
  then have ij: "{i, j} \<subseteq> {k. k < length dests \<and> snd (dests ! k) = d}"
    using id by (auto simp: udp_system_new_def)
  have "card {i, j} \<le> card {k. k < length dests \<and> snd (dests ! k) = d}"
    by (rule card_mono [OF _ ij]) simp
  also have "\<dots> \<le> 1" using assms by (simp add: length_filter_conv_card case_prod_beta)
  finally show "i = j" by (cases "i = j") auto
qed

lemma card_missing_sorted:
  fixes n :: nat
  assumes "sorted (n # ns)"
  shows "{n..Max (set (n # ns))} = {n..last (n # ns)}"
proof -
  have "Max (set (n # ns)) = last (n # ns)"
  proof (rule Max_eqI)
    fix y assume "y \<in> set (n # ns)"
    then obtain i where "i < length (n # ns)" "y = (n # ns) ! i" by (metis in_set_conv_nth)
    then show "y \<le> last (n # ns)"
      using sorted_nth_mono [OF assms, of i "length (n # ns) - 1"] last_conv_nth [of "n # ns"]
      by (simp del: last.simps)
  qed simp_all
  then show ?thesis by simp
qed

lemma subseq_sorted_wrt: "subseq xs ys \<Longrightarrow> sorted_wrt P ys \<Longrightarrow> sorted_wrt P xs"
  by (induction rule: list_emb.induct) (auto dest: list_emb_set)

section \<open>Properties\<close>

text \<open>C13: whatever the interleaving of the workers, no worker ever indexes its packet buffer out of
  range, every datagram handed to the socket is one the receiver accepts from this sender, and no
  sequence number goes out twice to the same destination.\<close>

theorem udp_senders_safe:
  assumes "udp_run own_id payload (udp_system_new hosts dests) k s" "payload \<noteq> []" "k < 2 ^ 64"
    and "unat d < length hosts"
  shows "(\<forall>w\<in>set (sys_workers s). uw_pc w \<noteq> Panicked)
    \<and> (\<forall>p\<in>set (wire_to d s). \<exists>l. accepted p = Some (own_id, pkt_seq p, l))
    \<and> distinct (map pkt_seq (wire_to d s))"
  using workers_ok_run [OF assms(1,2)] wire_to_ok seq_inv_run [OF assms]
  by (auto simp: workers_ok_def worker_ok_def seq_inv_def Let_def simp flip: sent_to_wire_to)

theorem udp_senders_safe_witness:
  "distinct (map pkt_seq (wire_to 1 (udp_exec 0 [7] [(0, True), (0, True), (0, True)]
     (udp_system_new [''a'', ''b''] [(SockV4 0 9, 1)]))))"
  by (rule udp_senders_safe [OF udp_exec_run [OF udp_run.start], THEN conjunct2, THEN conjunct2]) simp_all

text \<open>C22: the sent counters never run ahead of the wire: the packets and bytes counted as sent are at
  most those the socket took, at every moment of every interleaving.\<close>

theorem udp_counters_behind_wire:
  assumes "udp_run own_id payload (udp_system_new hosts dests) k s" "payload \<noteq> []" "k * UDP_PKT < 2 ^ 64"
  shows "unat (as_packets_sent (cnt_total (us_counters (sys_shared s)))) \<le> length (us_wire (sys_shared s))
    \<and> unat (as_bytes_sent (cnt_total (us_counters (sys_shared s)))) \<le> wire_bytes (sys_shared s)"
  using traffic_inv_run [OF assms] by (auto simp: traffic_inv_def Let_def)

theorem udp_counters_behind_wire_witness:
  "unat (as_packets_sent (cnt_total (us_counters (sys_shared (udp_exec 0 [7] [(0, True), (0, True), (0, True), (0, True)]
     (udp_system_new [''a'', ''b''] [(SockV4 0 9, 1)]))))))
    \<le> length (us_wire (sys_shared (udp_exec 0 [7] [(0, True), (0, True), (0, True), (0, True)]
     (udp_system_new [''a'', ''b''] [(SockV4 0 9, 1)]))))"
  by (rule udp_counters_behind_wire [OF udp_exec_run [OF udp_run.start], THEN conjunct1])
    (simp_all add: UDP_PKT_def)

text \<open>C21: whenever no worker is between its two counter updates, what the whole test counts as sent
  and dropped is the sum over the peers.\<close>

theorem udp_sender_totals:
  assumes "udp_run own_id payload (udp_system_new hosts dests) k s" "\<forall>(a, d)\<in>set dests. unat d < length hosts"
    and "\<forall>w\<in>set (sys_workers s). uw_pc w \<noteq> Failed_peer \<and> uw_pc w \<noteq> Done_peer"
  defines "c \<equiv> us_counters (sys_shared s)"
  shows "as_bytes_sent (cnt_total c) = sum_list (map as_bytes_sent (cnt_peers c))
    \<and> as_packets_sent (cnt_total c) = sum_list (map as_packets_sent (cnt_peers c))
    \<and> as_packets_dropped (cnt_total c) = sum_list (map as_packets_dropped (cnt_peers c))"
proof -
  have "sum_list (map f (sys_workers s)) = 0"
    if "\<And>w. uw_pc w \<noteq> Failed_peer \<Longrightarrow> uw_pc w \<noteq> Done_peer \<Longrightarrow> f w = 0" for f :: "udp_worker \<Rightarrow> u64"
  proof -
    have "map f (sys_workers s) = map (\<lambda>_. 0) (sys_workers s)" using that assms(3) by (intro map_cong) auto
    then show ?thesis by (simp only: sum_list_0)
  qed
  with balance_inv_run [OF assms(1,2)] show ?thesis
    by (simp add: balance_inv_def Let_def c_def drop_debt_def sent_debt_def)
qed

theorem udp_sender_totals_witness:
  "as_packets_sent (cnt_total (us_counters (sys_shared (udp_exec 0 [7] [(0, True), (0, True), (0, True), (0, True), (0, True)]
     (udp_system_new [''a'', ''b''] [(SockV4 0 9, 1)])))))
   = sum_list (map as_packets_sent (cnt_peers (us_counters (sys_shared (udp_exec 0 [7]
     [(0, True), (0, True), (0, True), (0, True), (0, True)] (udp_system_new [''a'', ''b''] [(SockV4 0 9, 1)]))))))"
proof -
  let ?init = "udp_system_new [''a'', ''b''] [(SockV4 0 9, 1)]"
  let ?sched = "[(0, True), (0, True), (0, True), (0, True), (0, True)]"
  have "\<forall>w\<in>set (sys_workers (udp_exec 0 [7] ?sched ?init)). uw_pc w \<noteq> Failed_peer \<and> uw_pc w \<noteq> Done_peer"
    by (simp add: udp_system_new_def udp_worker_new_def udp_send_step_def fetch_seq_def fill_pkt_eq min_1_chunk
        subslice_def Let_def)
  from udp_sender_totals [OF udp_exec_run [OF udp_run.start] _ this, THEN conjunct2, THEN conjunct1]
  show ?thesis by (rule meta_mp) auto
qed

text \<open>C3: with one worker for a destination and a network that loses datagrams but does not reorder
  or repeat them, the drops that the receiver counts for this sender are exactly the sequence numbers
  between the first and the last delivered one that were not delivered.\<close>

theorem udp_end_to_end_loss:
  assumes run: "udp_run own_id payload (udp_system_new hosts dests) k s" "payload \<noteq> []" "k < 2 ^ 64"
    and dest: "unat d < length hosts" "length (filter (\<lambda>(_, e). e = d) dests) \<le> 1"
    and sender: "unat own_id < length hosts" "own_id \<noteq> d"
    and delivered: "subseq ds (wire_to d s)" "map (unat \<circ> pkt_seq) ds = n # ns"
  shows "unat (as_packets_dropped (cnt_peers (fst (udp_recv_loop (length hosts) d
      (map Received ds @ [Recv_cancelled]) (udp_recv_init hosts))) ! unat own_id))
    = card ({n..last (n # ns)} - set (n # ns))"
proof -
  note inv = seq_inv_run [OF run dest(1)]
  have ok: "\<forall>p\<in>set ds. length p \<le> 65536 \<and> (\<exists>l. accepted p = Some (own_id, pkt_seq p, l))"
    using wire_to_ok [OF workers_ok_run [OF run(1,2)]] list_emb_set [OF delivered(1)] by blast
  then have carried: "map fst (from_sender own_id ds) = map pkt_seq ds" by (intro from_sender_accepted) blast
  then obtain x xs where x: "map fst (from_sender own_id ds) = x # xs" "n = unat x" "ns = map unat xs"
    using delivered(2) by (cases ds) auto
  have in_wire: "set ds \<subseteq> set (wire_to d s)" using list_emb_set [OF delivered(1)] by blast
  have below: "\<forall>q\<in>set (x # xs). unat q < 2 ^ 64 - 1"
  proof
    fix q assume "q \<in> set (x # xs)"
    then have "q \<in> set (sent_to d (sys_shared s))"
      using in_wire x(1) carried by (metis (no_types, lifting) sent_to_wire_to set_map image_mono subsetD)
    then have "unat q < unat (us_seqs (sys_shared s) ! unat d)"
      using inv by (auto simp: seq_inv_def Let_def word_less_nat_alt)
    then show "unat q < 2 ^ 64 - 1" using inv run(3) by simp
  qed
  have "sorted_wrt (<) (map pkt_seq (wire_to d s))"
    using inv single_worker_new [OF dest(2)] by (simp add: order_inv_def sent_to_wire_to)
  from subseq_sorted_wrt [OF subseq_map [OF delivered(1), of pkt_seq] this]
  have "sorted_wrt (<) (x # xs)" using x(1) carried by simp
  then have sorted: "sorted (n # ns)"
    using x(2,3) by (auto simp: sorted_wrt_map word_less_nat_alt elim: sorted_wrt_mono_rel [rotated])
  have "unat (as_packets_dropped (received_stats (from_sender own_id ds) None atom_stats_default))
      = card (skipped n (n # ns))"
    using dropped_of_received [OF x(1) below] x(2,3) by simp
  moreover have "skipped n (n # ns) = {n..Max (set (n # ns))} - set (n # ns)"
    by (rule skipped_sorted_Max [OF sorted])
  ultimately show ?thesis
    using udp_loop_peer [of ds own_id hosts d "[]"] ok sender card_missing_sorted [OF sorted] by auto
qed

theorem udp_end_to_end_loss_witness:
  "unat (as_packets_dropped (cnt_peers (fst (udp_recv_loop (length [''a'', ''b'']) 1
      (map Received [hdr_bytes 0 0 1 @ [7], hdr_bytes 0 2 1 @ [7]] @ [Recv_cancelled])
      (udp_recv_init [''a'', ''b'']))) ! unat (0 :: u32)))
    = card ({0..last (0 # [2])} - set (0 # [2 :: nat]))"
proof (rule udp_end_to_end_loss [OF udp_exec_run [OF udp_run.start]])
  show "subseq [hdr_bytes 0 0 1 @ [7], hdr_bytes 0 2 1 @ [7]]
    (wire_to 1 (udp_exec 0 [7] three_writes (udp_system_new [''a'', ''b''] [(SockV4 0 9, 1)])))"
    by (simp add: wire_to_def three_writes_wire)
qed (simp_all add: three_writes_def)

text \<open>With several workers for one destination the sequence counter alone cannot tell reordering
  from loss: a worker can fetch a number and be overtaken by another before it sends, and the receiver
  then counts a drop although every datagram sent was delivered, in the order it was sent.\<close>

theorem udp_overtaking_counts_drop:
  "\<exists>s. udp_run 0 [7] (udp_system_new [''a'', ''b''] [(SockV4 0 9, 1), (SockV4 0 9, 1), (SockV4 0 9, 1)]) 9 s
    \<and> map pkt_seq (wire_to 1 s) = [0, 2, 1]
    \<and> as_packets_dropped (cnt_peers (fst (udp_recv_loop 2 1 (map Received (wire_to 1 s) @ [Recv_cancelled])
        (udp_recv_init [''a'', ''b'']))) ! 0) = 1"
proof (intro exI conjI)
  let ?init = "udp_system_new [''a'', ''b''] [(SockV4 0 9, 1), (SockV4 0 9, 1), (SockV4 0 9, 1)]"
  let ?sched = "[(2, True), (2, True), (2, True), (0, True), (0, True), (1, True), (1, True), (1, True), (0, True)]"
  let ?s = "udp_exec 0 [7] ?sched ?init"
  have steps: "0 + length ?sched = 9" by simp
  show "udp_run 0 [7] ?init 9 ?s"
    using udp_exec_run [OF udp_run.start, of 0 "[7]" _ ?sched] unfolding steps .
  have wire: "wire_to 1 ?s = [hdr_bytes 0 0 1 @ [7], hdr_bytes 0 2 1 @ [7], hdr_bytes 0 1 1 @ [7]]"
    by (simp only: wire_to_def overtaking_wire) simp
  show "map pkt_seq (wire_to 1 ?s) = [0, 2, 1]" by (simp only: wire) simp
  show "as_packets_dropped (cnt_peers (fst (udp_recv_loop 2 1 (map Received (wire_to 1 ?s) @ [Recv_cancelled])
      (udp_recv_init [''a'', ''b'']))) ! 0) = 1"
    unfolding wire by code_simp
qed

end
