(* ===== verification/Config.thy ===== *)
theory Config
  imports Wire
begin

text \<open>
  \<open>src/src/config.rs\<close>: the configuration record, the size syntax, the expansion of host patterns,
  validation, and the reading of a configuration file. The TOML parser is a parameter that yields
  the table of a document; what \<open>serde\<close> derives for \<open>ConfigFile\<close> is written out.
\<close>

section \<open>Data\<close>

datatype network = Tcp | Udp
datatype test_type = Pairs | Mesh

definition show_network :: "network \<Rightarrow> string" where
  "show_network n = (case n of Tcp \<Rightarrow> ''tcp'' | Udp \<Rightarrow> ''udp'')"

definition show_test_type :: "test_type \<Rightarrow> string" where
  "show_test_type t = (case t of Pairs \<Rightarrow> ''pairs'' | Mesh \<Rightarrow> ''mesh'')"

record config =
  client_addr :: string
  test_addr :: string
  cfg_network :: network
  payload_size :: u64
  workers :: u32
  cfg_type :: test_type
  hostlist :: "string list"
  hostlist_raw :: "string list"
  tag :: string

definition DEFAULT_CLIENT_ADDR :: string where "DEFAULT_CLIENT_ADDR = ''0.0.0.0:7777''"
definition DEFAULT_PAYLOAD_SIZE :: u64 where "DEFAULT_PAYLOAD_SIZE = 100 * 1024 * 1024"
definition DEFAULT_WORKERS :: u32 where "DEFAULT_WORKERS = 10"

datatype config_error =
    EmptySize
  | InvalidSize string
  | InvalidSizeNumber string
  | NegativeSize
  | UnknownUnit string string
  | SizeOutOfRange string
  | DuplicateHost string
  | InvalidEllipsis string
  | EllipsisStart string
  | EllipsisEnd string
  | TooManyHosts string nat
  | UnterminatedBrace string
  | InvalidTag string
  | NoWorkers
  | NoPayload
  | NoHosts
  | TooFewHosts nat
  | BadClientAddr string net_error
  | ClientPortZero
  | BadTestAddr string net_error
  | NoTestHost
  | TestPortZero
  | UnspecifiedTestAddr
  | BadToml

text \<open>\<open>?\<close> on a result.\<close>

definition bind_result :: "'e + 'a \<Rightarrow> ('a \<Rightarrow> 'e + 'b) \<Rightarrow> 'e + 'b" where
  "bind_result r f = (case r of Inl e \<Rightarrow> Inl e | Inr x \<Rightarrow> f x)"

lemma bind_result_simps [simp]: "bind_result (Inl e) f = Inl e" "bind_result (Inr x) f = f x"
  by (simp_all add: bind_result_def)

lemma bind_result_Inr: "bind_result r f = Inr y \<longleftrightarrow> (\<exists>x. r = Inr x \<and> f x = Inr y)"
  by (cases r) auto

lemma map_sum_Inr_iff: "map_sum f g r = Inr y \<longleftrightarrow> (\<exists>x. r = Inr x \<and> y = g x)"
  by (cases r) auto

text \<open>\<open>for x in xs { out.extend(f(x)?) }\<close>\<close>

fun extend_all :: "('a \<Rightarrow> 'e + 'b list) \<Rightarrow> 'a list \<Rightarrow> 'e + 'b list" where
  "extend_all f [] = Inr []"
| "extend_all f (x # xs) =
     bind_result (f x) (\<lambda>ys. bind_result (extend_all f xs) (\<lambda>zs. Inr (ys @ zs)))"

lemma extend_all_cong [fundef_cong]:
  "xs = ys \<Longrightarrow> (\<And>x. x \<in> set ys \<Longrightarrow> f x = g x) \<Longrightarrow> extend_all f xs = extend_all g ys"
  by (induction xs arbitrary: ys) auto

lemma extend_all_Inr:
  "extend_all f xs = Inr zs \<longleftrightarrow> (\<exists>yss. list_all2 (\<lambda>x ys. f x = Inr ys) xs yss \<and> zs = concat yss)"
  by (induction xs arbitrary: zs) (auto simp: bind_result_Inr list_all2_Cons1, metis concat.simps(2))

lemma extend_all_total:
  "(\<And>x. x \<in> set xs \<Longrightarrow> f x = Inr (g x)) \<Longrightarrow> extend_all f xs = Inr (concat (map g xs))"
  by (induction xs) auto

section \<open>Sizes\<close>

definition digits_value :: "string \<Rightarrow> nat" where
  "digits_value s = from_base 10 (map (\<lambda>c. of_char c - 48) s)"

text \<open>\<open>f64::from_str\<close> on a string of digits and dots: at least one digit, at most one dot, the
  decimal value correctly rounded.\<close>

definition parse_f64 :: "string \<Rightarrow> f64 option" where
  "parse_f64 s =
     (let (a, b) = (case split_once ''.'' s of None \<Rightarrow> (s, []) | Some p \<Rightarrow> p) in
      if (a \<noteq> [] \<or> b \<noteq> []) \<and> list_all is_ascii_digit (a @ b)
      then Some (rnd (of_nat (digits_value (a @ b)) / 10 ^ length b)) else None)"

definition unit_factor :: "string \<Rightarrow> f64 option" where
  "unit_factor u =
     (if u = [] \<or> u = ''b'' then Some (Fin 1)
      else if u = ''k'' \<or> u = ''kb'' then Some (Fin 1000)
      else if u = ''ki'' \<or> u = ''kib'' then Some (Fin 1024)
      else if u = ''m'' \<or> u = ''mb'' then Some (fmul (Fin 1000) (Fin 1000))
      else if u = ''mi'' \<or> u = ''mib'' then Some (fmul (Fin 1024) (Fin 1024))
      else if u = ''g'' \<or> u = ''gb'' then Some (fmul (fmul (Fin 1000) (Fin 1000)) (Fin 1000))
      else if u = ''gi'' \<or> u = ''gib'' then Some (fmul (fmul (Fin 1024) (Fin 1024)) (Fin 1024))
      else None)"

definition parse_size :: "string \<Rightarrow> config_error + u64" where
  "parse_size s0 =
     (let s = trim s0 in
      if s = [] then Inl EmptySize
      else case parse_u64 s of Some n \<Rightarrow> Inr n
      | None \<Rightarrow>
        let i = length (takeWhile (\<lambda>c. is_ascii_digit c \<or> c = CHR ''.'') s) in
        if i = 0 then Inl (InvalidSize s)
        else case parse_f64 (take i s) of None \<Rightarrow> Inl (InvalidSizeNumber s)
        | Some num \<Rightarrow>
          if flt num (Fin 0) then Inl NegativeSize
          else
            let u = to_ascii_lowercase (trim (drop i s)) in
            case unit_factor u of None \<Rightarrow> Inl (UnknownUnit u s)
            | Some m \<Rightarrow>
              let v = fmul num m in
              if (case v of Fin _ \<Rightarrow> False | _ \<Rightarrow> True) \<or> flt (f64_of_u64 (-1)) v then Inl (SizeOutOfRange s)
              else Inr (u64_of_f64 (fround v)))"

section \<open>Host patterns\<close>

definition split_hosts :: "string \<Rightarrow> string list" where
  "split_hosts s = filter (\<lambda>x. x \<noteq> []) (map trim (split_char (CHR '','') s))"

definition is_range_inner :: "string \<Rightarrow> bool" where
  "is_range_inner inner =
     (case split_once ''..'' inner of
        None \<Rightarrow> False
      | Some (a, b) \<Rightarrow> if a = [] \<or> b = [] then False else list_all is_ascii_digit a \<and> list_all is_ascii_digit b)"

function find_range_at :: "string \<Rightarrow> nat \<Rightarrow> config_error + (nat \<times> nat \<times> string \<times> string) option" where
  "find_range_at s i =
     (if length s \<le> i then Inr None
      else if s ! i \<noteq> CHR ''{'' then find_range_at s (i + 1)
      else case position (\<lambda>c. c = CHR ''}'') (drop (i + 1) s) of
        Some r \<Rightarrow>
          let close = i + 1 + r in
          if is_range_inner (take (close - (i + 1)) (drop (i + 1) s))
          then Inr (Some (i, close, take i s, drop (close + 1) s))
          else find_range_at s (i + 1)
      | None \<Rightarrow> Inl (UnterminatedBrace s))"
  by pat_completeness auto
termination by (relation "measure (\<lambda>(s, i). length s - i)") auto

declare find_range_at.simps [simp del]

definition find_range :: "string \<Rightarrow> config_error + (nat \<times> nat \<times> string \<times> string) option" where
  "find_range s = find_range_at s 0"

text \<open>\<open>format!("{n:0width$}")\<close> and \<open>n.to_string()\<close>\<close>

definition pad_zeros :: "nat \<Rightarrow> int \<Rightarrow> string" where
  "pad_zeros width n =
     (let digits = show_nat (nat \<bar>n\<bar>); sign = (if n < 0 then ''-'' else [])
      in sign @ replicate (width - (length sign + length digits)) (CHR ''0'') @ digits)"

definition range_numbers :: "int \<Rightarrow> int \<Rightarrow> int list" where
  "range_numbers a b = (if a \<le> b then [a..b] else rev [b..a])"

definition range_text :: "string \<Rightarrow> int \<Rightarrow> string" where
  "range_text a_str n =
     (let width = (if 1 < length a_str \<and> prefix ''0'' a_str then length a_str else 0)
      in if 0 < width then pad_zeros width n else show_int n)"

lemma find_range_at_Some:
  "find_range_at s i = Inr (Some (lo, hi, start, fin)) \<Longrightarrow>
    i \<le> lo \<and> lo < hi \<and> hi < length s \<and> s ! lo = CHR ''{'' \<and> s ! hi = CHR ''}''
    \<and> start = take lo s \<and> fin = drop (hi + 1) s \<and> is_range_inner (take (hi - (lo + 1)) (drop (lo + 1) s))"
proof (induction s i rule: find_range_at.induct)
  case (1 s i)
  show ?case
  proof (cases "length s \<le> i \<or> s ! i \<noteq> CHR ''{''")
    case True
    then show ?thesis using 1 by (subst (asm) (3) find_range_at.simps) (auto split: if_splits)
  next
    case False
    then obtain r where r: "position (\<lambda>c. c = CHR ''}'') (drop (i + 1) s) = Some r"
      using "1.prems" by (subst (asm) find_range_at.simps) (auto split: option.splits)
    from position_SomeD [OF this] have rl: "i + 1 + r < length s" "s ! (i + 1 + r) = CHR ''}''"
      by (auto simp: add.commute)
    show ?thesis
    proof (cases "is_range_inner (take r (drop (i + 1) s))")
      case True
      then have "find_range_at s i = Inr (Some (i, i + 1 + r, take i s, drop (i + 1 + r + 1) s))"
        using False r by (subst find_range_at.simps) simp
      then show ?thesis using "1.prems" False rl True by auto
    next
      case inner: False
      then have "find_range_at s i = find_range_at s (i + 1)"
        using False r by (subst find_range_at.simps) simp
      then show ?thesis using "1.IH"(2) [of r "i + 1 + r"] False r inner "1.prems" by auto
    qed
  qed
qed

text \<open>Substituting a number for a range removes a brace: the recursion ends.\<close>

lemma is_ascii_digit_zero: "is_ascii_digit (CHR ''0'')"
  by (simp add: is_ascii_digit_def digit_val_def)

lemma range_text_chars: "c \<in> set (range_text w n) \<Longrightarrow> is_ascii_digit c \<or> c = CHR ''-''"
  by (auto simp: range_text_def pad_zeros_def show_int_def Let_def is_ascii_digit_zero
      dest: show_nat_digits split: if_splits)

lemma range_text_no_brace: "CHR ''{'' \<notin> set (range_text w n)"
  using range_text_chars [of "CHR ''{''" w n] by (auto simp: is_ascii_digit_def digit_val_def)

definition braces :: "string \<Rightarrow> nat" where
  "braces s = count_list s (CHR ''{'')"

lemma braces_substituted:
  assumes "find_range pat = Inr (Some (lo, hi, start, fin))"
  shows "braces (start @ range_text w n @ fin) < braces pat"
proof -
  have f: "lo < hi" "hi < length pat" "pat ! lo = CHR ''{''" "start = take lo pat" "fin = drop (hi + 1) pat"
    using find_range_at_Some [OF assms [unfolded find_range_def]] by auto
  have "drop (hi + 1) pat = drop (hi - lo) (drop (lo + 1) pat)" using f by simp
  then have fin: "count_list fin (CHR ''{'') \<le> count_list (drop (lo + 1) pat) (CHR ''{'')"
    unfolding f(5) by (metis append_take_drop_id count_list_append le_add2)
  have "pat = take lo pat @ pat ! lo # drop (Suc lo) pat"
    by (rule id_take_nth_drop) (use f in simp)
  then have split: "pat = start @ CHR ''{'' # drop (lo + 1) pat" by (simp only: f(3,4) Suc_eq_plus1)
  have "braces pat = count_list (start @ CHR ''{'' # drop (lo + 1) pat) (CHR ''{'')"
    unfolding braces_def by (rule arg_cong2 [where f = count_list, OF split refl])
  then have "braces pat = braces start + Suc (count_list (drop (lo + 1) pat) (CHR ''{''))"
    by (simp add: braces_def)
  then show ?thesis
    using fin range_text_no_brace [of w n] by (simp add: braces_def count_list_0_iff)
qed

function expand_pattern :: "string \<Rightarrow> config_error + string list" where
  "expand_pattern pat =
     (case find_range pat of
        Inl e \<Rightarrow> Inl e
      | Inr None \<Rightarrow> Inr [pat]
      | Inr (Some (lo, hi, start, fin)) \<Rightarrow>
          let spec = take (hi - (lo + 1)) (drop (lo + 1) pat) in
          case split_once ''..'' spec of
            None \<Rightarrow> Inl (InvalidEllipsis pat)
          | Some (a_str, b_str) \<Rightarrow>
            (case parse_i64 a_str of None \<Rightarrow> Inl (EllipsisStart pat)
             | Some a \<Rightarrow>
               (case parse_i64 b_str of None \<Rightarrow> Inl (EllipsisEnd pat)
                | Some b \<Rightarrow>
                  let nums = range_numbers a b in
                  if 10000 < length nums then Inl (TooManyHosts pat (length nums))
                  else extend_all (\<lambda>n. expand_pattern (start @ range_text a_str n @ fin)) nums)))"
  by pat_completeness auto
termination by (relation "measure braces") (auto intro: braces_substituted)

declare expand_pattern.simps [simp del]

text \<open>\<open>seen.insert\<close> fails on a member.\<close>

fun add_hosts :: "string list \<Rightarrow> string list \<Rightarrow> config_error + string list" where
  "add_hosts out [] = Inr out"
| "add_hosts out (h # hs) =
     (if h \<in> set out then Inl (DuplicateHost h) else add_hosts (out @ [h]) hs)"

fun expand_items :: "string list \<Rightarrow> string list \<Rightarrow> config_error + string list" where
  "expand_items out [] = Inr out"
| "expand_items out (item # items) =
     bind_result (expand_pattern item) (\<lambda>hs. bind_result (add_hosts out hs) (\<lambda>out. expand_items out items))"

definition expand_hostlist :: "string list \<Rightarrow> config_error + string list" where
  "expand_hostlist items = expand_items [] items"

section \<open>Validation\<close>

definition validate :: "config \<Rightarrow> config_error + unit" where
  "validate c =
     (if tag c = [] \<or> CHR ''/'' \<in> set (tag c) \<or> char_of (92 :: nat) \<in> set (tag c) \<or> char_of (0 :: nat) \<in> set (tag c)
         \<or> tag c = ''.'' \<or> tag c = ''..''
      then Inl (InvalidTag (tag c))
      else if workers c = 0 then Inl NoWorkers
      else if payload_size c = 0 then Inl NoPayload
      else if hostlist c = [] then Inl NoHosts
      else if length (hostlist c) < 2 then Inl (TooFewHosts (length (hostlist c)))
      else case parse_host_port (client_addr c) of Inl e \<Rightarrow> Inl (BadClientAddr (client_addr c) e)
      | Inr (c_host, c_port) \<Rightarrow>
        if c_port = 0 then Inl ClientPortZero
        else case parse_host_port (test_addr c) of Inl e \<Rightarrow> Inl (BadTestAddr (test_addr c) e)
        | Inr (t_host, t_port) \<Rightarrow>
          if t_host = [] then Inl NoTestHost
          else if t_port = 0 then Inl TestPortZero
          else if is_unspecified_host t_host then Inl UnspecifiedTestAddr
          else Inr ())"

definition control_port :: "config \<Rightarrow> net_error + u16" where
  "control_port c = map_sum id snd (parse_host_port (client_addr c))"

definition test_port :: "config \<Rightarrow> net_error + u16" where
  "test_port c = map_sum id snd (parse_host_port (test_addr c))"

definition test_family :: "config \<Rightarrow> net_error + addr_family option" where
  "test_family c = map_sum id (\<lambda>(host, _). family_from_host host) (parse_host_port (test_addr c))"

definition db_filename :: "string \<Rightarrow> string" where
  "db_filename t =
     (let stem = (case strip_suffix ''.db'' t of Some s \<Rightarrow> s
                  | None \<Rightarrow> (case strip_suffix ''.DB'' t of Some s \<Rightarrow> s | None \<Rightarrow> t))
      in stem @ ''.db'')"

definition db_path :: "config \<Rightarrow> string" where
  "db_path c = db_filename (tag c)"

section \<open>The configuration file\<close>

text \<open>A TOML value, as far as the fields distinguish it.\<close>

datatype toml_value = TStr string | TInt int | TArr "toml_value list" | TOther

definition deser_payload :: "toml_value \<Rightarrow> u64 option" where
  "deser_payload v =
     (case v of
        TInt n \<Rightarrow> if n < 0 then None else Some (of_int n)
      | TStr s \<Rightarrow> (case parse_size s of Inr n \<Rightarrow> Some n | Inl _ \<Rightarrow> None)
      | _ \<Rightarrow> None)"

fun deser_host_seq :: "toml_value list \<Rightarrow> string list option" where
  "deser_host_seq [] = Some []"
| "deser_host_seq (TStr s # vs) = map_option ((@) (split_hosts s)) (deser_host_seq vs)"
| "deser_host_seq (_ # vs) = None"

definition deser_hostlist :: "toml_value \<Rightarrow> string list option" where
  "deser_hostlist v =
     (case v of TStr s \<Rightarrow> Some (split_hosts s) | TArr vs \<Rightarrow> deser_host_seq vs | _ \<Rightarrow> None)"

definition deser_string :: "toml_value \<Rightarrow> string option" where
  "deser_string v = (case v of TStr s \<Rightarrow> Some s | _ \<Rightarrow> None)"

definition deser_u32 :: "toml_value \<Rightarrow> u32 option" where
  "deser_u32 v = (case v of TInt n \<Rightarrow> if 0 \<le> n \<and> n < 2 ^ 32 then Some (of_int n) else None | _ \<Rightarrow> None)"

definition deser_network :: "toml_value \<Rightarrow> network option" where
  "deser_network v = (if v = TStr ''tcp'' then Some Tcp else if v = TStr ''udp'' then Some Udp else None)"

definition deser_test_type :: "toml_value \<Rightarrow> test_type option" where
  "deser_test_type v = (if v = TStr ''pairs'' then Some Pairs else if v = TStr ''mesh'' then Some Mesh else None)"

text \<open>A field with a default and a required one.\<close>

definition field_or :: "'a \<Rightarrow> (toml_value \<Rightarrow> 'a option) \<Rightarrow> toml_value option \<Rightarrow> 'a option" where
  "field_or dflt f v = (case v of None \<Rightarrow> Some dflt | Some v \<Rightarrow> f v)"

definition field_req :: "(toml_value \<Rightarrow> 'a option) \<Rightarrow> toml_value option \<Rightarrow> 'a option" where
  "field_req f v = Option.bind v f"

definition config_file :: "(string \<Rightarrow> toml_value option) \<Rightarrow> config option" where
  "config_file t =
     Option.bind (field_or DEFAULT_CLIENT_ADDR deser_string (t ''client_addr'')) (\<lambda>ca.
     Option.bind (field_req deser_string (t ''test_addr'')) (\<lambda>ta.
     Option.bind (field_or Tcp deser_network (t ''network'')) (\<lambda>nw.
     Option.bind (field_or DEFAULT_PAYLOAD_SIZE deser_payload (t ''payload_size'')) (\<lambda>ps.
     Option.bind (field_or DEFAULT_WORKERS deser_u32 (t ''workers'')) (\<lambda>ws.
     Option.bind (field_or Pairs deser_test_type (t ''type'')) (\<lambda>tt.
     Option.bind (field_req deser_hostlist (t ''hostlist'')) (\<lambda>hl.
     map_option (\<lambda>tg.
       \<lparr>client_addr = ca, test_addr = ta, cfg_network = nw, payload_size = ps, workers = ws,
        cfg_type = tt, hostlist = [], hostlist_raw = hl, tag = tg\<rparr>)
       (field_req deser_string (t ''tag'')))))))))"

definition from_toml :: "(string \<Rightarrow> (string \<Rightarrow> toml_value option) option) \<Rightarrow> string \<Rightarrow> config_error + config" where
  "from_toml toml txt =
     (case Option.bind (toml txt) config_file of None \<Rightarrow> Inl BadToml
      | Some f \<Rightarrow>
        bind_result (expand_hostlist (hostlist_raw f)) (\<lambda>hosts.
        let cfg = f\<lparr>hostlist := hosts\<rparr> in
        bind_result (validate cfg) (\<lambda>_. Inr cfg)))"

section \<open>Facts about host patterns\<close>

lemma find_range_plain: "CHR ''{'' \<notin> set s \<Longrightarrow> find_range_at s i = Inr None"
proof (induction s i rule: find_range_at.induct)
  case (1 s i)
  then have "i < length s \<Longrightarrow> s ! i \<noteq> CHR ''{''" by (metis nth_mem)
  then show ?case using 1 by (subst find_range_at.simps) auto
qed

lemma find_range_skip:
  "i \<le> k \<Longrightarrow> k \<le> length s \<Longrightarrow> CHR ''{'' \<notin> set (take k s) \<Longrightarrow> find_range_at s i = find_range_at s k"
proof (induction s i rule: find_range_at.induct)
  case (1 s i)
  show ?case
  proof (cases "i = k")
    case False
    then have i: "i < k" using "1.prems" by simp
    then have "s ! i \<in> set (take k s)" using "1.prems"(2) by (metis length_take min.absorb2 nth_mem nth_take)
    then have "s ! i \<noteq> CHR ''{''" using "1.prems"(3) by auto
    then show ?thesis
      using "1.IH"(1) "1.prems" i by (subst find_range_at.simps) auto
  qed simp
qed

lemma position_first: "\<forall>x\<in>set xs. \<not> P x \<Longrightarrow> P y \<Longrightarrow> position P (xs @ y # ys) = Some (length xs)"
  by (induction xs) auto

lemma split_once_dots: "CHR ''.'' \<notin> set a \<Longrightarrow> split_once ''..'' (a @ ''..'' @ b) = Some (a, b)"
proof (induction a)
  case Nil
  then show ?case by (simp add: split_once.simps)
next
  case (Cons c a)
  then have "\<not> prefix ''..'' ((c # a) @ ''..'' @ b)" by auto
  then show ?case using Cons by (subst split_once.simps) simp
qed

lemma digits_chars: "list_all is_ascii_digit s \<Longrightarrow> c \<in> set s \<Longrightarrow> c \<noteq> CHR ''.'' \<and> c \<noteq> CHR ''}'' \<and> c \<noteq> CHR ''{'' \<and> c \<noteq> CHR ''-''"
  by (auto simp: list_all_iff is_ascii_digit_def digit_val_def)

definition range_pattern :: "string \<Rightarrow> string \<Rightarrow> string \<Rightarrow> string \<Rightarrow> string" where
  "range_pattern pre a b suf = pre @ ''{'' @ a @ ''..'' @ b @ ''}'' @ suf"

lemma find_range_pattern:
  assumes "CHR ''{'' \<notin> set pre" "a \<noteq> []" "b \<noteq> []" "list_all is_ascii_digit a" "list_all is_ascii_digit b"
  shows "find_range (range_pattern pre a b suf) =
    Inr (Some (length pre, length pre + length a + length b + 3, pre, suf))"
proof -
  let ?s = "range_pattern pre a b suf" and ?in = "a @ ''..'' @ b"
  have s: "?s = pre @ CHR ''{'' # ?in @ CHR ''}'' # suf" by (simp add: range_pattern_def)
  have skip: "find_range ?s = find_range_at ?s (length pre)"
    unfolding find_range_def by (rule find_range_skip) (use assms(1) in \<open>simp_all add: s\<close>)
  have "\<forall>c\<in>set ?in. c \<noteq> CHR ''}''" using digits_chars assms(4,5) by auto
  then have pos: "position (\<lambda>c. c = CHR ''}'') (drop (length pre + 1) ?s) = Some (length ?in)"
    using position_first [of ?in "\<lambda>c. c = CHR ''}''" "CHR ''}''" suf] by (simp add: s)
  have "split_once ''..'' ?in = Some (a, b)"
    by (rule split_once_dots) (use digits_chars assms(4) in auto)
  then have inner: "is_range_inner ?in" using assms by (simp add: is_range_inner_def)
  have "take (length ?in) (drop (length pre + 1) ?s) = ?in" by (simp add: s)
  then show ?thesis
    unfolding skip using pos inner by (subst find_range_at.simps) (simp add: s Let_def eval_nat_numeral)
qed

lemma parse_i64_nonempty: "parse_i64 a = Some n \<Longrightarrow> a \<noteq> []"
  by (auto simp: parse_i64_def parse_unsigned_def)

lemma expand_range_pattern:
  assumes "CHR ''{'' \<notin> set pre" "list_all is_ascii_digit a" "list_all is_ascii_digit b"
    and "parse_i64 a = Some m" "parse_i64 b = Some n" "length (range_numbers m n) \<le> 10000"
  shows "expand_pattern (range_pattern pre a b suf) =
    extend_all (\<lambda>k. expand_pattern (pre @ range_text a k @ suf)) (range_numbers m n)"
proof -
  let ?s = "range_pattern pre a b suf"
  have ne: "a \<noteq> []" "b \<noteq> []" using assms(4,5) parse_i64_nonempty by auto
  have "split_once ''..'' (a @ ''..'' @ b) = Some (a, b)"
    by (rule split_once_dots) (use digits_chars assms(2) in auto)
  moreover have "take (length pre + length a + length b + 3 - (length pre + 1)) (drop (length pre + 1) ?s) = a @ ''..'' @ b"
    by (simp add: range_pattern_def)
  ultimately show ?thesis
    using assms(4-6) find_range_pattern [OF assms(1) ne assms(2,3), of suf]
    by (subst expand_pattern.simps) simp
qed

lemma expand_plain: "CHR ''{'' \<notin> set s \<Longrightarrow> expand_pattern s = Inr [s]"
  by (subst expand_pattern.simps) (simp add: find_range_def find_range_plain)

lemma length_range_numbers: "length (range_numbers a b) = nat \<bar>b - a\<bar> + 1"
  by (auto simp: range_numbers_def)

lemma expand_pattern_Inr:
  assumes "expand_pattern pat = Inr hs"
  shows "hs = [pat] \<and> find_range pat = Inr None
    \<or> (\<exists>lo hi start fin a_str nums. find_range pat = Inr (Some (lo, hi, start, fin)) \<and> length nums \<le> 10000
        \<and> extend_all (\<lambda>n. expand_pattern (start @ range_text a_str n @ fin)) nums = Inr hs)"
  using assms
  by (subst (asm) expand_pattern.simps) (fastforce simp: Let_def split: sum.splits option.splits prod.splits if_splits)

lemma expand_result_plain: "expand_pattern pat = Inr hs \<Longrightarrow> h \<in> set hs \<Longrightarrow> find_range h = Inr None"
proof (induction "braces pat" arbitrary: pat hs rule: less_induct)
  case less
  from expand_pattern_Inr [OF less.prems(1)] show ?case
  proof (elim disjE exE conjE)
    fix lo hi start fin a_str nums
    assume r: "find_range pat = Inr (Some (lo, hi, start, fin))"
      and ext: "extend_all (\<lambda>n. expand_pattern (start @ range_text a_str n @ fin)) nums = Inr hs"
    from ext obtain hss where "list_all2 (\<lambda>n ys. expand_pattern (start @ range_text a_str n @ fin) = Inr ys) nums hss"
        "hs = concat hss"
      by (auto simp: extend_all_Inr)
    then obtain ys where ys: "ys \<in> set hss" "h \<in> set ys" using less.prems(2) by auto
    then obtain i where "i < length hss" "hss ! i = ys" by (auto simp: in_set_conv_nth)
    then have "expand_pattern (start @ range_text a_str (nums ! i) @ fin) = Inr ys"
      using \<open>list_all2 _ nums hss\<close> by (auto dest: list_all2_nthD2)
    with ys show ?thesis using less.hyps [OF braces_substituted [OF r]] by blast
  qed (use less.prems in auto)
qed

text \<open>Ranges, without the search for one.\<close>

definition digits :: "string \<Rightarrow> bool" where
  "digits s \<longleftrightarrow> s \<noteq> [] \<and> set s \<subseteq> set ''0123456789''"

definition has_range :: "string \<Rightarrow> bool" where
  "has_range s \<longleftrightarrow> (\<exists>pre a b suf. s = pre @ ''{'' @ a @ ''..'' @ b @ ''}'' @ suf \<and> digits a \<and> digits b)"

lemma is_ascii_digit_iff: "is_ascii_digit c \<longleftrightarrow> c \<in> set ''0123456789''"
  by (cases c) (auto simp: is_ascii_digit_def digit_val_def)

lemma digits_iff: "digits s \<longleftrightarrow> s \<noteq> [] \<and> list_all is_ascii_digit s"
  unfolding digits_def list_all_iff is_ascii_digit_iff by blast

lemma is_range_inner_iff: "is_range_inner inner \<longleftrightarrow> (\<exists>a b. inner = a @ ''..'' @ b \<and> digits a \<and> digits b)"
proof
  assume "is_range_inner inner"
  then show "\<exists>a b. inner = a @ ''..'' @ b \<and> digits a \<and> digits b"
    by (fastforce simp: is_range_inner_def digits_iff dest: split_once_eq_Some split: option.splits if_splits)
next
  assume "\<exists>a b. inner = a @ ''..'' @ b \<and> digits a \<and> digits b"
  then obtain a b where ab: "inner = a @ ''..'' @ b" "digits a" "digits b" by blast
  then have "split_once ''..'' inner = Some (a, b)"
    using split_once_dots [of a b] digits_chars [of a] by (auto simp: digits_iff)
  then show "is_range_inner inner" using ab by (simp add: is_range_inner_def digits_iff)
qed

text \<open>The search passes no range.\<close>

lemma find_range_at_stops:
  assumes "s = pre @ ''{'' @ a @ ''..'' @ b @ ''}'' @ suf" "digits a" "digits b" "i \<le> length pre"
  shows "find_range_at s i \<noteq> Inr None"
  using assms
proof (induction s i rule: find_range_at.induct)
  case (1 s i)
  let ?in = "a @ ''..'' @ b"
  have s: "s = pre @ CHR ''{'' # ?in @ CHR ''}'' # suf" using "1.prems"(1) by simp
  show ?case
  proof (cases "i = length pre")
    case True
    have "\<forall>c\<in>set ?in. c \<noteq> CHR ''}''" using digits_chars "1.prems"(2,3) by (auto simp: digits_iff)
    then have "position (\<lambda>c. c = CHR ''}'') (drop (i + 1) s) = Some (length ?in)"
      using position_first [of ?in "\<lambda>c. c = CHR ''}''" "CHR ''}''" suf] by (simp add: s True)
    moreover have "take (length ?in) (drop (i + 1) s) = ?in" by (simp add: s True)
    moreover have "is_range_inner ?in" using "1.prems"(2,3) unfolding is_range_inner_iff by blast
    ultimately show ?thesis by (subst find_range_at.simps) (simp add: s True Let_def)
  next
    case False
    then have i: "i + 1 \<le> length pre" "\<not> length s \<le> i" using "1.prems"(4) by (auto simp: s)
    show ?thesis
    proof (cases "s ! i = CHR ''{''")
      case brace: True
      show ?thesis
      proof (cases "position (\<lambda>c. c = CHR ''}'') (drop (i + 1) s)")
        case (Some r)
        have "\<not> is_range_inner (take (i + 1 + r - (i + 1)) (drop (i + 1) s)) \<Longrightarrow> find_range_at s (i + 1) \<noteq> Inr None"
          using "1.IH"(2) [OF i(2) _ Some refl _ "1.prems"(1-3) i(1)] brace by simp
        then show ?thesis using i(2) brace Some by (subst find_range_at.simps) (simp add: Let_def)
      qed (use i brace in \<open>subst find_range_at.simps, simp\<close>)
    next
      case other: False
      then show ?thesis using "1.IH"(1) [OF i(2) other] "1.prems" i by (subst find_range_at.simps) simp
    qed
  qed
qed

lemma find_range_has:
  assumes "find_range s = Inr (Some (lo, hi, start, fin))"
  shows "\<exists>a b. s = start @ ''{'' @ a @ ''..'' @ b @ ''}'' @ fin \<and> digits a \<and> digits b
    \<and> split_once ''..'' (take (hi - (lo + 1)) (drop (lo + 1) s)) = Some (a, b)"
proof -
  have f: "lo < hi" "hi < length s" "s ! lo = CHR ''{''" "s ! hi = CHR ''}''" "start = take lo s" "fin = drop (hi + 1) s"
    "is_range_inner (take (hi - (lo + 1)) (drop (lo + 1) s))"
    using find_range_at_Some [OF assms [unfolded find_range_def]] by auto
  obtain a b where ab: "take (hi - (lo + 1)) (drop (lo + 1) s) = a @ ''..'' @ b" "digits a" "digits b"
    using f(7) unfolding is_range_inner_iff by blast
  have "drop (lo + 1) s = take (hi - (lo + 1)) (drop (lo + 1) s) @ drop hi s"
    using f(1) append_take_drop_id [of "hi - (lo + 1)" "drop (lo + 1) s"] by simp
  moreover have "drop hi s = CHR ''}'' # fin" using Cons_nth_drop_Suc [OF f(2)] f(4,6) by simp
  moreover have "s = take lo s @ CHR ''{'' # drop (lo + 1) s"
    using id_take_nth_drop [of lo s] f(1-3) by simp
  ultimately have "s = start @ ''{'' @ a @ ''..'' @ b @ ''}'' @ fin" using ab(1) f(5) by simp
  moreover have "split_once ''..'' (take (hi - (lo + 1)) (drop (lo + 1) s)) = Some (a, b)"
    unfolding ab(1) by (rule split_once_dots) (use digits_chars ab(2) in \<open>auto simp: digits_iff\<close>)
  ultimately show ?thesis using ab by blast
qed

lemma find_range_None: "find_range s = Inr None \<Longrightarrow> \<not> has_range s"
  unfolding has_range_def find_range_def using find_range_at_stops by blast

lemma expand_pattern_cases:
  assumes "expand_pattern pat = Inr hs"
  shows "hs = [pat] \<and> find_range pat = Inr None
    \<or> (\<exists>pre a b suf m n hss. pat = pre @ ''{'' @ a @ ''..'' @ b @ ''}'' @ suf
         \<and> digits a \<and> digits b \<and> parse_i64 a = Some m \<and> parse_i64 b = Some n
         \<and> list_all2 (\<lambda>k hs. expand_pattern (pre @ range_text a k @ suf) = Inr hs) (range_numbers m n) hss
         \<and> hs = concat hss)"
proof (cases "find_range pat")
  case (Inl e)
  then show ?thesis using assms by (simp add: expand_pattern.simps)
next
  case (Inr found)
  show ?thesis
  proof (cases found)
    case None
    then show ?thesis using Inr assms by (simp add: expand_pattern.simps)
  next
    case (Some f)
    obtain lo hi start fin where "f = (lo, hi, start, fin)" by (cases f) auto
    with Some Inr have found: "find_range pat = Inr (Some (lo, hi, start, fin))" by simp
    from find_range_has [OF this] obtain a b where ab: "pat = start @ ''{'' @ a @ ''..'' @ b @ ''}'' @ fin" "digits a" "digits b"
      "split_once ''..'' (take (hi - (lo + 1)) (drop (lo + 1) pat)) = Some (a, b)" by blast
    with found assms obtain m n where mn: "parse_i64 a = Some m" "parse_i64 b = Some n"
      "extend_all (\<lambda>k. expand_pattern (start @ range_text a k @ fin)) (range_numbers m n) = Inr hs"
      by (subst (asm) expand_pattern.simps) (auto simp: Let_def split: option.splits if_splits)
    from mn(3) obtain hss where "list_all2 (\<lambda>k hs. expand_pattern (start @ range_text a k @ fin) = Inr hs) (range_numbers m n) hss"
      "hs = concat hss" unfolding extend_all_Inr by blast
    with ab(1-3) mn(1,2) show ?thesis by blast
  qed
qed

lemma add_hosts_Inr: "distinct out \<Longrightarrow> add_hosts out hs = Inr res \<longleftrightarrow> res = out @ hs \<and> distinct (out @ hs)"
  by (induction out hs rule: add_hosts.induct) auto

lemma expand_items_Inr:
  "distinct out \<Longrightarrow> expand_items out items = Inr res \<longleftrightarrow>
    (\<exists>hss. list_all2 (\<lambda>item hs. expand_pattern item = Inr hs) items hss \<and> res = out @ concat hss \<and> distinct res)"
proof (induction items arbitrary: out)
  case (Cons item items)
  have "expand_items out (item # items) = Inr res \<longleftrightarrow>
      (\<exists>hs. expand_pattern item = Inr hs \<and> distinct (out @ hs) \<and> expand_items (out @ hs) items = Inr res)"
    using Cons.prems by (auto simp: bind_result_Inr add_hosts_Inr)
  also have "\<dots> \<longleftrightarrow> (\<exists>hs hss. expand_pattern item = Inr hs \<and> list_all2 (\<lambda>item hs. expand_pattern item = Inr hs) items hss
      \<and> res = out @ concat (hs # hss) \<and> distinct res)"
    by (simp only: Cons.IH concat.simps cong: conj_cong)
      (metis (no_types, lifting) append.assoc distinct_append)
  also have "\<dots> \<longleftrightarrow> (\<exists>hss. list_all2 (\<lambda>item hs. expand_pattern item = Inr hs) (item # items) hss
      \<and> res = out @ concat hss \<and> distinct res)"
    by (simp only: list_all2_Cons1) blast
  finally show ?case .
qed auto

section \<open>Facts about validation\<close>

definition plain_name :: "string \<Rightarrow> bool" where
  "plain_name t \<longleftrightarrow> t \<noteq> [] \<and> CHR ''/'' \<notin> set t \<and> char_of (92 :: nat) \<notin> set t \<and> char_of (0 :: nat) \<notin> set t
     \<and> t \<noteq> ''.'' \<and> t \<noteq> ''..''"

lemma validate_Inr:
  "validate c = Inr () \<longleftrightarrow>
     plain_name (tag c) \<and> workers c \<noteq> 0 \<and> payload_size c \<noteq> 0 \<and> 2 \<le> length (hostlist c)
     \<and> (\<exists>h p. parse_host_port (client_addr c) = Inr (h, p) \<and> p \<noteq> 0)
     \<and> (\<exists>h p. parse_host_port (test_addr c) = Inr (h, p) \<and> p \<noteq> 0 \<and> h \<noteq> [] \<and> \<not> is_unspecified_host h)"
  unfolding validate_def plain_name_def by (auto split: sum.splits simp: not_less)

lemma suffix_split: "strip_suffix p s = Some t \<longleftrightarrow> s = t @ p"
  by (auto simp: strip_suffix_def suffix_def)

lemma db_filename_cases:
  obtains stem where "db_filename t = stem @ ''.db''" "t = stem \<or> t = stem @ ''.db'' \<or> t = stem @ ''.DB''"
  by (cases "strip_suffix ''.db'' t"; cases "strip_suffix ''.DB'' t") (auto simp: db_filename_def suffix_split Let_def)

section \<open>Facts about sizes\<close>

lemma digits_value_show [simp]: "digits_value (show_nat n) = n"
proof -
  have "map (\<lambda>c. of_char c - 48) (show_nat n) = digits10 n"
    using digits10_small by (auto simp: show_nat_digits10 comp_def intro: map_idI)
  then show ?thesis by (simp add: digits_value_def)
qed

lemma show_nat_no_dot: "CHR ''.'' \<notin> set (show_nat n)"
  using show_nat_digits [of "CHR ''.''" n] by (auto simp: is_ascii_digit_def digit_val_def)

lemma split_once_char_absent: "c \<notin> set s \<Longrightarrow> split_once [c] s = None"
proof (induction s)
  case (Cons d s)
  then show ?case by (subst split_once.simps) auto
qed (simp add: split_once.simps)

lemma parse_f64_show: "parse_f64 (show_nat n) = Some (rnd (of_nat n))"
  using show_nat_digits [of _ n]
  by (auto simp: parse_f64_def split_once_char_absent [OF show_nat_no_dot] list_all_iff)

definition alnum :: "char \<Rightarrow> bool" where
  "alnum c \<longleftrightarrow> of_char c \<in> {48..57 :: nat} \<union> {65..90} \<union> {97..122}"

definition letter :: "char \<Rightarrow> bool" where
  "letter c \<longleftrightarrow> of_char c \<in> {65..90 :: nat} \<union> {97..122}"

lemma letter_alnum: "letter c \<Longrightarrow> alnum c \<and> \<not> is_ascii_digit c \<and> c \<noteq> CHR ''.''"
  by (auto simp: letter_def alnum_def is_ascii_digit_def digit_val_def)

lemma digit_alnum: "is_ascii_digit c \<Longrightarrow> alnum c"
  by (auto simp: alnum_def is_ascii_digit_def digit_val_def split: if_splits)

lemma white_space_not_alnum: "w \<in> set white_space \<Longrightarrow> c \<in> set w \<Longrightarrow> \<not> alnum c"
proof -
  have "list_all (list_all (\<lambda>c. \<not> alnum c)) white_space" by code_simp
  then show "w \<in> set white_space \<Longrightarrow> c \<in> set w \<Longrightarrow> \<not> alnum c" by (auto simp: list_all_iff)
qed

lemma trim_alnum:
  assumes "list_all alnum s"
  shows "trim s = s"
proof (rule trim_id; intro ballI notI)
  fix w assume w: "w \<in> set white_space"
  then obtain c cs where c: "w = c # cs" using white_space_nonempty by (meson neq_Nil_conv)
  have "\<not> alnum c" using white_space_not_alnum [OF w] c by simp
  {
    assume "prefix w s"
    then have "c \<in> set s" using c by (auto simp: prefix_def)
    then show False using \<open>\<not> alnum c\<close> assms by (auto simp: list_all_iff)
  next
    assume "suffix w s"
    then have "c \<in> set s" using c by (auto simp: suffix_def)
    then show False using \<open>\<not> alnum c\<close> assms by (auto simp: list_all_iff)
  }
qed

text \<open>The units and their byte counts.\<close>

definition unit_bytes :: "string \<Rightarrow> nat option" where
  "unit_bytes = map_of
     [([], 1), (''b'', 1), (''k'', 1000), (''kb'', 1000), (''ki'', 1024), (''kib'', 1024),
      (''m'', 1000 ^ 2), (''mb'', 1000 ^ 2), (''mi'', 1024 ^ 2), (''mib'', 1024 ^ 2),
      (''g'', 1000 ^ 3), (''gb'', 1000 ^ 3), (''gi'', 1024 ^ 3), (''gib'', 1024 ^ 3)]"

lemma unit_products:
  "fmul (Fin 1000) (Fin 1000) = Fin 1000000" "fmul (Fin 1024) (Fin 1024) = Fin 1048576"
  "fmul (Fin 1000000) (Fin 1000) = Fin 1000000000" "fmul (Fin 1048576) (Fin 1024) = Fin 1073741824"
  by code_simp+

lemma unit_factor_bytes: "unit_bytes u = Some f \<Longrightarrow> unit_factor u = Some (Fin (of_nat f)) \<and> 0 < f"
  by (auto simp: unit_bytes_def unit_factor_def unit_products split: if_splits simp del: fmul.simps)

lemma rnd_nat: "n \<le> 2 ^ 53 \<Longrightarrow> rnd (of_nat n) = Fin (of_nat n)"
proof -
  assume n: "n \<le> 2 ^ 53"
  have "rat_of_nat n \<le> of_nat (2 ^ 53)" using n by (simp only: of_nat_le_iff)
  also have "\<dots> = pow2 53" by simp
  also have "\<dots> \<le> pow2 1023" by (rule pow2_mono) simp
  finally have "rnd (of_nat n) = Fin (rval (of_nat n))" by (intro rnd_finite) simp_all
  moreover have "int n \<le> 2 ^ 53" using n by simp
  then have "rval (of_nat n) = of_nat n" using rval_nat [of "int n"] by simp
  ultimately show ?thesis by simp
qed

lemma u64_max_f64: "f64_of_u64 (- 1) = Fin (2 ^ 64)"
  by code_simp

lemma fround_nat: "u64_of_f64 (fround (Fin (of_nat n))) = of_nat n" if "n \<le> 2 ^ 53" for n
proof -
  have "\<lfloor>rat_of_nat n + 1 / 2\<rfloor> = int n" by linarith
  moreover have "rat_of_nat n < 2 ^ 64"
  proof -
    have "n < 2 ^ 64" using that by simp
    then have "rat_of_nat n < of_nat (2 ^ 64)" by (simp only: of_nat_less_iff)
    then show ?thesis by simp
  qed
  ultimately show ?thesis by simp
qed

lemma parse_digits_stop: "\<not> is_ascii_digit c \<Longrightarrow> parse_digits mx acc (ds @ c # cs) = None"
  by (auto simp: parse_digits_append is_ascii_digit_def split: option.splits)

lemma parse_u64_unit: "u \<noteq> [] \<Longrightarrow> list_all letter u \<Longrightarrow> parse_u64 (show_nat n @ u) = None"
proof -
  assume "u \<noteq> []" "list_all letter u"
  then obtain c cs where u: "u = c # cs" "\<not> is_ascii_digit c" using letter_alnum by (cases u) auto
  obtain d ds where d: "show_nat n = d # ds" by (cases "show_nat n") auto
  then have "d \<noteq> CHR ''+''" using show_nat_digits [of d n] by auto
  then show ?thesis
    using parse_digits_stop [OF u(2), of _ 0 "d # ds"] by (simp add: parse_u64_def parse_unsigned_def d u(1))
qed

lemma show_nat_all_digits: "list_all is_ascii_digit (show_nat n)"
  using show_nat_digits by (auto simp: list_all_iff)

lemma parse_size_unit:
  assumes "list_all letter u" "unit_bytes (to_ascii_lowercase u) = Some f" "n * f \<le> 2 ^ 53"
  shows "parse_size (show_nat n @ u) = Inr (of_nat (n * f))"
proof -
  let ?s = "show_nat n @ u"
  have "list_all alnum ?s"
    using assms(1) show_nat_all_digits [of n] letter_alnum digit_alnum by (auto simp: list_all_iff)
  then have trim: "trim ?s = ?s" by (rule trim_alnum)
  have trim_u: "trim u = u" using assms(1) letter_alnum by (intro trim_alnum) (auto simp: list_all_iff)
  have f: "unit_factor (to_ascii_lowercase u) = Some (Fin (of_nat f))" "0 < f"
    using unit_factor_bytes [OF assms(2)] by simp_all
  have n: "n \<le> 2 ^ 53" using assms(3) f(2) by (cases f) auto
  show ?thesis
  proof (cases "u = []")
    case True
    then have "f = 1" using assms(2) by (auto simp: unit_bytes_def to_ascii_lowercase_def)
    moreover have "parse_u64 (show_nat n) = Some (of_nat n)"
      using n by (simp add: parse_u64_def parse_unsigned_show_nat)
    ultimately show ?thesis using trim True by (simp add: parse_size_def)
  next
    case False
    let ?w = "takeWhile (\<lambda>c. is_ascii_digit c \<or> c = CHR ''.'') ?s"
    have "?w = show_nat n"
      using False assms(1) show_nat_all_digits [of n] letter_alnum
      by (cases u) (auto simp: list_all_iff takeWhile_append)
    then have w: "length ?w = length (show_nat n)" by (rule arg_cong)
    have "fmul (Fin (of_nat n)) (Fin (of_nat f)) = Fin (of_nat (n * f))"
      using rnd_nat [OF assms(3)] by simp
    moreover have "\<not> (2 :: rat) ^ 64 < of_nat (n * f)"
    proof -
      have "n * f \<le> 2 ^ 64" using assms(3) by simp
      then have "rat_of_nat (n * f) \<le> of_nat (2 ^ 64)" by (simp only: of_nat_le_iff)
      then show ?thesis by simp
    qed
    ultimately show ?thesis
      using parse_u64_unit [OF False assms(1), of n] rnd_nat [OF n] fround_nat [OF assms(3)] f(1) False
      unfolding parse_size_def trim Let_def w
      by (simp add: parse_f64_show trim_u u64_max_f64 del: fmul.simps fround.simps u64_of_f64.simps of_nat_mult)
  qed
qed

lemma from_toml_facts:
  assumes "from_toml toml txt = Inr c"
  shows "validate c = Inr () \<and> expand_hostlist (hostlist_raw c) = Inr (hostlist c) \<and> distinct (hostlist c)
    \<and> (\<exists>p. test_port c = Inr p \<and> p \<noteq> 0) \<and> (\<exists>p. control_port c = Inr p \<and> p \<noteq> 0)"
proof -
  obtain f hosts where f: "expand_hostlist (hostlist_raw f) = Inr hosts" "validate (f\<lparr>hostlist := hosts\<rparr>) = Inr ()"
      "c = f\<lparr>hostlist := hosts\<rparr>"
    using assms by (auto simp: from_toml_def bind_result_Inr Let_def split: option.splits)
  moreover have "distinct hosts" using f(1) unfolding expand_hostlist_def by (auto simp: expand_items_Inr)
  moreover have "(\<exists>p. test_port c = Inr p \<and> p \<noteq> 0) \<and> (\<exists>p. control_port c = Inr p \<and> p \<noteq> 0)"
    using f(2) unfolding f(3) [symmetric] validate_Inr test_port_def control_port_def by auto
  ultimately show ?thesis by simp
qed

section \<open>Properties\<close>

text \<open>A configuration for the instances.\<close>

definition sample_config :: config where
  "sample_config =
     \<lparr>client_addr = ''0.0.0.0:7777'', test_addr = ''h:9100'', cfg_network = Tcp, payload_size = 5, workers = 3,
      cfg_type = Mesh, hostlist = [''a'', ''b''], hostlist_raw = [], tag = ''t''\<rparr>"

text \<open>C26: a whole number with any known unit, in any case of letters, is read as exactly that many
  bytes, in spite of the detour through floating point, up to \<open>2^53\<close> bytes (8 PiB).\<close>

theorem parse_size_exact:
  assumes "list_all letter u" "unit_bytes (to_ascii_lowercase u) = Some f" "n * f \<le> 2 ^ 53"
  shows "parse_size (show_nat n @ u) = Inr (of_nat (n * f))"
  using assms by (rule parse_size_unit)

theorem parse_size_exact_witness: "parse_size (show_nat 100 @ ''MiB'') = Inr (of_nat (100 * 1048576))"
  by (rule parse_size_exact) (code_simp, code_simp, simp)

text \<open>The largest size is one more than \<open>u64::MAX\<close>: the bound is compared as a float.\<close>

lemma size_beyond_max: "parse_size ''18446744073709551616'' = Inr (- 1)"
  by code_simp

text \<open>A host pattern with one range stands for the hosts with each number of the range in its
  place, in the order of the range, counting down where it is written so; numbers are padded with
  zeros to the width of a first bound with leading zeros.\<close>

theorem expand_one_range:
  assumes "CHR ''{'' \<notin> set pre" "CHR ''{'' \<notin> set suf" "list_all is_ascii_digit a" "list_all is_ascii_digit b"
    and "parse_i64 a = Some m" "parse_i64 b = Some n" "nat \<bar>n - m\<bar> < 10000"
  shows "expand_pattern (pre @ ''{'' @ a @ ''..'' @ b @ ''}'' @ suf) =
    Inr (map (\<lambda>k. pre @ range_text a k @ suf) (range_numbers m n))"
proof -
  have "expand_pattern (pre @ range_text a k @ suf) = Inr [pre @ range_text a k @ suf]" for k
    using assms(1,2) range_text_no_brace [of a k] by (intro expand_plain) auto
  then have "extend_all (\<lambda>k. expand_pattern (pre @ range_text a k @ suf)) (range_numbers m n)
      = Inr (map (\<lambda>k. pre @ range_text a k @ suf) (range_numbers m n))"
    by (subst extend_all_total [where g = "\<lambda>k. [pre @ range_text a k @ suf]"]) simp_all
  then show ?thesis
    using expand_range_pattern [OF assms(1,3,4,5,6), of suf] assms(7)
    by (simp add: length_range_numbers range_pattern_def)
qed

theorem expand_one_range_witness:
  "expand_pattern (''n'' @ ''{'' @ ''08'' @ ''..'' @ ''11'' @ ''}'' @ ''.lab'') =
    Inr (map (\<lambda>k. ''n'' @ range_text ''08'' k @ ''.lab'') (range_numbers 8 11))"
  by (rule expand_one_range) (simp_all, code_simp+)

text \<open>Expanding a host list succeeds exactly when every item expands and no host comes twice;
  the result is the expansions in order.\<close>

theorem hostlist_expansion:
  "expand_hostlist items = Inr out \<longleftrightarrow>
    (\<exists>hss. list_all2 (\<lambda>item hs. expand_pattern item = Inr hs) items hss \<and> out = concat hss \<and> distinct out)"
  unfolding expand_hostlist_def by (simp add: expand_items_Inr)

text \<open>C23: expansion is complete. No host it yields contains a range, braces around two digit strings with
  two dots between them, wherever it stands and whatever other braces there are. A pattern without a
  range yields itself; in any other, one of its ranges takes all its numbers, in order and in its width, and the
  hosts are those of the patterns so obtained, each expanded completely.\<close>

theorem expansion_complete:
  assumes "expand_pattern pat = Inr hs"
  shows "(\<forall>h\<in>set hs. \<not> has_range h) \<and> (\<not> has_range pat \<longrightarrow> hs = [pat])
    \<and> (has_range pat \<longrightarrow> (\<exists>pre a b suf m n hss. pat = pre @ ''{'' @ a @ ''..'' @ b @ ''}'' @ suf
         \<and> digits a \<and> digits b \<and> parse_i64 a = Some m \<and> parse_i64 b = Some n
         \<and> list_all2 (\<lambda>k hs. expand_pattern (pre @ range_text a k @ suf) = Inr hs) (if m \<le> n then [m..n] else rev [n..m]) hss
         \<and> hs = concat hss))"
proof (intro conjI impI ballI)
  show "\<not> has_range h" if "h \<in> set hs" for h
    using expand_result_plain [OF assms that] by (rule find_range_None)
  show "hs = [pat]" if "\<not> has_range pat"
    using expand_pattern_cases [OF assms] that unfolding has_range_def by blast
  show "\<exists>pre a b suf m n hss. pat = pre @ ''{'' @ a @ ''..'' @ b @ ''}'' @ suf
         \<and> digits a \<and> digits b \<and> parse_i64 a = Some m \<and> parse_i64 b = Some n
         \<and> list_all2 (\<lambda>k hs. expand_pattern (pre @ range_text a k @ suf) = Inr hs) (if m \<le> n then [m..n] else rev [n..m]) hss
         \<and> hs = concat hss" if "has_range pat"
    using expand_pattern_cases [OF assms] that find_range_None unfolding range_numbers_def by blast
qed

theorem expansion_complete_witness:
  "\<not> has_range ''{x}r2h1'' \<and> (\<exists>pre a b suf. ''{x}r{1..2}h{1..2}'' = pre @ ''{'' @ a @ ''..'' @ b @ ''}'' @ suf \<and> digits a \<and> digits b)"
proof -
  have run: "expand_pattern ''{x}r{1..2}h{1..2}'' = Inr [''{x}r1h1'', ''{x}r1h2'', ''{x}r2h1'', ''{x}r2h2'']" by code_simp
  have "digits ''1'' \<and> digits ''2''" by code_simp
  then have "has_range ''{x}r{1..2}h{1..2}''"
    unfolding has_range_def by (intro exI [of _ "''{x}r''"] exI [of _ "''1''"] exI [of _ "''2''"] exI [of _ "''h{1..2}''"]) simp
  with expansion_complete [OF run] show ?thesis by (elim conjE) (intro conjI; simp; blast)
qed

text \<open>Validation accepts exactly the configurations with a plain file name as tag, at least one
  worker, a non-empty payload, two hosts or more, a control address with a non-zero port, and a test
  address with a specified host and a non-zero port.\<close>

theorem validate_accepts:
  "validate c = Inr () \<longleftrightarrow>
     plain_name (tag c) \<and> workers c \<noteq> 0 \<and> payload_size c \<noteq> 0 \<and> 2 \<le> length (hostlist c)
     \<and> (\<exists>h p. parse_host_port (client_addr c) = Inr (h, p) \<and> p \<noteq> 0)
     \<and> (\<exists>h p. parse_host_port (test_addr c) = Inr (h, p) \<and> p \<noteq> 0 \<and> h \<noteq> [] \<and> \<not> is_unspecified_host h)"
  by (rule validate_Inr)

text \<open>A configuration read from a file is valid (the server's second validation accepts it), its
  hosts are the distinct expansion of the raw list, and its two ports are usable.\<close>

theorem from_toml_valid:
  assumes "from_toml toml txt = Inr c"
  shows "validate c = Inr () \<and> expand_hostlist (hostlist_raw c) = Inr (hostlist c) \<and> distinct (hostlist c)
    \<and> (\<exists>p. test_port c = Inr p \<and> p \<noteq> 0) \<and> (\<exists>p. control_port c = Inr p \<and> p \<noteq> 0)"
  using from_toml_facts [OF assms] .

definition sample_table :: "string \<Rightarrow> toml_value option" where
  "sample_table = map_of [(''test_addr'', TStr ''10.1.2.3:9100''), (''hostlist'', TArr [TStr ''srv{1..2}.lab'']),
     (''tag'', TStr ''run1'')]"

theorem from_toml_valid_witness:
  "validate (case from_toml (\<lambda>_. Some sample_table) [] of Inr c \<Rightarrow> c) = Inr ()"
proof -
  have "(case from_toml (\<lambda>_. Some sample_table) [] of Inr c \<Rightarrow> True | Inl _ \<Rightarrow> False)" by code_simp
  then obtain c where c: "from_toml (\<lambda>_. Some sample_table) [] = Inr c"
    by (cases "from_toml (\<lambda>_. Some sample_table) []") simp_all
  show ?thesis using from_toml_valid [OF c] c by simp
qed

text \<open>The database of a valid configuration is a file in the working directory: its name holds no
  path separator, ends in \<open>.db\<close>, and naming it again changes nothing.\<close>

theorem db_path_plain:
  assumes "validate c = Inr ()"
  shows "CHR ''/'' \<notin> set (db_path c) \<and> suffix ''.db'' (db_path c) \<and> db_filename (db_path c) = db_path c"
proof -
  obtain stem where stem: "db_path c = stem @ ''.db''" "tag c = stem \<or> tag c = stem @ ''.db'' \<or> tag c = stem @ ''.DB''"
    unfolding db_path_def by (rule db_filename_cases)
  have "CHR ''/'' \<notin> set (tag c)" using assms by (simp add: validate_Inr plain_name_def)
  then have "CHR ''/'' \<notin> set stem" using stem(2) by auto
  moreover have "strip_suffix ''.db'' (stem @ ''.db'') = Some stem" by (simp only: suffix_split)
  ultimately show ?thesis using stem(1) by (simp add: db_filename_def suffix_def)
qed

theorem db_path_plain_witness:
  "CHR ''/'' \<notin> set (db_path \<lparr>client_addr = ''0.0.0.0:7777'', test_addr = ''h:1'', cfg_network = Tcp, payload_size = 1,
      workers = 1, cfg_type = Mesh, hostlist = [''a'', ''b''], hostlist_raw = [], tag = ''live.db''\<rparr>)"
  by (rule db_path_plain [THEN conjunct1]) code_simp

end
