(* ===== verification/Proto.thy ===== *)
theory Proto
  imports Config Bytes
begin

text \<open>
  \<open>src/src/proto.rs\<close>: the control messages and their frames, a 32-bit big-endian length followed by
  that many bytes of JSON. \<open>serde_json\<close> is a parameter: \<open>to_vec\<close> (\<open>None\<close> where it fails) and
  \<open>from_slice\<close>. What the code relies on is \<open>json_ok\<close>: a message is encoded to at least one byte and
  decoded back to itself.
\<close>

section \<open>Messages\<close>

datatype msg =
    Start config assignment
  | Stop
  | Ack string
  | Metrics metric_window
  | Error string

definition MAX_FRAME :: nat where "MAX_FRAME = 16 * 1024 * 1024"

datatype frame_error = Serialize | TooLarge nat | WriteFailed | UnexpectedEof | InvalidLength nat | Deserialize

section \<open>Writing\<close>

text \<open>A writer: the bytes it took, and how many it will still take before it fails (\<open>None\<close>: no limit). It has
  no buffer of its own, like the write half of a tokio TCP stream, whose \<open>flush\<close> does nothing and succeeds.\<close>

record writer =
  written :: "byte list"
  room :: "nat option"

definition write_all :: "byte list \<Rightarrow> writer \<Rightarrow> bool \<times> writer" where
  "write_all bs w =
     (case room w of
        None \<Rightarrow> (True, w\<lparr>written := written w @ bs\<rparr>)
      | Some k \<Rightarrow> (length bs \<le> k, w\<lparr>written := written w @ take k bs, room := Some (k - length bs)\<rparr>))"

definition write_frame :: "(msg \<Rightarrow> byte list option) \<Rightarrow> msg \<Rightarrow> writer \<Rightarrow> (frame_error + unit) \<times> writer" where
  "write_frame to_vec m w =
     (case to_vec m of None \<Rightarrow> (Inl Serialize, w)
      | Some data \<Rightarrow>
        if MAX_FRAME < length data then (Inl (TooLarge (length data)), w)
        else
          (case write_all (to_be_u32 (of_nat (length data))) w of (ok, w) \<Rightarrow>
           if \<not> ok then (Inl WriteFailed, w)
           else
             (case write_all data w of (ok, w) \<Rightarrow> if \<not> ok then (Inl WriteFailed, w) else (Inr (), w))))"

section \<open>Reading\<close>

text \<open>The reader consumes the bytes that will arrive before the end of the stream.\<close>

definition read_frame :: "(byte list \<Rightarrow> msg option) \<Rightarrow> byte list \<Rightarrow> frame_error + msg \<times> byte list" where
  "read_frame from_slice bs =
     (if length bs < 4 then Inl UnexpectedEof
      else
        let len = unat (from_be_u32 (take 4 bs)); rest = drop 4 bs in
        if len = 0 \<or> MAX_FRAME < len then Inl (InvalidLength len)
        else if length rest < len then Inl UnexpectedEof
        else case from_slice (take len rest) of
          None \<Rightarrow> Inl Deserialize
        | Some m \<Rightarrow> Inr (m, drop len rest))"

text \<open>The messages a connection yields, up to the first failure.\<close>

function read_frames :: "(byte list \<Rightarrow> msg option) \<Rightarrow> byte list \<Rightarrow> msg list" where
  "read_frames from_slice bs =
     (case read_frame from_slice bs of Inl _ \<Rightarrow> [] | Inr (m, rest) \<Rightarrow> m # read_frames from_slice rest)"
  by pat_completeness auto
termination
  by (relation "measure (length \<circ> snd)")
    (auto simp: read_frame_def Let_def split: if_splits option.splits)

declare read_frames.simps [simp del]

definition json_ok :: "(msg \<Rightarrow> byte list option) \<Rightarrow> (byte list \<Rightarrow> msg option) \<Rightarrow> msg \<Rightarrow> bool" where
  "json_ok to_vec from_slice m \<longleftrightarrow>
     (\<exists>data. to_vec m = Some data \<and> data \<noteq> [] \<and> length data \<le> MAX_FRAME \<and> from_slice data = Some m)"

fun write_frames :: "(msg \<Rightarrow> byte list option) \<Rightarrow> msg list \<Rightarrow> writer \<Rightarrow> writer" where
  "write_frames to_vec [] w = w"
| "write_frames to_vec (m # ms) w =
     (case write_frame to_vec m w of (r, w) \<Rightarrow> if r = Inr () then write_frames to_vec ms w else w)"

section \<open>Frames on a stream\<close>

definition frame :: "byte list \<Rightarrow> byte list" where
  "frame data = to_be_u32 (of_nat (length data)) @ data"

lemma unat_frame_length: "length data \<le> MAX_FRAME \<Longrightarrow> unat (of_nat (length data) :: u32) = length data"
  by (intro unat_of_nat_small) (simp add: MAX_FRAME_def)

lemma read_frame_frame:
  assumes "data \<noteq> []" "length data \<le> MAX_FRAME" "from_slice data = Some m"
  shows "read_frame from_slice (frame data @ rest) = Inr (m, rest)"
  using assms unat_frame_length [OF assms(2)]
  by (simp add: read_frame_def frame_def be32.enc_length be32.dec_enc)

text \<open>A stream that ends inside a frame yields nothing from it.\<close>

lemma read_frame_cut:
  assumes "length data \<le> MAX_FRAME" "k < length (frame data)"
  shows "\<exists>e. read_frame from_slice (take k (frame data)) = Inl e"
proof (cases "k < 4")
  case True
  then show ?thesis by (simp add: read_frame_def min_less_iff_disj)
next
  case False
  then show ?thesis
    using assms unat_frame_length [OF assms(1)]
    by (simp add: read_frame_def frame_def be32.enc_length be32.dec_enc Let_def)
qed

text \<open>A writer without a limit appends whole frames; one with a limit, a beginning of them.\<close>

definition wire_of :: "(msg \<Rightarrow> byte list option) \<Rightarrow> msg list \<Rightarrow> byte list" where
  "wire_of to_vec ms = concat (map (\<lambda>m. frame (the (to_vec m))) ms)"

lemma write_frame_json_ok:
  assumes "json_ok to_vec from_slice m"
  shows "case write_frame to_vec m w of (r, w') \<Rightarrow>
    (r = Inr () \<longrightarrow> written w' = written w @ frame (the (to_vec m)))
    \<and> (r \<noteq> Inr () \<longrightarrow> (\<exists>k < length (frame (the (to_vec m))). written w' = written w @ take k (frame (the (to_vec m)))))
    \<and> (room w = None \<longrightarrow> r = Inr () \<and> room w' = None)"
proof -
  obtain data where d: "to_vec m = Some data" "length data \<le> MAX_FRAME"
    using assms by (auto simp: json_ok_def)
  show ?thesis
  proof (cases "room w")
    case None
    then show ?thesis using d by (simp add: write_frame_def write_all_def frame_def)
  next
    case (Some k)
    show ?thesis
    proof (cases "k < 4")
      case True
      then show ?thesis
        using d Some
        by (auto simp: write_frame_def write_all_def frame_def be32.enc_length intro!: exI [of _ k])
    next
      case False
      then show ?thesis
        using d Some
        by (auto simp: write_frame_def write_all_def frame_def be32.enc_length intro!: exI [of _ k])
    qed
  qed
qed

lemma read_frames_wire:
  assumes "\<forall>m\<in>set ms. json_ok to_vec from_slice m"
  shows "read_frames from_slice (wire_of to_vec ms @ rest) = ms @ read_frames from_slice rest"
  using assms
proof (induction ms)
  case (Cons m ms)
  then obtain data where d: "to_vec m = Some data" "data \<noteq> []" "length data \<le> MAX_FRAME" "from_slice data = Some m"
    by (auto simp: json_ok_def)
  show ?case
    using Cons read_frame_frame [of data from_slice m, OF d(2-4)] by (subst read_frames.simps) (simp add: wire_of_def d(1))
qed (simp add: wire_of_def)

lemma read_frames_Inl: "read_frame from_slice bs = Inl e \<Longrightarrow> read_frames from_slice bs = []"
  by (subst read_frames.simps) simp

lemma read_frames_Nil: "read_frames from_slice [] = []"
  by (rule read_frames_Inl [where e = UnexpectedEof]) (simp add: read_frame_def)

lemma write_frames_written:
  assumes "\<forall>m\<in>set ms. json_ok to_vec from_slice m"
  shows "\<exists>n t. written (write_frames to_vec ms w) = written w @ wire_of to_vec (take n ms) @ t
      \<and> read_frames from_slice t = [] \<and> (room w = None \<longrightarrow> n = length ms \<and> t = [])"
  using assms
proof (induction ms arbitrary: w)
  case Nil
  then show ?case by (intro exI [of _ 0] exI [of _ "[]"]) (simp add: wire_of_def read_frames_Nil)
next
  case (Cons m ms)
  obtain r w1 where w1: "write_frame to_vec m w = (r, w1)" by fastforce
  have ok: "json_ok to_vec from_slice m" using Cons.prems by simp
  note step = write_frame_json_ok [OF ok, of w, unfolded w1, simplified]
  show ?case
  proof (cases "r = Inr ()")
    case True
    obtain n t where "written (write_frames to_vec ms w1) = written w1 @ wire_of to_vec (take n ms) @ t"
        "read_frames from_slice t = []" "room w1 = None \<longrightarrow> n = length ms \<and> t = []"
      using Cons.IH [of w1] Cons.prems by auto
    then show ?thesis
      using True step w1 by (intro exI [of _ "Suc n"] exI [of _ t]) (auto simp: wire_of_def)
  next
    case False
    then obtain k where k: "k < length (frame (the (to_vec m)))" "written w1 = written w @ take k (frame (the (to_vec m)))"
      using step by auto
    obtain data where d: "to_vec m = Some data" "length data \<le> MAX_FRAME" using ok by (auto simp: json_ok_def)
    have "read_frames from_slice (take k (frame data)) = []"
      using read_frame_cut [OF d(2), of k from_slice] k d(1) read_frames_Inl by auto
    then show ?thesis
      using False step w1 k d(1)
      by (intro exI [of _ 0] exI [of _ "take k (frame data)"]) (auto simp: wire_of_def)
  qed
qed

section \<open>Properties\<close>

text \<open>A connection that stays up delivers exactly the messages written to it, in order, whatever
  the transport does with the boundaries between writes.\<close>

theorem frames_roundtrip:
  assumes "\<forall>m\<in>set ms. json_ok to_vec from_slice m"
  shows "read_frames from_slice (written (write_frames to_vec ms \<lparr>written = [], room = None\<rparr>)) = ms"
  using write_frames_written [OF assms, of "\<lparr>written = [], room = None\<rparr>"] read_frames_wire [OF assms, of "[]"]
  by (auto simp: read_frames_Nil)

text \<open>A small codec for the instances: one byte per message.\<close>

definition byte_to_vec :: "msg \<Rightarrow> byte list option" where
  "byte_to_vec m = (case m of Stop \<Rightarrow> Some [1] | Ack c \<Rightarrow> Some (2 # map (\<lambda>x. of_nat (of_char x)) c) | _ \<Rightarrow> None)"

definition byte_from_slice :: "byte list \<Rightarrow> msg option" where
  "byte_from_slice bs =
     (if bs = [1] then Some Stop
      else if prefix [2] bs then Some (Ack (map (\<lambda>b. char_of (unat b)) (tl bs))) else None)"

lemma sample_json_ok: "\<forall>m\<in>set [Stop, Ack ''stop'', Stop]. json_ok byte_to_vec byte_from_slice m"
  by (simp add: json_ok_def byte_to_vec_def MAX_FRAME_def) code_simp

theorem frames_roundtrip_witness:
  "read_frames byte_from_slice (written (write_frames byte_to_vec [Stop, Ack ''stop'', Stop] \<lparr>written = [], room = None\<rparr>))
    = [Stop, Ack ''stop'', Stop]"
  by (rule frames_roundtrip [OF sample_json_ok])

text \<open>C24: a connection that breaks at any byte delivers a beginning of the messages written: no message
  is altered, invented or delivered twice.\<close>

theorem broken_connection_prefix:
  assumes "\<forall>m\<in>set ms. json_ok to_vec from_slice m"
  shows "prefix (read_frames from_slice (written (write_frames to_vec ms \<lparr>written = [], room = Some k\<rparr>))) ms"
proof -
  obtain n t where w: "written (write_frames to_vec ms \<lparr>written = [], room = Some k\<rparr>) = wire_of to_vec (take n ms) @ t"
      "read_frames from_slice t = []"
    using write_frames_written [OF assms, of "\<lparr>written = [], room = Some k\<rparr>"] by auto
  have "\<forall>m\<in>set (take n ms). json_ok to_vec from_slice m" using assms by (meson in_set_takeD)
  from read_frames_wire [OF this, of t] w show ?thesis by (simp add: take_is_prefix)
qed

theorem broken_connection_prefix_witness:
  "prefix (read_frames byte_from_slice (written (write_frames byte_to_vec [Stop, Ack ''stop'', Stop]
     \<lparr>written = [], room = Some 11\<rparr>))) [Stop, Ack ''stop'', Stop]"
  by (rule broken_connection_prefix [OF sample_json_ok])

end
