(* ===== verification/Sockets.thy ===== *)
theory Sockets
  imports Netutil
begin

text \<open>
  The sockets of \<open>src/src/netutil.rs\<close>: \<open>tcp_listen\<close> and \<open>udp_bind\<close> as the sequence of system calls they make.
  Which calls succeed is a parameter; a call whose result the code propagates ends the sequence when it
  fails, one whose result it discards does not.
\<close>

section \<open>System calls\<close>

datatype socket_type = Stream | Dgram

datatype socket_call =
    Create_socket bool socket_type
  | Set_reuse_address
  | Set_only_v6 bool
  | Set_recv_buffer nat
  | Set_send_buffer nat
  | Set_nonblocking
  | Bind_to socket_addr
  | Listen nat
  | Hand_to_runtime

text \<open>The calls made so far, and the call that failed where the sequence has ended.\<close>

type_synonym socket_state = "(socket_call + unit) \<times> socket_call list"

definition must :: "(socket_call \<Rightarrow> bool) \<Rightarrow> socket_call \<Rightarrow> socket_state \<Rightarrow> socket_state" where
  "must works call st =
     (case st of (Inl e, log) \<Rightarrow> (Inl e, log)
      | (Inr _, log) \<Rightarrow> (if works call then Inr () else Inl call, log @ [call]))"

definition may :: "socket_call \<Rightarrow> socket_state \<Rightarrow> socket_state" where
  "may call st = (case st of (Inl e, log) \<Rightarrow> (Inl e, log) | (Inr _, log) \<Rightarrow> (Inr (), log @ [call]))"

section \<open>Listening and binding\<close>

definition SOCK_BUF :: nat where "SOCK_BUF = 4 * 1024 * 1024"

definition apply_buf_sizes :: "socket_state \<Rightarrow> socket_state" where
  "apply_buf_sizes st = may (Set_send_buffer SOCK_BUF) (may (Set_recv_buffer SOCK_BUF) st)"

text \<open>The part the two have in common.\<close>

definition bound_socket :: "(socket_call \<Rightarrow> bool) \<Rightarrow> socket_type \<Rightarrow> socket_addr \<Rightarrow> socket_state" where
  "bound_socket works ty addr =
     (let st = must works Set_reuse_address (must works (Create_socket (sock_is_ipv4 addr) ty) (Inr (), []));
          st = (if sock_is_ipv6 addr \<and> is_unspecified (sock_ip addr) then may (Set_only_v6 False) st else st)
      in must works (Bind_to addr) (must works Set_nonblocking (apply_buf_sizes st)))"

definition tcp_listen :: "(socket_call \<Rightarrow> bool) \<Rightarrow> socket_addr \<Rightarrow> socket_state" where
  "tcp_listen works addr = must works Hand_to_runtime (must works (Listen 1024) (bound_socket works Stream addr))"

definition udp_bind :: "(socket_call \<Rightarrow> bool) \<Rightarrow> socket_addr \<Rightarrow> socket_state" where
  "udp_bind works addr = must works Hand_to_runtime (bound_socket works Dgram addr)"

section \<open>Facts\<close>

text \<open>A sequence of calls, each with whether its failure counts.\<close>

fun perform :: "(socket_call \<Rightarrow> bool) \<Rightarrow> (bool \<times> socket_call) list \<Rightarrow> socket_state \<Rightarrow> socket_state" where
  "perform works [] st = st"
| "perform works ((counts, call) # cs) st = perform works cs (if counts then must works call st else may call st)"

lemma perform_failed: "perform works cs (Inl e, log) = (Inl e, log)"
  by (induction cs) (auto simp: must_def may_def)

definition succeeds :: "(socket_call \<Rightarrow> bool) \<Rightarrow> (bool \<times> socket_call) list \<Rightarrow> bool" where
  "succeeds works cs \<longleftrightarrow> list_all (\<lambda>(counts, call). counts \<longrightarrow> works call) cs"

lemma perform_outcome:
  "succeeds works cs \<and> perform works cs (Inr (), log) = (Inr (), log @ map snd cs)
    \<or> (\<exists>made call rest. cs = made @ (True, call) # rest \<and> succeeds works made \<and> \<not> works call
        \<and> perform works cs (Inr (), log) = (Inl call, log @ map snd made @ [call]))"
proof (induction cs arbitrary: log)
  case (Cons c cs)
  obtain counts call where c: "c = (counts, call)" by (rule prod.exhaust)
  show ?case
  proof (cases "counts \<and> \<not> works call")
    case True
    then show ?thesis by (intro disjI2 exI [of _ "[]"]) (simp add: c succeeds_def must_def perform_failed)
  next
    case False
    then have step: "perform works (c # cs) (Inr (), log) = perform works cs (Inr (), log @ [call])"
      and ok: "succeeds works (c # made) = succeeds works made" for made
      by (auto simp: c succeeds_def must_def may_def)
    from Cons [of "log @ [call]"] show ?thesis
    proof (elim disjE exE conjE)
      fix made call' rest
      assume "cs = made @ (True, call') # rest" "succeeds works made" "\<not> works call'"
        "perform works cs (Inr (), log @ [call]) = (Inl call', (log @ [call]) @ map snd made @ [call'])"
      then show ?thesis unfolding step by (intro disjI2 exI [of _ "c # made"]) (simp add: c ok [unfolded c])
    qed (simp add: step ok c [symmetric], simp add: c)
  qed
qed (simp add: succeeds_def)

definition socket_plan :: "socket_type \<Rightarrow> socket_addr \<Rightarrow> (bool \<times> socket_call) list" where
  "socket_plan ty addr =
     [(True, Create_socket (sock_is_ipv4 addr) ty), (True, Set_reuse_address)]
     @ (if sock_is_ipv6 addr \<and> is_unspecified (sock_ip addr) then [(False, Set_only_v6 False)] else [])
     @ [(False, Set_recv_buffer SOCK_BUF), (False, Set_send_buffer SOCK_BUF), (True, Set_nonblocking), (True, Bind_to addr)]
     @ (case ty of Stream \<Rightarrow> [(True, Listen 1024)] | Dgram \<Rightarrow> []) @ [(True, Hand_to_runtime)]"

lemma tcp_listen_plan: "tcp_listen works addr = perform works (socket_plan Stream addr) (Inr (), [])"
  by (simp add: tcp_listen_def bound_socket_def apply_buf_sizes_def socket_plan_def Let_def)

lemma udp_bind_plan: "udp_bind works addr = perform works (socket_plan Dgram addr) (Inr (), [])"
  by (simp add: udp_bind_def bound_socket_def apply_buf_sizes_def socket_plan_def Let_def)

section \<open>Properties\<close>

text \<open>A socket is handed out exactly when every call that counts succeeds, whatever the buffer sizes and the
  dual-stack option give; otherwise the error is that of the first such call that fails, and no later call is
  made: nothing is bound that is not yet reusable and non-blocking.\<close>

theorem tcp_listen_outcome:
  "succeeds works (socket_plan Stream addr) \<and> tcp_listen works addr = (Inr (), map snd (socket_plan Stream addr))
    \<or> (\<exists>made call rest. socket_plan Stream addr = made @ (True, call) # rest \<and> succeeds works made \<and> \<not> works call
        \<and> tcp_listen works addr = (Inl call, map snd made @ [call]))"
  using perform_outcome [of works "socket_plan Stream addr" "[]"] by (simp add: tcp_listen_plan)

theorem udp_bind_outcome:
  "succeeds works (socket_plan Dgram addr) \<and> udp_bind works addr = (Inr (), map snd (socket_plan Dgram addr))
    \<or> (\<exists>made call rest. socket_plan Dgram addr = made @ (True, call) # rest \<and> succeeds works made \<and> \<not> works call
        \<and> udp_bind works addr = (Inl call, map snd made @ [call]))"
  using perform_outcome [of works "socket_plan Dgram addr" "[]"] by (simp add: udp_bind_plan)

end
