(* ===== verification/Dataplane.thy ===== *)
theory Dataplane
  imports Tcp Udp_Send Proto Sockets
begin

text \<open>
  The set-up of a test in \<open>src/src/dataplane.rs\<close>: the map from peer addresses to host indices, the
  payload, the choice of the address to bind, and the tasks that \<open>spawn_tcp\<close> and \<open>spawn_udp\<close> start.
  The loops the tasks run are in theories Tcp, Udp and Udp_Send.
\<close>

section \<open>Peers by address\<close>

text \<open>\<open>lookup_host\<close> gives the addresses of a query, or fails; later insertions win.\<close>

definition map_addrs :: "addr_family option \<Rightarrow> u32 \<Rightarrow> socket_addr list \<Rightarrow> (ip_addr \<Rightarrow> u32 option) \<Rightarrow> ip_addr \<Rightarrow> u32 option" where
  "map_addrs family hid addrs m =
     fold (\<lambda>a m. if family_allows family a then m(sock_ip a \<mapsto> hid) else m) addrs m"

definition build_ip_map ::
  "(string \<Rightarrow> socket_addr list option) \<Rightarrow> string list \<Rightarrow> u16 \<Rightarrow> addr_family option \<Rightarrow> ip_addr \<Rightarrow> u32 option" where
  "build_ip_map lookup_host hosts port family =
     fold (\<lambda>(hid, host) m.
         case lookup_host (join_host_port host port) of
           None \<Rightarrow> m
         | Some addrs \<Rightarrow> map_addrs family (of_nat hid) addrs m)
       (enumerate 0 hosts) Map.empty"

section \<open>The payload\<close>

text \<open>\<open>usize\<close> has 64 bits, so the conversion never fails; the byte at index \<open>i\<close> is
  \<open>(i * 131) as u8 + 0xA5\<close>, both wrapping.\<close>

definition payload_byte :: "nat \<Rightarrow> byte" where
  "payload_byte i = ucast ((of_nat i :: u64) * 131) + 0xA5"

definition make_payload :: "u64 \<Rightarrow> byte list option" where
  "make_payload sz = (if sz = 0 then None else Some (map payload_byte [0..<unat sz]))"

section \<open>The bind address\<close>

definition CONNECT_DEADLINE :: nat where "CONNECT_DEADLINE = millis 30000"

text \<open>What the environment contributes to a start: fuel and clock of the retry loops, name resolution
  at each attempt, the interface list, and which system calls on a socket succeed.\<close>

record net_env =
  ne_fuel :: nat
  ne_polls :: "nat \<Rightarrow> poll"
  ne_dns :: "nat \<Rightarrow> string \<Rightarrow> socket_addr list option"
  ne_ifaddrs :: "if_addr list option"
  ne_socket :: "socket_call \<Rightarrow> bool"

definition local_socks :: "net_env \<Rightarrow> u16 \<Rightarrow> socket_addr list" where
  "local_socks env port = map (\<lambda>ip. socket_addr_new ip port) (local_unicast_ips (ne_ifaddrs env))"

definition resolve_bind ::
  "net_env \<Rightarrow> assignment \<Rightarrow> u16 \<Rightarrow> addr_family option \<Rightarrow> (net_error + socket_addr) option" where
  "resolve_bind env asg port family =
     (case (if asg_bind asg = [] then None else parse_sock (asg_bind asg)) of
        Some a \<Rightarrow> Some (Inr a)
      | None \<Rightarrow>
          (case resolve_retry (ne_fuel env) (ne_polls env) (ne_dns env) (self_name asg) port family CONNECT_DEADLINE of
             None \<Rightarrow> None
           | Some (Inr a) \<Rightarrow>
               if \<not> is_loopback (sock_ip a) \<or> is_loopback_host (self_name asg) then Some (Inr a)
               else Some (pick_addr (local_socks env port) family)
           | Some (Inl e) \<Rightarrow> Some (pick_addr (local_socks env port) family)))"

section \<open>Spawning\<close>

datatype spawn_error = Bad_port net_error | No_bind_address net_error | Socket_failed socket_call | Empty_payload

text \<open>The tasks: the accept loop and the senders of TCP, the receive loop and the senders of UDP.\<close>

datatype task =
    Tcp_accept "ip_addr \<Rightarrow> u32 option"
  | Tcp_send string u16 string "nat option"
  | Udp_recv nat u32
  | Udp_send socket_addr u32 "nat option"

record test_io =
  io_bind_addr :: socket_addr
  io_counters :: counters
  io_payload :: "byte list"
  io_tasks :: "task list"

definition tcp_targets :: "config \<Rightarrow> assignment \<Rightarrow> u16 \<Rightarrow> counters \<Rightarrow> task list" where
  "tcp_targets cfg asg port c =
     concat (map (\<lambda>t. replicate (unat (workers cfg)) (Tcp_send (tgt_name t) port (tgt_addr t) (counters_peer (tgt_id t) c)))
       (targets asg))"

definition spawn_tcp ::
  "net_env \<Rightarrow> (string \<Rightarrow> socket_addr list option) \<Rightarrow> config \<Rightarrow> assignment \<Rightarrow> addr_family option
   \<Rightarrow> (spawn_error + test_io) option" where
  "spawn_tcp env lookup_host cfg asg family =
     (case test_port cfg of Inl e \<Rightarrow> Some (Inl (Bad_port e))
      | Inr port \<Rightarrow>
        (case resolve_bind env asg port family of
           None \<Rightarrow> None
         | Some (Inl e) \<Rightarrow> Some (Inl (No_bind_address e))
         | Some (Inr bind_addr) \<Rightarrow>
           (case fst (tcp_listen (ne_socket env) bind_addr) of Inl call \<Rightarrow> Some (Inl (Socket_failed call))
            | Inr _ \<Rightarrow>
               let counters = counters_new (hostlist cfg);
                   ip_to_id = build_ip_map lookup_host (hostlist cfg) port family in
               (case make_payload (payload_size cfg) of
                  None \<Rightarrow> Some (Inl Empty_payload)
                | Some payload \<Rightarrow>
                    Some (Inr \<lparr>io_bind_addr = bind_addr, io_counters = counters, io_payload = payload,
                      io_tasks = Tcp_accept ip_to_id # tcp_targets cfg asg port counters\<rparr>)))))"

text \<open>The address a TCP sender connects to.\<close>

definition tcp_connect ::
  "net_env \<Rightarrow> (nat \<Rightarrow> string \<Rightarrow> 'stream option) \<Rightarrow> string \<Rightarrow> u16 \<Rightarrow> string \<Rightarrow> (net_error + 'stream) option" where
  "tcp_connect env connect host port dest =
     (case parse_sock dest of
        Some addr \<Rightarrow> connect_tcp_addr_retry (ne_fuel env) (ne_polls env) connect addr CONNECT_DEADLINE
      | None \<Rightarrow> connect_tcp_retry (ne_fuel env) (ne_polls env) connect host port CONNECT_DEADLINE)"

text \<open>UDP: a target that does not resolve is skipped. The outcome of each resolution is looked up per
  target; \<open>None\<close> is a retry loop that has not returned.\<close>

definition udp_dest :: "(target \<Rightarrow> net_env) \<Rightarrow> u16 \<Rightarrow> addr_family option \<Rightarrow> target \<Rightarrow> (net_error + socket_addr) option" where
  "udp_dest env_of port family t =
     (case parse_sock (tgt_addr t) of
        Some a \<Rightarrow> Some (Inr a)
      | None \<Rightarrow> resolve_retry (ne_fuel (env_of t)) (ne_polls (env_of t)) (ne_dns (env_of t)) (tgt_name t) port family
          CONNECT_DEADLINE)"

definition udp_target ::
  "(target \<Rightarrow> net_env) \<Rightarrow> config \<Rightarrow> u16 \<Rightarrow> addr_family option \<Rightarrow> counters \<Rightarrow> target \<Rightarrow> task list option" where
  "udp_target env_of cfg port family c t =
     (case udp_dest env_of port family t of
        None \<Rightarrow> None
      | Some (Inl e) \<Rightarrow> Some []
      | Some (Inr dest) \<Rightarrow>
          Some (replicate (unat (workers cfg)) (Udp_send dest (tgt_id t) (counters_peer (tgt_id t) c))))"

definition spawn_udp ::
  "net_env \<Rightarrow> (target \<Rightarrow> net_env) \<Rightarrow> config \<Rightarrow> assignment \<Rightarrow> addr_family option \<Rightarrow> (spawn_error + test_io) option" where
  "spawn_udp env env_of cfg asg family =
     (case test_port cfg of Inl e \<Rightarrow> Some (Inl (Bad_port e))
      | Inr port \<Rightarrow>
        (case resolve_bind env asg port family of
           None \<Rightarrow> None
         | Some (Inl e) \<Rightarrow> Some (Inl (No_bind_address e))
         | Some (Inr bind_addr) \<Rightarrow>
           (case fst (udp_bind (ne_socket env) bind_addr) of Inl call \<Rightarrow> Some (Inl (Socket_failed call))
            | Inr _ \<Rightarrow>
               let counters = counters_new (hostlist cfg) in
               (case make_payload (payload_size cfg) of
                  None \<Rightarrow> Some (Inl Empty_payload)
                | Some payload \<Rightarrow>
                    map_option (\<lambda>tss. Inr \<lparr>io_bind_addr = bind_addr, io_counters = counters, io_payload = payload,
                        io_tasks = Udp_recv (length (hostlist cfg)) (self_id asg) # concat tss\<rparr>)
                      (map_opt (udp_target env_of cfg port family counters) (targets asg))))))"

text \<open>The senders that a set of tasks adds up to, as the destinations of \<open>udp_system_new\<close>.\<close>

fun udp_senders :: "task list \<Rightarrow> (socket_addr \<times> u32) list" where
  "udp_senders [] = []"
| "udp_senders (Udp_send dest d p # ts) = (dest, d) # udp_senders ts"
| "udp_senders (_ # ts) = udp_senders ts"

section \<open>Facts\<close>

lemma map_addrs_iff:
  "map_addrs family hid addrs m ip =
     (if \<exists>a\<in>set addrs. family_allows family a \<and> sock_ip a = ip then Some hid else m ip)"
  unfolding map_addrs_def by (induction addrs arbitrary: m) auto

definition resolves_to ::
  "(string \<Rightarrow> socket_addr list option) \<Rightarrow> u16 \<Rightarrow> addr_family option \<Rightarrow> string \<Rightarrow> ip_addr \<Rightarrow> bool" where
  "resolves_to lookup_host port family host ip \<longleftrightarrow>
     (\<exists>addrs. lookup_host (join_host_port host port) = Some addrs
        \<and> (\<exists>a\<in>set addrs. family_allows family a \<and> sock_ip a = ip))"

lemma build_ip_map_snoc:
  "build_ip_map lookup_host (hosts @ [h]) port family ip =
     (if resolves_to lookup_host port family h ip then Some (of_nat (length hosts))
      else build_ip_map lookup_host hosts port family ip)"
  by (auto simp: build_ip_map_def resolves_to_def enumerate_append_eq map_addrs_iff split: option.split)

lemma length_map_payload: "make_payload sz = Some p \<Longrightarrow> length p = unat sz \<and> p \<noteq> []"
  by (auto simp: make_payload_def unat_eq_0 split: if_splits)

lemma resolve_one_allowed: "resolve_one dns host port family = Inr a \<Longrightarrow> family_allows family a"
  by (auto simp: resolve_one_def split: option.splits sum.splits dest: pick_addr_member)

lemma retry_result:
  "retry_loop fuel polls attempt deadline delay elapsed i = Some (Inr a) \<Longrightarrow> \<exists>j. attempt j = Inr a"
  by (induction fuel arbitrary: delay elapsed i) (auto simp: Let_def split: sum.splits if_splits)

lemma resolve_retry_allowed:
  "resolve_retry fuel polls dns host port family deadline = Some (Inr a) \<Longrightarrow> family_allows family a"
  unfolding resolve_retry_def by (auto dest!: retry_result resolve_one_allowed)

lemma sock_ip_new [simp]: "sock_ip (socket_addr_new ip port) = ip"
  by (cases ip) (simp_all add: socket_addr_new_def)

lemma resolve_bind_sound:
  assumes "resolve_bind env asg port family = Some (Inr a)" "asg_bind asg = [] \<or> parse_sock (asg_bind asg) = None"
  shows "family_allows family a \<and> (is_loopback (sock_ip a) \<longrightarrow> is_loopback_host (self_name asg))"
proof -
  have loc: "family_allows family b \<and> \<not> is_loopback (sock_ip b)" if "pick_addr (local_socks env port) family = Inr b" for b
  proof -
    have b: "b \<in> set (local_socks env port)" "family_allows family b" using pick_addr_member [OF that] by auto
    then show ?thesis
      using local_unicast_usable by (auto simp: local_socks_def usable_local_def)
  qed
  show ?thesis
    using assms loc
    by (auto simp: resolve_bind_def dest: resolve_retry_allowed split: option.splits sum.splits if_splits)
qed

lemma udp_senders_append [simp]: "udp_senders (xs @ ys) = udp_senders xs @ udp_senders ys"
  by (induction xs rule: udp_senders.induct) auto

lemma udp_senders_replicate [simp]: "udp_senders (replicate n (Udp_send a d p)) = replicate n (a, d)"
  by (induction n) auto

text \<open>The addresses that a target without an assigned address may be sent to.\<close>

definition offered_dest :: "(target \<Rightarrow> net_env) \<Rightarrow> u16 \<Rightarrow> addr_family option \<Rightarrow> target \<Rightarrow> socket_addr \<Rightarrow> bool" where
  "offered_dest env_of port family t dest \<longleftrightarrow>
     family_allows family dest
     \<and> (\<exists>j addrs. ne_dns (env_of t) j (join_host_port (tgt_name t) port) = Some addrs \<and> dest \<in> set addrs)"

definition known_dest :: "(target \<Rightarrow> net_env) \<Rightarrow> u16 \<Rightarrow> addr_family option \<Rightarrow> target \<Rightarrow> socket_addr option" where
  "known_dest env_of port family t = (case udp_dest env_of port family t of Some (Inr dest) \<Rightarrow> Some dest | _ \<Rightarrow> None)"

lemma known_dest_offered:
  assumes "known_dest env_of port family t = Some dest" "parse_sock (tgt_addr t) = None"
  shows "offered_dest env_of port family t dest"
proof -
  have "resolve_retry (ne_fuel (env_of t)) (ne_polls (env_of t)) (ne_dns (env_of t)) (tgt_name t) port family CONNECT_DEADLINE = Some (Inr dest)"
    using assms by (auto simp: known_dest_def udp_dest_def split: option.splits sum.splits)
  then obtain j where "resolve_one (ne_dns (env_of t) j) (tgt_name t) port family = Inr dest"
    unfolding resolve_retry_def by (blast dest: retry_result)
  then show ?thesis
    by (force simp: offered_dest_def resolve_one_def split: option.splits sum.splits dest: pick_addr_member)
qed

definition sends_to :: "(target \<Rightarrow> socket_addr option) \<Rightarrow> config \<Rightarrow> target \<Rightarrow> task list" where
  "sends_to dest_of cfg t =
     (case dest_of t of
        None \<Rightarrow> []
      | Some dest \<Rightarrow> replicate (unat (workers cfg)) (Udp_send dest (tgt_id t)
          (if unat (tgt_id t) < length (hostlist cfg) then Some (unat (tgt_id t)) else None)))"

lemma udp_target_sends:
  assumes "udp_target env_of cfg port family (counters_new (hostlist cfg)) t = Some ts"
  shows "ts = sends_to (known_dest env_of port family) cfg t \<and> (\<exists>r. udp_dest env_of port family t = Some r)"
  using assms
  by (auto simp: udp_target_def known_dest_def sends_to_def counters_peer_def counters_new_def split: option.splits sum.splits)

lemma spawn_udp_tasks:
  assumes "spawn_udp env env_of cfg asg family = Some (Inr io)"
  shows "\<exists>port. test_port cfg = Inr port
    \<and> io_tasks io = Udp_recv (length (hostlist cfg)) (self_id asg)
        # concat (map (sends_to (known_dest env_of port family) cfg) (targets asg))
    \<and> (\<forall>t\<in>set (targets asg). \<exists>r. udp_dest env_of port family t = Some r)
    \<and> io_counters io = counters_new (hostlist cfg) \<and> make_payload (payload_size cfg) = Some (io_payload io)"
proof -
  obtain port where port: "test_port cfg = Inr port" using assms by (auto simp: spawn_udp_def split: sum.splits)
  then obtain payload tss where *: "make_payload (payload_size cfg) = Some payload"
      "map_opt (udp_target env_of cfg port family (counters_new (hostlist cfg))) (targets asg) = Some tss"
      "io_tasks io = Udp_recv (length (hostlist cfg)) (self_id asg) # concat tss"
      "io_counters io = counters_new (hostlist cfg)" "io_payload io = payload"
    using assms by (auto simp: spawn_udp_def Let_def split: option.splits sum.splits if_splits)
  have "list_all2 (\<lambda>t ts. udp_target env_of cfg port family (counters_new (hostlist cfg)) t = Some ts) (targets asg) tss"
    using *(2) by (simp add: map_opt_eq_Some)
  then have "tss = map (sends_to (known_dest env_of port family) cfg) (targets asg)
      \<and> (\<forall>t\<in>set (targets asg). \<exists>r. udp_dest env_of port family t = Some r)"
    by (induction rule: list_all2_induct) (auto dest: udp_target_sends)
  then show ?thesis using port * by simp
qed

lemma one_worker_senders:
  assumes "workers cfg = 1" "distinct (map tgt_id ts)"
  shows "distinct (map snd (udp_senders (concat (map (sends_to dest_of cfg) ts))))"
proof -
  have one: "set (map snd (udp_senders (sends_to dest_of cfg t))) \<subseteq> {tgt_id t} \<and> distinct (map snd (udp_senders (sends_to dest_of cfg t)))" for t
    using assms(1) by (auto simp: sends_to_def split: option.split)
  then have all: "set (map snd (udp_senders (concat (map (sends_to dest_of cfg) ts)))) \<subseteq> set (map tgt_id ts)" for ts
  proof (induction ts)
    case (Cons t ts)
    with one [of t] show ?case by (simp only: list.map concat.simps udp_senders_append map_append set_append list.set) blast
  qed simp
  show ?thesis
    using assms(2)
  proof (induction ts)
    case (Cons t ts)
    then have "tgt_id t \<notin> set (map tgt_id ts)" "distinct (map snd (udp_senders (concat (map (sends_to dest_of cfg) ts))))"
      by simp_all
    with one [of t] all [of ts] show ?case
      by (simp only: list.map concat.simps udp_senders_append map_append distinct_append) blast
  qed simp
qed

lemma spawn_tcp_result:
  assumes "spawn_tcp env lookup_host cfg asg family = Some (Inr io)"
  shows "\<exists>port. test_port cfg = Inr port \<and> make_payload (payload_size cfg) = Some (io_payload io)
    \<and> io_counters io = counters_new (hostlist cfg)
    \<and> io_tasks io = Tcp_accept (build_ip_map lookup_host (hostlist cfg) port family)
        # tcp_targets cfg asg port (counters_new (hostlist cfg))
    \<and> resolve_bind env asg port family = Some (Inr (io_bind_addr io))"
  using assms by (auto simp: spawn_tcp_def Let_def split: option.splits sum.splits if_splits)

lemma length_tcp_targets: "length (tcp_targets cfg asg port c) = unat (workers cfg) * length (targets asg)"
  by (simp add: tcp_targets_def length_concat comp_def sum_list_triv mult.commute)

definition last_resolver ::
  "(string \<Rightarrow> socket_addr list option) \<Rightarrow> u16 \<Rightarrow> addr_family option \<Rightarrow> ip_addr \<Rightarrow> string list \<Rightarrow> nat \<Rightarrow> bool" where
  "last_resolver lookup_host port family ip hosts i \<longleftrightarrow>
     i < length hosts \<and> resolves_to lookup_host port family (hosts ! i) ip
     \<and> (\<forall>j. i < j \<and> j < length hosts \<longrightarrow> \<not> resolves_to lookup_host port family (hosts ! j) ip)"

lemma last_resolver_snoc:
  "last_resolver lookup_host port family ip (hosts @ [h]) i \<longleftrightarrow>
     (if resolves_to lookup_host port family h ip then i = length hosts
      else last_resolver lookup_host port family ip hosts i)"
proof (cases "resolves_to lookup_host port family h ip")
  case True
  have "\<not> last_resolver lookup_host port family ip (hosts @ [h]) i" if "i < length hosts"
    using that True unfolding last_resolver_def
    by (intro notI) (elim conjE allE [of _ "length hosts"], simp)
  moreover have "last_resolver lookup_host port family ip (hosts @ [h]) (length hosts)"
    using True by (auto simp: last_resolver_def)
  moreover have "last_resolver lookup_host port family ip (hosts @ [h]) i \<Longrightarrow> i \<le> length hosts"
    by (simp add: last_resolver_def)
  ultimately show ?thesis using True by (metis le_neq_implies_less)
next
  case False
  have nth: "resolves_to lookup_host port family ((hosts @ [h]) ! j) ip \<longleftrightarrow>
      j < length hosts \<and> resolves_to lookup_host port family (hosts ! j) ip" if "j < Suc (length hosts)" for j
    using that False by (cases "j = length hosts") (simp_all add: nth_append)
  show ?thesis
    using nth False unfolding last_resolver_def by (simp cong: conj_cong) (meson less_SucI)
qed

lemma build_ip_map_last:
  "build_ip_map lookup_host hosts port family ip = Some k \<longleftrightarrow>
    (\<exists>i. last_resolver lookup_host port family ip hosts i \<and> k = of_nat i)"
proof (induction hosts rule: rev_induct)
  case Nil
  then show ?case by (simp add: build_ip_map_def last_resolver_def)
next
  case (snoc h hosts)
  show ?case
    using snoc by (cases "resolves_to lookup_host port family h ip") (auto simp: build_ip_map_snoc last_resolver_snoc)
qed

lemma last_resolver_unique:
  "last_resolver lookup_host port family ip hosts i \<Longrightarrow> last_resolver lookup_host port family ip hosts j \<Longrightarrow> i = j"
  unfolding last_resolver_def by (metis linorder_neqE_nat)

lemma peer_at_last_resolver:
  assumes "length hosts \<le> 2 ^ 32"
  shows "peer_at (build_ip_map lookup_host hosts port family) hosts ip = Some i
    \<longleftrightarrow> last_resolver lookup_host port family ip hosts i"
proof (cases "build_ip_map lookup_host hosts port family ip")
  case None
  then have "\<not> last_resolver lookup_host port family ip hosts i"
    using build_ip_map_last [of lookup_host hosts port family ip "of_nat i"] by auto
  then show ?thesis using None by (simp add: peer_at_def)
next
  case (Some k)
  then obtain j where j: "last_resolver lookup_host port family ip hosts j" "k = of_nat j"
    using build_ip_map_last by metis
  then have "j < length hosts" by (simp add: last_resolver_def)
  then have "unat k = j" "j < length hosts" using assms j(2) by (simp_all add: unat_of_nat)
  then show ?thesis using Some j(1) last_resolver_unique by (auto simp: peer_at_def)
qed

section \<open>Properties\<close>

text \<open>C37: an address is attributed to the last host of the list that resolves to it within the
  family; an address that no host resolves to is attributed to none.\<close>

theorem ip_map_attribution:
  "build_ip_map lookup_host hosts port family ip = Some k \<longleftrightarrow>
    (\<exists>i. last_resolver lookup_host port family ip hosts i \<and> k = of_nat i)"
  by (rule build_ip_map_last)

text \<open>C33: every byte that a connection brings in between its acceptance and its end is counted once for
  the whole test; and once for the host that its peer's address belongs to, which is the last of the
  list that resolves to it. Nothing else is counted as received.\<close>

theorem tcp_bytes_attributed:
  assumes "length hosts \<le> 2 ^ 32" "i < length hosts"
  shows "let c = ts_counters (tcp_serve (build_ip_map lookup_host hosts port family) hosts es) in
    as_bytes_recv (cnt_total c) = of_nat (bytes_from (\<lambda>_. True) es)
    \<and> as_bytes_recv (cnt_peers c ! i) = of_nat (bytes_from (\<lambda>ip. last_resolver lookup_host port family ip hosts i) es)"
  using tcp_serve_account [of "build_ip_map lookup_host hosts port family" hosts es] assms(2)
  by (simp add: tcp_account_def Let_def peer_at_last_resolver [OF assms(1)])

lemma bytes_from_list:
  "bytes_from P es = sum_list (map (\<lambda>b. case b of Some (ip, n) \<Rightarrow> if P ip then n else 0 | None \<Rightarrow> 0)
     (map (\<lambda>k. brings (take k es) (es ! k)) [0..<length es]))"
  by (simp add: bytes_from_def interv_sum_list_conv_sum_set_nat atLeast0LessThan comp_def)

text \<open>Two hosts, and a connection from each and from a stranger.\<close>

definition sample_lookup :: "string \<Rightarrow> socket_addr list option" where
  "sample_lookup query = (if query = ''a:9100'' then Some [SockV4 7 9100] else if query = ''b:9100'' then Some [SockV4 8 9100] else None)"

definition sample_traffic :: "tcp_event list" where
  "sample_traffic = [Accepted (SockV4 7 55), Accepted (SockV4 9 55), Accepted (SockV4 8 55), On_conn 0 (Read 100),
     On_conn 1 (Read 30), On_conn 2 (Read 5), On_conn 2 (Read 0), On_conn 0 (Read 1), On_conn 2 (Read 8)]"

theorem tcp_bytes_attributed_witness:
  "as_bytes_recv (cnt_peers (ts_counters (tcp_serve (build_ip_map sample_lookup [''a'', ''b''] 9100 None) [''a'', ''b''] sample_traffic)) ! 0) = 101
   \<and> as_bytes_recv (cnt_peers (ts_counters (tcp_serve (build_ip_map sample_lookup [''a'', ''b''] 9100 None) [''a'', ''b''] sample_traffic)) ! 1) = 5
   \<and> as_bytes_recv (cnt_total (ts_counters (tcp_serve (build_ip_map sample_lookup [''a'', ''b''] 9100 None) [''a'', ''b''] sample_traffic))) = 136"
proof -
  have query: "join_host_port ''a'' 9100 = ''a:9100''" "join_host_port ''b'' 9100 = ''b:9100''" by code_simp+
  have "resolves_to sample_lookup 9100 None ''a'' ip \<longleftrightarrow> ip = IpV4 7" "resolves_to sample_lookup 9100 None ''b'' ip \<longleftrightarrow> ip = IpV4 8" for ip
    by (auto simp: resolves_to_def sample_lookup_def query family_allows_def)
  then have who: "last_resolver sample_lookup 9100 None ip [''a'', ''b''] i \<longleftrightarrow> ip = IpV4 7 \<and> i = 0 \<or> ip = IpV4 8 \<and> i = 1" for ip i
    unfolding last_resolver_def by (cases "i = 0"; cases "i = 1") auto
  have "map (\<lambda>k. brings (take k sample_traffic) (sample_traffic ! k)) [0..<length sample_traffic]
      = [None, None, None, Some (IpV4 7, 100), Some (IpV4 9, 30), Some (IpV4 8, 5), Some (IpV4 8, 0), Some (IpV4 7, 1), None]"
    by code_simp
  then have "bytes_from P sample_traffic = (if P (IpV4 7) then 101 else 0) + (if P (IpV4 9) then 30 else 0) + (if P (IpV4 8) then 5 else 0)" for P
    by (simp add: bytes_from_list)
  with tcp_bytes_attributed [of "[''a'', ''b'']" 0 sample_lookup 9100 None sample_traffic]
    tcp_bytes_attributed [of "[''a'', ''b'']" 1 sample_lookup 9100 None sample_traffic]
  show ?thesis by (simp add: who Let_def)
qed

text \<open>An address that a server binds for lack of an assigned one lies in the requested family, and
  is a loopback address only for a server that is itself named by a loopback address.\<close>

theorem bind_address_sound:
  assumes "resolve_bind env asg port family = Some (Inr a)" "asg_bind asg = [] \<or> parse_sock (asg_bind asg) = None"
  shows "family_allows family a \<and> (\<not> is_loopback (sock_ip a) \<or> is_loopback_host (self_name asg))"
  using resolve_bind_sound [OF assms] by blast

definition sample_env :: net_env where
  "sample_env =
     \<lparr>ne_fuel = 80, ne_polls = sample_polls,
      ne_dns = (\<lambda>_ _. Some [SockV4 2130706433 9100]), ne_ifaddrs = Some [If_null, If_inet 2130706433, If_inet 167772161],
      ne_socket = (\<lambda>_. True)\<rparr>"

definition sample_assignment :: assignment where
  "sample_assignment =
     \<lparr>self_name = ''a'', self_id = 0, asg_bind = ''10.0.0.1:9100'',
      targets = [\<lparr>tgt_name = ''b'', tgt_id = 1, tgt_addr = ''10.0.0.2:9100''\<rparr>]\<rparr>"

theorem bind_address_sound_witness:
  "family_allows (Some FamV4) (SockV4 167772161 9100) \<and> is_loopback (sock_ip (SockV4 167772161 9100)) = False"
proof -
  have "resolve_bind sample_env (sample_assignment\<lparr>asg_bind := []\<rparr>) 9100 (Some FamV4) = Some (Inr (SockV4 167772161 9100))" by code_simp
  then have "family_allows (Some FamV4) (SockV4 167772161 9100)
    \<and> (\<not> is_loopback (sock_ip (SockV4 167772161 9100)) \<or> is_loopback_host (self_name (sample_assignment\<lparr>asg_bind := []\<rparr>)))"
    by (rule bind_address_sound) (simp add: sample_assignment_def)
  moreover have "\<not> is_loopback_host (self_name (sample_assignment\<lparr>asg_bind := []\<rparr>))" by code_simp
  ultimately show ?thesis by blast
qed

text \<open>A TCP test starts one accept loop and, for every target, as many senders as there are workers;
  all counters start at zero, one set per host, and the payload has the configured, non-zero length.\<close>

theorem tcp_test_spawned:
  assumes "spawn_tcp env lookup_host cfg asg family = Some (Inr io)"
  shows "length (io_tasks io) = 1 + unat (workers cfg) * length (targets asg)
    \<and> io_counters io = counters_new (hostlist cfg)
    \<and> length (io_payload io) = unat (payload_size cfg) \<and> io_payload io \<noteq> []"
  using spawn_tcp_result [OF assms] length_map_payload by (auto simp: length_tcp_targets)

theorem tcp_test_spawned_witness:
  "case spawn_tcp sample_env (\<lambda>_. None) sample_config sample_assignment None of
     Some (Inr io) \<Rightarrow> length (io_tasks io) = 1 + unat (workers sample_config) * length (targets sample_assignment)
   | _ \<Rightarrow> False"
proof -
  have "case spawn_tcp sample_env (\<lambda>_. None) sample_config sample_assignment None of Some (Inr io) \<Rightarrow> True | _ \<Rightarrow> False"
    by code_simp
  then obtain io where io: "spawn_tcp sample_env (\<lambda>_. None) sample_config sample_assignment None = Some (Inr io)"
    by (auto split: option.splits sum.splits)
  show ?thesis using tcp_test_spawned [OF io] by (simp add: io)
qed

text \<open>C31: A UDP test that starts runs the receiver of the server and exactly these senders: for each target
  in turn one per worker, with the target's number and its counters, to the address assigned to the
  target, or else to one that resolving its name offered within the family. Left out are only targets
  without an assigned address whose resolution ended with an error. The counters start at zero, and the
  payload has the configured, non-zero length. With one worker and targets that differ, no two senders have
  the same target.\<close>

theorem udp_test_spawned:
  assumes "spawn_udp env env_of cfg asg family = Some (Inr io)"
  shows "\<exists>port dest_of. test_port cfg = Inr port
    \<and> io_tasks io = Udp_recv (length (hostlist cfg)) (self_id asg) # concat (map (\<lambda>t.
        case dest_of t of
          None \<Rightarrow> []
        | Some dest \<Rightarrow> replicate (unat (workers cfg)) (Udp_send dest (tgt_id t)
            (if unat (tgt_id t) < length (hostlist cfg) then Some (unat (tgt_id t)) else None))) (targets asg))
    \<and> (\<forall>t\<in>set (targets asg).
        case parse_sock (tgt_addr t) of
          Some a \<Rightarrow> dest_of t = Some a
        | None \<Rightarrow>
            (case dest_of t of
               Some dest \<Rightarrow> offered_dest env_of port family t dest
             | None \<Rightarrow> \<exists>e. resolve_retry (ne_fuel (env_of t)) (ne_polls (env_of t)) (ne_dns (env_of t)) (tgt_name t)
                 port family CONNECT_DEADLINE = Some (Inl e)))
    \<and> io_counters io = counters_new (hostlist cfg) \<and> length (io_payload io) = unat (payload_size cfg) \<and> io_payload io \<noteq> []
    \<and> (workers cfg = 1 \<and> distinct (map tgt_id (targets asg)) \<longrightarrow> distinct (map snd (udp_senders (io_tasks io))))"
proof -
  obtain port where port: "test_port cfg = Inr port"
    and tasks: "io_tasks io = Udp_recv (length (hostlist cfg)) (self_id asg)
        # concat (map (sends_to (known_dest env_of port family) cfg) (targets asg))"
    and dests: "\<forall>t\<in>set (targets asg). \<exists>r. udp_dest env_of port family t = Some r"
    and rest: "io_counters io = counters_new (hostlist cfg)" "make_payload (payload_size cfg) = Some (io_payload io)"
    using spawn_udp_tasks [OF assms] by blast
  let ?dest = "known_dest env_of port family"
  have "case parse_sock (tgt_addr t) of
      Some a \<Rightarrow> ?dest t = Some a
    | None \<Rightarrow> (case ?dest t of
          Some dest \<Rightarrow> offered_dest env_of port family t dest
        | None \<Rightarrow> \<exists>e. resolve_retry (ne_fuel (env_of t)) (ne_polls (env_of t)) (ne_dns (env_of t)) (tgt_name t)
            port family CONNECT_DEADLINE = Some (Inl e))" if "t \<in> set (targets asg)" for t
  proof -
    from bspec [OF dests that] obtain r where "udp_dest env_of port family t = Some r" ..
    then have "case parse_sock (tgt_addr t) of
        Some a \<Rightarrow> ?dest t = Some a
      | None \<Rightarrow> ?dest t \<noteq> None \<or> (\<exists>e. resolve_retry (ne_fuel (env_of t)) (ne_polls (env_of t)) (ne_dns (env_of t)) (tgt_name t)
          port family CONNECT_DEADLINE = Some (Inl e))"
      unfolding known_dest_def by (cases r; cases "parse_sock (tgt_addr t)") (simp_all add: udp_dest_def)
    then show ?thesis using known_dest_offered [of env_of port family t]
      by (cases "parse_sock (tgt_addr t)"; cases "?dest t") simp_all
  qed
  then show ?thesis
    using port tasks rest length_map_payload [OF rest(2)] one_worker_senders [of cfg "targets asg" ?dest]
    by (intro exI [of _ port] exI [of _ ?dest]) (simp add: sends_to_def [abs_def])
qed

theorem udp_test_spawned_witness:
  "case spawn_udp sample_env (\<lambda>_. sample_env) (sample_config\<lparr>workers := 2\<rparr>) sample_assignment None of
     Some (Inr io) \<Rightarrow> io_tasks io = [Udp_recv 2 0, Udp_send (SockV4 167772162 9100) 1 (Some 1), Udp_send (SockV4 167772162 9100) 1 (Some 1)]
   | _ \<Rightarrow> False"
proof -
  have "case spawn_udp sample_env (\<lambda>_. sample_env) (sample_config\<lparr>workers := 2\<rparr>) sample_assignment None of
      Some (Inr io) \<Rightarrow> True | _ \<Rightarrow> False"
    by code_simp
  then obtain io where io: "spawn_udp sample_env (\<lambda>_. sample_env) (sample_config\<lparr>workers := 2\<rparr>) sample_assignment None = Some (Inr io)"
    by (auto split: option.splits sum.splits)
  have replicate_2: "replicate 2 x = [x, x]" for x :: task by (simp add: numeral_2_eq_2)
  have "parse_sock ''10.0.0.2:9100'' = Some (SockV4 167772162 9100)" by code_simp
  with udp_test_spawned [OF io]
  have "io_tasks io = [Udp_recv 2 0, Udp_send (SockV4 167772162 9100) 1 (Some 1), Udp_send (SockV4 167772162 9100) 1 (Some 1)]"
    by (auto simp: sample_assignment_def sample_config_def replicate_2)
  then show ?thesis by (simp only: io option.case sum.case)
qed

end
