(* ===== verification/Server.thy ===== *)
theory Server
  imports Transition Sampler Dataplane
begin

text \<open>
  The control session of \<open>src/src/server.rs\<close>: \<open>handle_conn\<close> reads commands, starts and stops the
  running test and answers each command, while the metrics task of a running test writes its windows
  to the same connection. \<open>RunningTest::stop\<close> returns when the tasks of the test's \<open>JoinSet\<close> have ended; its
  test is live until then (the receive loops of accepted TCP connections are spawned outside that set and
  end on their own once the token is cancelled). The steps below are those of the handler and of the metrics task, in any order.
\<close>

section \<open>The control address\<close>

definition control_bind ::
  "(string \<Rightarrow> socket_addr list option) \<Rightarrow> string \<Rightarrow> net_error + socket_addr" where
  "control_bind lookup_host addr =
     bind_result (parse_host_port addr) (\<lambda>(host, port).
       case parse_ip host of
         Some ip \<Rightarrow> Inr (socket_addr_new ip port)
       | None \<Rightarrow> resolve_one lookup_host host port None)"

datatype listen_error = Bad_control_addr net_error | Not_listening socket_call

text \<open>What \<open>run\<close> does before its accept loop.\<close>

definition server_listen ::
  "(string \<Rightarrow> socket_addr list option) \<Rightarrow> (socket_call \<Rightarrow> bool) \<Rightarrow> string \<Rightarrow> listen_error + socket_addr" where
  "server_listen lookup_host works addr =
     bind_result (map_sum Bad_control_addr id (control_bind lookup_host addr)) (\<lambda>bind.
       case fst (tcp_listen works bind) of Inl call \<Rightarrow> Inl (Not_listening call) | Inr _ \<Rightarrow> Inr bind)"

section \<open>Starting a test\<close>

datatype start_error = Config_from_client config_error | Bad_test_addr net_error | Spawn_failed spawn_error

text \<open>The environment of one start: sockets and names, those of each UDP target, and the name lookup
  of the peer map. \<open>None\<close>: a retry loop has not returned.\<close>

record start_env =
  se_net :: net_env
  se_targets :: "target \<Rightarrow> net_env"
  se_lookup :: "string \<Rightarrow> socket_addr list option"

definition start_test :: "start_env \<Rightarrow> config \<Rightarrow> assignment \<Rightarrow> (start_error + test_io) option" where
  "start_test env cfg asg =
     (case validate cfg of Inl e \<Rightarrow> Some (Inl (Config_from_client e))
      | Inr _ \<Rightarrow>
        (case test_family cfg of Inl e \<Rightarrow> Some (Inl (Bad_test_addr e))
         | Inr family \<Rightarrow>
             map_option (map_sum Spawn_failed id)
               (case cfg_network cfg of
                  Tcp \<Rightarrow> spawn_tcp (se_net env) (se_lookup env) cfg asg family
                | Udp \<Rightarrow> spawn_udp (se_net env) (se_targets env) cfg asg family)))"

section \<open>The session\<close>

text \<open>A live test: its tasks have been spawned and not yet joined.\<close>

record live_test =
  lt_id :: nat
  lt_io :: test_io
  lt_sampler :: sampler

datatype after_stop = Then_start config assignment | Then_ack_stop | Then_end "frame_error option"

datatype session_pc =
    Reading
  | Stopping nat after_stop
  | Starting config assignment
  | Acking_start nat
  | Reporting start_error
  | Acking_stop
  | Ended_with "frame_error option"

text \<open>The bytes the client's connection will still deliver, what was written to it, the handler's
  position, its variable \<open>test\<close>, the live tests, and the number of tests started.\<close>

record session =
  ss_in :: "byte list"
  ss_out :: writer
  ss_pc :: session_pc
  ss_test :: "nat option"
  ss_live :: "live_test list"
  ss_next :: nat

definition session_new :: "byte list \<Rightarrow> writer \<Rightarrow> session" where
  "session_new inp out = \<lparr>ss_in = inp, ss_out = out, ss_pc = Reading, ss_test = None, ss_live = [], ss_next = 0\<rparr>"

fun resume :: "after_stop \<Rightarrow> session_pc" where
  "resume (Then_start cfg asg) = Starting cfg asg"
| "resume Then_ack_stop = Acking_stop"
| "resume (Then_end e) = Ended_with e"

text \<open>\<open>if let Some(t) = test.take() { t.stop().await; }\<close>, and what comes after it.\<close>

definition take_test :: "after_stop \<Rightarrow> session \<Rightarrow> session" where
  "take_test k s =
     s\<lparr>ss_test := None, ss_pc := (case ss_test s of Some t \<Rightarrow> Stopping t k | None \<Rightarrow> resume k)\<rparr>"

definition end_test :: "nat \<Rightarrow> session \<Rightarrow> session" where
  "end_test t s = s\<lparr>ss_live := filter (\<lambda>l. lt_id l \<noteq> t) (ss_live s)\<rparr>"

datatype session_label =
    Received msg
  | Disconnected frame_error
  | Test_stopped nat
  | Test_cut nat metric_window
  | Test_started nat test_io
  | Test_refused start_error
  | Replied msg "frame_error + unit"
  | Window_sent nat metric_window "frame_error + unit"
  | Sampler_ended nat

text \<open>The codec of the messages, the text of an error, and the clock ticks per second.\<close>

record server_ctx =
  sc_to_vec :: "msg \<Rightarrow> byte list option"
  sc_from_slice :: "byte list \<Rightarrow> msg option"
  sc_text :: "start_error \<Rightarrow> string"
  sc_sysconf :: int

text \<open>A reading of the counters of this test.\<close>

definition reads_test :: "test_io \<Rightarrow> reading \<Rightarrow> bool" where
  "reads_test io r \<longleftrightarrow>
     cnt_names (rd_counters r) = cnt_names (io_counters io)
     \<and> length (cnt_peers (rd_counters r)) = length (cnt_peers (io_counters io))"

inductive session_step :: "server_ctx \<Rightarrow> session \<Rightarrow> session_label \<Rightarrow> session \<Rightarrow> bool" for ctx where
  recv_start: "session_step ctx s (Received (Start cfg asg)) (take_test (Then_start cfg asg) (s\<lparr>ss_in := rest\<rparr>))"
    if "ss_pc s = Reading" "read_frame (sc_from_slice ctx) (ss_in s) = Inr (Start cfg asg, rest)"
| recv_stop: "session_step ctx s (Received Stop) (take_test Then_ack_stop (s\<lparr>ss_in := rest\<rparr>))"
    if "ss_pc s = Reading" "read_frame (sc_from_slice ctx) (ss_in s) = Inr (Stop, rest)"
| recv_other: "session_step ctx s (Received m) (s\<lparr>ss_in := rest\<rparr>)"
    if "ss_pc s = Reading" "read_frame (sc_from_slice ctx) (ss_in s) = Inr (m, rest)"
      "m \<noteq> Stop" "\<forall>cfg asg. m \<noteq> Start cfg asg"
| recv_failed: "session_step ctx s (Disconnected e) (take_test (Then_end None) s)"
    if "ss_pc s = Reading" "read_frame (sc_from_slice ctx) (ss_in s) = Inl e"
| stopped: "session_step ctx s (Test_stopped t) (end_test t (s\<lparr>ss_pc := resume k\<rparr>))"
    if "ss_pc s = Stopping t k"
| cut: "session_step ctx s (Test_cut t w) (end_test t (s\<lparr>ss_pc := resume k, ss_out := snd (write_all bs (ss_out s))\<rparr>))"
    if "ss_pc s = Stopping t k" "l \<in> set (ss_live s)" "lt_id l = t" "reads_test (lt_io l) (snd turn)"
      "sampler_turn (sc_sysconf ctx) turn (lt_sampler l) = Some (Some w, m)"
      "sc_to_vec ctx (Metrics w) = Some data" "length data \<le> MAX_FRAME" "strict_prefix bs (frame data)"
| started: "session_step ctx s (Test_started (ss_next s) io)
      (s\<lparr>ss_pc := Acking_start (ss_next s), ss_next := Suc (ss_next s),
         ss_live := ss_live s @ [\<lparr>lt_id = ss_next s, lt_io = io, lt_sampler = sampler_new (self_name asg) r\<rparr>]\<rparr>)"
    if "ss_pc s = Starting cfg asg" "start_test env cfg asg = Some (Inr io)" "reads_test io r"
| refused: "session_step ctx s (Test_refused e) (s\<lparr>ss_pc := Reporting e\<rparr>)"
    if "ss_pc s = Starting cfg asg" "start_test env cfg asg = Some (Inl e)"
| start_acked: "session_step ctx s (Replied (Ack ''start'') (Inr ())) (s\<lparr>ss_pc := Reading, ss_test := Some t, ss_out := out\<rparr>)"
    if "ss_pc s = Acking_start t" "write_frame (sc_to_vec ctx) (Ack ''start'') (ss_out s) = (Inr (), out)"
| start_ack_failed: "session_step ctx s (Replied (Ack ''start'') (Inl e)) (s\<lparr>ss_pc := Stopping t (Then_end (Some e)), ss_out := out\<rparr>)"
    if "ss_pc s = Acking_start t" "write_frame (sc_to_vec ctx) (Ack ''start'') (ss_out s) = (Inl e, out)"
| reported: "session_step ctx s (Replied (Error (sc_text ctx e)) r) (s\<lparr>ss_pc := Reading, ss_out := out\<rparr>)"
    if "ss_pc s = Reporting e" "write_frame (sc_to_vec ctx) (Error (sc_text ctx e)) (ss_out s) = (r, out)"
| stop_acked: "session_step ctx s (Replied (Ack ''stop'') (Inr ())) (s\<lparr>ss_pc := Reading, ss_out := out\<rparr>)"
    if "ss_pc s = Acking_stop" "write_frame (sc_to_vec ctx) (Ack ''stop'') (ss_out s) = (Inr (), out)"
| stop_ack_failed: "session_step ctx s (Replied (Ack ''stop'') (Inl e)) (s\<lparr>ss_pc := Ended_with (Some e), ss_out := out\<rparr>)"
    if "ss_pc s = Acking_stop" "write_frame (sc_to_vec ctx) (Ack ''stop'') (ss_out s) = (Inl e, out)"
| window: "session_step ctx s (Window_sent (lt_id l) w r) (s\<lparr>ss_live := ls @ l\<lparr>lt_sampler := m\<rparr> # ks, ss_out := out\<rparr>)"
    if "ss_live s = ls @ l # ks" "reads_test (lt_io l) (snd turn)"
      "sampler_turn (sc_sysconf ctx) turn (lt_sampler l) = Some (Some w, m)"
      "write_frame (sc_to_vec ctx) (Metrics w) (ss_out s) = (r, out)"
| sampler_ended: "session_step ctx s (Sampler_ended (lt_id l)) (s\<lparr>ss_live := ls @ l\<lparr>lt_sampler := m\<rparr> # ks\<rparr>)"
    if "ss_live s = ls @ l # ks" "reads_test (lt_io l) (snd turn)"
      "sampler_turn (sc_sysconf ctx) turn (lt_sampler l) = Some (None, m)"

inductive_cases session_window_cases: "session_step ctx s (Window_sent t w r) s'"
inductive_cases session_reply_cases: "session_step ctx s (Replied m r) s'"

section \<open>At most one live test\<close>

text \<open>The test the handler is responsible for.\<close>

definition holder :: "session \<Rightarrow> nat option" where
  "holder s =
     (case ss_pc s of Reading \<Rightarrow> ss_test s | Stopping t _ \<Rightarrow> Some t | Acking_start t \<Rightarrow> Some t | _ \<Rightarrow> None)"

definition session_inv :: "session \<Rightarrow> bool" where
  "session_inv s \<longleftrightarrow>
     map lt_id (ss_live s) = (case holder s of None \<Rightarrow> [] | Some t \<Rightarrow> [t])
     \<and> (ss_pc s \<noteq> Reading \<longrightarrow> ss_test s = None) \<and> (\<forall>l\<in>set (ss_live s). lt_id l < ss_next s)"

lemma holder_resume [simp]:
  "ss_pc s = resume k \<Longrightarrow> holder s = None"
  by (cases k) (simp_all add: holder_def)

lemma end_test_sel [simp]:
  "ss_pc (end_test t s) = ss_pc s" "ss_test (end_test t s) = ss_test s" "ss_next (end_test t s) = ss_next s"
  "ss_out (end_test t s) = ss_out s" "ss_in (end_test t s) = ss_in s"
  by (simp_all add: end_test_def)

lemma resume_not_Reading [simp]: "resume k \<noteq> Reading"
  by (cases k) simp_all

lemma session_inv_end_test:
  assumes "session_inv s" "ss_pc s = Stopping t k" "ss_pc s' = resume k" "ss_test s' = ss_test s"
    "ss_live s' = ss_live s"
  shows "session_inv (end_test t s')"
proof -
  have "map lt_id (ss_live s) = [t]" using assms(1,2) by (simp add: session_inv_def holder_def)
  then have "filter (\<lambda>l. lt_id l \<noteq> t) (ss_live s) = []" by (auto simp: filter_empty_conv map_eq_Cons_conv)
  moreover have "ss_test s = None" using assms(1,2) by (simp add: session_inv_def)
  ultimately show ?thesis using assms(3-5) by (simp add: session_inv_def) (simp add: end_test_def)
qed

lemma session_inv_take_test: "session_inv s \<Longrightarrow> ss_pc s = Reading \<Longrightarrow> session_inv (take_test k s)"
  by (cases k) (auto simp: session_inv_def holder_def take_test_def split: option.splits)

lemma holder_update [simp]:
  "holder (s\<lparr>ss_in := i\<rparr>) = holder s" "holder (s\<lparr>ss_out := out\<rparr>) = holder s" "holder (s\<lparr>ss_live := ls\<rparr>) = holder s"
  by (cases "ss_pc s"; simp add: holder_def)+

lemma session_inv_cong:
  assumes "session_inv s" "ss_pc s' = ss_pc s" "holder s' = holder s" "ss_test s' = ss_test s" "ss_next s' = ss_next s"
    "map lt_id (ss_live s') = map lt_id (ss_live s)"
  shows "session_inv s'"
proof -
  have "lt_id ` set (ss_live s') = lt_id ` set (ss_live s)" using assms(6) by (metis list.set_map)
  then have "(\<forall>t\<in>lt_id ` set (ss_live s'). t < ss_next s) \<longleftrightarrow> (\<forall>t\<in>lt_id ` set (ss_live s). t < ss_next s)" by simp
  then show ?thesis using assms by (simp add: session_inv_def)
qed

lemma session_inv_step:
  assumes "session_step ctx s l s'" "session_inv s"
  shows "session_inv s'"
  using assms
proof (cases rule: session_step.cases)
  case (recv_start cfg asg rest)
  then show ?thesis using assms(2) session_inv_cong [of s "s\<lparr>ss_in := rest\<rparr>"] by (simp add: session_inv_take_test)
next
  case (recv_stop rest)
  then show ?thesis using assms(2) session_inv_cong [of s "s\<lparr>ss_in := rest\<rparr>"] by (simp add: session_inv_take_test)
next
  case (stopped t k)
  then show ?thesis using assms(2) by (auto intro!: session_inv_end_test [of s])
next
  case (cut t k)
  then show ?thesis using assms(2) by (auto intro!: session_inv_end_test [of s])
next
  case recv_failed
  then show ?thesis using assms(2) by (simp add: session_inv_take_test)
next
  case (window ls l ks)
  then show ?thesis using assms(2) session_inv_cong [of s s'] by simp
next
  case (sampler_ended ls l ks)
  then show ?thesis using assms(2) session_inv_cong [of s s'] by simp
qed (auto simp: session_inv_def holder_def less_Suc_eq)

interpretation one_test: step_invariant "session_step ctx" session_inv for ctx
  by unfold_locales (rule session_inv_step)

lemma session_inv_new [simp]: "session_inv (session_new inp out)"
  by (simp add: session_inv_def session_new_def holder_def)

section \<open>One reply per command\<close>

text \<open>The kind of a command that calls for a reply, and the replies attempted.\<close>

datatype command = Start_command | Stop_command

fun commands :: "session_label \<Rightarrow> command list" where
  "commands (Received (Start cfg asg)) = [Start_command]"
| "commands (Received Stop) = [Stop_command]"
| "commands _ = []"

fun replies :: "session_label \<Rightarrow> msg list" where
  "replies (Replied m _) = [m]"
| "replies _ = []"

definition answers :: "command \<Rightarrow> msg \<Rightarrow> bool" where
  "answers c m \<longleftrightarrow>
     (case c of Start_command \<Rightarrow> m = Ack ''start'' \<or> (\<exists>t. m = Error t) | Stop_command \<Rightarrow> m = Ack ''stop'')"

text \<open>What a state has still to answer.\<close>

fun owed_after :: "after_stop \<Rightarrow> command list" where
  "owed_after (Then_start cfg asg) = [Start_command]"
| "owed_after Then_ack_stop = [Stop_command]"
| "owed_after (Then_end _) = []"

fun owed_at :: "session_pc \<Rightarrow> command list" where
  "owed_at (Stopping _ k) = owed_after k"
| "owed_at (Starting _ _) = [Start_command]"
| "owed_at (Acking_start _) = [Start_command]"
| "owed_at (Reporting _) = [Start_command]"
| "owed_at Acking_stop = [Stop_command]"
| "owed_at _ = []"

lemma owed_resume [simp]: "owed_at (resume k) = owed_after k"
  by (cases k) simp_all

lemma owed_take_test [simp]: "owed_at (ss_pc (take_test k s)) = owed_after k"
  by (simp add: take_test_def split: option.split)

lemma session_balance:
  assumes "session_step ctx s l s'"
  shows "\<exists>cs. owed_at (ss_pc s) @ commands l = cs @ owed_at (ss_pc s') \<and> list_all2 answers cs (replies l)"
  using assms
proof (cases rule: session_step.cases)
  case (recv_other m rest)
  then show ?thesis by (cases m) auto
qed (auto simp: answers_def)

interpretation replies: step_account "session_step ctx" "\<lambda>_. True" "\<lambda>s. owed_at (ss_pc s)" commands replies answers for ctx
  by unfold_locales (simp, rule session_balance)

section \<open>What reaches the client\<close>

text \<open>The messages a step hands to the connection.\<close>

fun messages :: "session_label \<Rightarrow> msg list" where
  "messages (Replied m _) = [m]"
| "messages (Window_sent _ w _) = [Metrics w]"
| "messages _ = []"

fun is_cut :: "session_label \<Rightarrow> bool" where
  "is_cut (Test_cut _ _) = True"
| "is_cut _ = False"

lemma write_frame_open:
  assumes "write_frame to_vec m w = (r, w')" "room w = None" "json_ok to_vec from_slice m"
  shows "written w' = written w @ wire_of to_vec [m] \<and> room w' = None"
  using assms write_frame_json_ok [of to_vec from_slice m w] by (auto simp: wire_of_def)

lemma take_test_out [simp]: "ss_out (take_test k s) = ss_out s" "ss_live (take_test k s) = ss_live s"
  by (simp_all add: take_test_def)

lemma session_step_wire:
  assumes "session_step ctx s l s'" "\<not> is_cut l" "room (ss_out s) = None"
    "\<forall>m\<in>set (messages l). json_ok (sc_to_vec ctx) (sc_from_slice ctx) m"
  shows "written (ss_out s') = written (ss_out s) @ wire_of (sc_to_vec ctx) (messages l) \<and> room (ss_out s') = None"
  using assms
  by (cases rule: session_step.cases) (auto simp: wire_of_def dest: write_frame_open [of "sc_to_vec ctx"])

lemma session_run_wire:
  assumes "run (session_step ctx) s tr s'" "\<forall>l\<in>set tr. \<not> is_cut l" "room (ss_out s) = None"
    "\<forall>l\<in>set tr. \<forall>m\<in>set (messages l). json_ok (sc_to_vec ctx) (sc_from_slice ctx) m"
  shows "written (ss_out s') = written (ss_out s) @ wire_of (sc_to_vec ctx) (concat (map messages tr))"
  using assms
proof (induction rule: run.induct)
  case (run_Cons s l s1 tr s')
  then show ?case using session_step_wire [OF run_Cons(1)] by (simp add: wire_of_def)
qed (simp add: wire_of_def)

lemma session_stream:
  assumes "run (session_step ctx) (session_new inp \<lparr>written = [], room = None\<rparr>) tr s" "\<forall>l\<in>set tr. \<not> is_cut l"
    "\<forall>l\<in>set tr. \<forall>m\<in>set (messages l). json_ok (sc_to_vec ctx) (sc_from_slice ctx) m"
  shows "read_frames (sc_from_slice ctx) (written (ss_out s)) = concat (map messages tr)"
proof -
  have "written (ss_out s) = wire_of (sc_to_vec ctx) (concat (map messages tr))"
    using session_run_wire [OF assms(1,2)] assms(3) by (simp add: session_new_def)
  then show ?thesis
    using read_frames_wire [of "concat (map messages tr)" "sc_to_vec ctx" "sc_from_slice ctx" "[]"] assms(3)
    by (simp add: read_frames_Nil)
qed

section \<open>Windows belong to live tests\<close>

fun starts_test :: "session_label \<Rightarrow> bool" where
  "starts_test (Test_started _ _) = True"
| "starts_test _ = False"

fun sends_window :: "session_label \<Rightarrow> bool" where
  "sends_window (Window_sent _ _ _) = True"
| "sends_window (Test_cut _ _) = True"
| "sends_window _ = False"

lemma idle_step:
  assumes "session_step ctx s l s'" "ss_live s = []" "\<not> starts_test l"
  shows "ss_live s' = [] \<and> \<not> sends_window l"
  using assms by (cases rule: session_step.cases) (auto simp: end_test_def)

lemma idle_run:
  assumes "run (session_step ctx) s tr s'" "ss_live s = []" "\<forall>l\<in>set tr. \<not> starts_test l"
  shows "\<forall>l\<in>set tr. \<not> sends_window l"
  using assms by (induction rule: run.induct) (auto dest: idle_step)

lemma stop_ack_idle:
  assumes "session_step ctx s (Replied (Ack ''stop'') r) s'" "session_inv s"
  shows "ss_live s' = []"
  using assms by (cases rule: session_step.cases) (auto simp: session_inv_def holder_def)

lemma stop_ack_idle_run:
  assumes "run (session_step ctx) (session_new inp out) (before @ Replied (Ack ''stop'') r # after) s"
    "\<forall>l\<in>set after. \<not> starts_test l"
  shows "\<forall>l\<in>set after. \<not> sends_window l"
proof -
  obtain s1 s2 where r: "run (session_step ctx) (session_new inp out) before s1"
      "session_step ctx s1 (Replied (Ack ''stop'') r) s2" "run (session_step ctx) s2 after s"
    using assms(1) by (auto simp: run_append_iff run_Cons_iff)
  have "session_inv s1" by (rule one_test.along [OF r(1)]) simp
  from stop_ack_idle [OF r(2) this] idle_run [OF r(3) _ assms(2)] show ?thesis by blast
qed

lemma window_numbers:
  assumes "run (session_step ctx) (session_new inp out) tr s" "Window_sent t w r \<in> set tr"
  shows "NaN \<notin> {mw_send_bps w, mw_recv_bps w, mw_cpu_pct w}"
proof -
  obtain s1 s2 where "session_step ctx s1 (Window_sent t w r) s2"
    by (rule one_test.at_label [OF assms(1) _ assms(2)]) simp
  then show ?thesis by (rule session_window_cases) (rule sampler_turn_numbers)
qed

section \<open>The windows of a test are those of its metrics task\<close>

fun window_of :: "nat \<Rightarrow> session_label \<Rightarrow> metric_window list" where
  "window_of t (Window_sent t' w _) = (if t' = t then [w] else [])"
| "window_of _ _ = []"

definition windows_of :: "nat \<Rightarrow> session_label list \<Rightarrow> metric_window list" where
  "windows_of t tr = concat (map (window_of t) tr)"

lemma windows_of_simps [simp]: "windows_of t [] = []" "windows_of t (l # tr) = window_of t l @ windows_of t tr"
  by (simp_all add: windows_of_def)

text \<open>What one step does with a test: it lets its metrics task take a turn, or leaves it alone, or ends it.\<close>

lemma live_test_step:
  assumes "session_step ctx s lab s'" "session_inv s" "l \<in> set (ss_live s)"
  obtains (turn) turn w m where "sampler_turn (sc_sysconf ctx) turn (lt_sampler l) = Some (w, m)" "reads_test (lt_io l) (snd turn)"
      "l\<lparr>lt_sampler := m\<rparr> \<in> set (ss_live s')" "window_of (lt_id l) lab = (case w of None \<Rightarrow> [] | Some w \<Rightarrow> [w])"
    | (same) "l \<in> set (ss_live s')" "window_of (lt_id l) lab = []"
    | (ended) "lt_id l \<notin> lt_id ` set (ss_live s')" "window_of (lt_id l) lab = []"
proof -
  have only: "ss_live s = [l]"
    using assms(2,3) by (auto simp: session_inv_def map_eq_Cons_conv split: option.splits)
  show thesis
    using assms(1)
  proof (cases rule: session_step.cases)
    case (stopped t k)
    show thesis
    proof (cases "lt_id l = t")
      case True
      show thesis by (rule ended) (use only stopped True in \<open>simp_all add: end_test_def\<close>)
    next
      case False
      show thesis by (rule same) (use only stopped False in \<open>simp_all add: end_test_def\<close>)
    qed
  next
    case (cut t k)
    show thesis
    proof (cases "lt_id l = t")
      case True
      show thesis by (rule ended) (use only cut True in \<open>simp_all add: end_test_def\<close>)
    next
      case False
      show thesis by (rule same) (use only cut False in \<open>simp_all add: end_test_def\<close>)
    qed
  next
    case (window ls l' ks turn w m)
    then have "l' = l" "ls = []" "ks = []" using only by (auto simp: Cons_eq_append_conv)
    then show thesis using window by (intro turn [of turn "Some w" m]) auto
  next
    case (sampler_ended ls l' ks turn m)
    then have "l' = l" "ls = []" "ks = []" using only by (auto simp: Cons_eq_append_conv)
    then show thesis using sampler_ended by (intro turn [of turn None m]) auto
  qed (rule same; use only in simp)+
qed

lemma other_test_step:
  assumes "session_step ctx s lab s'" "t \<notin> lt_id ` set (ss_live s)"
  shows "window_of t lab = [] \<and> (t < ss_next s \<longrightarrow> t \<notin> lt_id ` set (ss_live s') \<and> t < ss_next s')"
  using assms by (cases rule: session_step.cases) (auto simp: end_test_def take_test_def)

lemma ended_test_windows:
  assumes "run (session_step ctx) s tr s'" "t \<notin> lt_id ` set (ss_live s)" "t < ss_next s"
  shows "windows_of t tr = []"
  using assms by (induction rule: run.induct) (auto dest: other_test_step)

lemma next_step: "session_step ctx s lab s' \<Longrightarrow> ss_next s \<le> ss_next s'"
  by (cases rule: session_step.cases) (auto simp: take_test_def)

lemma live_test_windows:
  assumes "run (session_step ctx) s tr s'" "session_inv s" "l \<in> set (ss_live s)"
  shows "\<exists>turns. windows_of (lt_id l) tr = fst (metrics_loop (sc_sysconf ctx) turns (lt_sampler l))
    \<and> (\<forall>turn\<in>set turns. reads_test (lt_io l) (snd turn))"
  using assms
proof (induction arbitrary: l rule: run.induct)
  case (run_Nil s)
  show ?case by (intro exI [of _ "[]"]) simp
next
  case (run_Cons s lab s1 tr s')
  have inv1: "session_inv s1" by (rule session_inv_step [OF run_Cons(1) run_Cons.prems(1)])
  from run_Cons(1) run_Cons.prems show ?case
  proof (cases rule: live_test_step)
    case (turn turn w m)
    obtain turns where turns: "windows_of (lt_id l) tr = fst (metrics_loop (sc_sysconf ctx) turns m)"
        "\<forall>turn\<in>set turns. reads_test (lt_io l) (snd turn)"
      using run_Cons.IH [OF inv1 turn(3)] by auto
    show ?thesis
    proof (cases w)
      case None
      have "m = lt_sampler l\<lparr>sm_done := True\<rparr>" using turn(1) None by (intro sampler_turn_end(1)) simp
      then have "sm_done m" by simp
      then have "fst (metrics_loop (sc_sysconf ctx) turns m) = []" by (cases turns) (simp_all add: sampler_turn_def)
      then show ?thesis using turn None turns by (intro exI [of _ "[turn]"]) simp
    next
      case (Some w1)
      then show ?thesis using turn turns by (intro exI [of _ "turn # turns"]) (simp split: prod.split)
    qed
  next
    case same
    then show ?thesis using run_Cons.IH [OF inv1] by auto
  next
    case ended
    have "lt_id l < ss_next s1" using next_step [OF run_Cons(1)] run_Cons.prems by (auto simp: session_inv_def)
    then show ?thesis using ended ended_test_windows [OF run_Cons(2)] by (intro exI [of _ "[]"]) simp
  qed
qed

text \<open>A test that is about to start was asked for by the last command received.\<close>

fun start_due :: "session_pc \<Rightarrow> (config \<times> assignment) option" where
  "start_due (Starting cfg asg) = Some (cfg, asg)"
| "start_due (Stopping t (Then_start cfg asg)) = Some (cfg, asg)"
| "start_due _ = None"

lemma start_due_resume: "start_due (resume k) = start_due (Stopping t k)"
  by (cases k) simp_all

lemma start_due_step:
  assumes "session_step ctx s l s'" "start_due (ss_pc s') = Some (cfg, asg)"
  shows "l = Received (Start cfg asg) \<or> start_due (ss_pc s) = Some (cfg, asg) \<and> (\<forall>m. l \<noteq> Received m)"
  using assms
proof (cases rule: session_step.cases)
  case (stopped t k)
  then show ?thesis using assms(2) by (simp add: start_due_resume [of k t])
next
  case (cut t k)
  then show ?thesis using assms(2) by (simp add: start_due_resume [of k t])
qed (auto simp: take_test_def split: option.splits)

lemma start_received:
  "run (session_step ctx) (session_new inp out) tr s \<Longrightarrow> start_due (ss_pc s) = Some (cfg, asg) \<Longrightarrow>
    \<exists>earlier later. tr = earlier @ Received (Start cfg asg) # later \<and> (\<forall>m. Received m \<notin> set later)"
proof (induction tr arbitrary: s rule: rev_induct)
  case Nil
  then show ?case by (simp add: session_new_def)
next
  case (snoc l tr)
  then obtain s1 where s1: "run (session_step ctx) (session_new inp out) tr s1" "session_step ctx s1 l s"
    by (auto simp: run_append_iff run_Cons_iff)
  from start_due_step [OF s1(2) snoc.prems(2)] show ?case
  proof
    assume "l = Received (Start cfg asg)"
    then show ?thesis by (intro exI [of _ tr] exI [of _ "[]"]) simp
  next
    assume l: "start_due (ss_pc s1) = Some (cfg, asg) \<and> (\<forall>m. l \<noteq> Received m)"
    then obtain earlier later where "tr = earlier @ Received (Start cfg asg) # later" "\<forall>m. Received m \<notin> set later"
      using snoc.IH [OF s1(1)] by blast
    then show ?thesis using l by (intro exI [of _ earlier] exI [of _ "later @ [l]"]) auto
  qed
qed

lemma start_test_counters:
  assumes "start_test env cfg asg = Some (Inr io)"
  shows "io_counters io = counters_new (hostlist cfg)"
proof -
  obtain family where "spawn_tcp (se_net env) (se_lookup env) cfg asg family = Some (Inr io)
      \<or> spawn_udp (se_net env) (se_targets env) cfg asg family = Some (Inr io)"
    using assms by (auto simp: start_test_def map_sum_Inr_iff split: sum.splits network.splits)
  then show ?thesis using spawn_tcp_result spawn_udp_tasks by blast
qed

section \<open>A sample session\<close>

text \<open>A client that sends a Start and a Stop and closes; one window is due in between. Every message has a
  small code of its own.\<close>

definition sample_peer :: assignment where
  "sample_peer =
     \<lparr>self_name = ''b'', self_id = 1, asg_bind = ''10.0.0.2:9100'',
      targets = [\<lparr>tgt_name = ''a'', tgt_id = 0, tgt_addr = ''10.0.0.1:9100''\<rparr>]\<rparr>"

definition sample_server :: "metric_window \<Rightarrow> server_ctx" where
  "sample_server w =
     \<lparr>sc_to_vec = (\<lambda>m. Some (case m of Start _ a \<Rightarrow> (if self_id a = 0 then [1] else [7]) | Stop \<Rightarrow> [2] | Ack c \<Rightarrow> (if c = ''start'' then [3] else [4])
        | Metrics _ \<Rightarrow> [5, 5] | Error _ \<Rightarrow> [6])),
      sc_from_slice = (\<lambda>bs. if bs = [1] then Some (Start sample_config sample_assignment) else if bs = [2] then Some Stop
        else if bs = [7] then Some (Start sample_config sample_peer)
        else if bs = [3] then Some (Ack ''start'') else if bs = [4] then Some (Ack ''stop'')
        else if bs = [5, 5] then Some (Metrics w) else None),
      sc_text = (\<lambda>_. []), sc_sysconf = 100\<rparr>"

definition sample_input :: "byte list" where
  "sample_input = frame [1] @ frame [2]"

definition sample_start_env :: start_env where
  "sample_start_env = \<lparr>se_net = sample_env, se_targets = (\<lambda>_. sample_env), se_lookup = (\<lambda>_. None)\<rparr>"

definition sample_labels :: "test_io \<Rightarrow> metric_window \<Rightarrow> session_label list" where
  "sample_labels io w =
     [Received (Start sample_config sample_assignment), Test_started 0 io, Replied (Ack ''start'') (Inr ()),
      Window_sent 0 w (Inr ()), Received Stop, Test_stopped 0, Replied (Ack ''stop'') (Inr ())]"

lemma sample_starts:
  "\<exists>io. start_test sample_start_env sample_config sample_assignment = Some (Inr io)
    \<and> io_counters io = counters_new [''a'', ''b'']"
proof -
  have "case start_test sample_start_env sample_config sample_assignment of
      Some (Inr io) \<Rightarrow> io_counters io = counters_new [''a'', ''b''] | _ \<Rightarrow> False"
    by code_simp
  then show ?thesis by (auto split: option.splits sum.splits)
qed

text \<open>The window of the sample session: 1000 bytes in one second, sent to the second host.\<close>

definition sends_sample :: "metric_window \<Rightarrow> bool" where
  "sends_sample w \<longleftrightarrow> mw_server w = ''a'' \<and> mw_duration_ns w = 1000000000 \<and> mw_bytes_sent w = 1000
     \<and> mw_peers w = [\<lparr>pm_peer = ''b'', pm_bytes_sent = 1000, pm_bytes_recv = 0, pm_packets_sent = 1, pm_packets_recv = 0,
          pm_packets_dropped = 0\<rparr>]"

definition sample_counters :: counters where
  "sample_counters =
     (let c = counters_new [''a'', ''b'']; sent = add_sent 1000 1 atom_stats_default
      in c\<lparr>cnt_total := sent, cnt_peers := [atom_stats_default, sent]\<rparr>)"

lemma write_frame_unlimited:
  "to_vec m = Some data \<Longrightarrow> length data \<le> MAX_FRAME \<Longrightarrow>
    write_frame to_vec m \<lparr>written = bs, room = None\<rparr> = (Inr (), \<lparr>written = bs @ frame data, room = None\<rparr>)"
  by (simp add: write_frame_def write_all_def frame_def)

lemma sample_reading:
  assumes "data \<noteq> []" "length data \<le> 2" "sc_from_slice (sample_server w) data = Some m"
  shows "read_frame (sc_from_slice (sample_server w)) (frame data @ rest) = Inr (m, rest)"
  using assms by (intro read_frame_frame) (simp_all add: MAX_FRAME_def)

lemma sample_writing:
  assumes "sc_to_vec (sample_server w) m = Some data" "length data \<le> 2"
  shows "write_frame (sc_to_vec (sample_server w)) m \<lparr>written = bs, room = None\<rparr> = (Inr (), \<lparr>written = bs @ frame data, room = None\<rparr>)"
  using assms by (intro write_frame_unlimited) (simp_all add: MAX_FRAME_def)

text \<open>A state of the sample session.\<close>

definition sample_state :: "byte list \<Rightarrow> session_pc \<Rightarrow> nat option \<Rightarrow> live_test list \<Rightarrow> nat \<Rightarrow> byte list \<Rightarrow> session" where
  "sample_state inp pc test live n out =
     \<lparr>ss_in = inp, ss_out = \<lparr>written = out, room = None\<rparr>, ss_pc = pc, ss_test = test, ss_live = live, ss_next = n\<rparr>"

lemma sample_test_started:
  obtains io turn w l m where
    "run (session_step (sample_server w)) (session_new sample_input \<lparr>written = [], room = None\<rparr>)
       [Received (Start sample_config sample_assignment), Test_started 0 io, Replied (Ack ''start'') (Inr ())]
       (sample_state (frame [2]) Reading (Some 0) [l] 1 (frame [3]))"
    "lt_id l = 0" "reads_test (lt_io l) (snd turn)" "sampler_turn 100 turn (lt_sampler l) = Some (Some w, m)" "sends_sample w"
proof -
  obtain io where io: "start_test sample_start_env sample_config sample_assignment = Some (Inr io)"
      "io_counters io = counters_new [''a'', ''b'']"
    using sample_starts by blast
  define r0 where "r0 = \<lparr>rd_mono = 0, rd_wall = 0, rd_counters = io_counters io, rd_proc = None, rd_cancelled = False\<rparr>"
  define turn where "turn = ([\<lparr>tk_now = 1000000000, tk_cancelled = False, tk_interrupted = False\<rparr>], r0\<lparr>rd_mono := 1000000000, rd_counters := sample_counters\<rparr>)"
  define m0 where "m0 = sampler_new (self_name sample_assignment) r0"
  let ?l = "\<lparr>lt_id = 0, lt_io = io, lt_sampler = m0\<rparr>"
  have reads: "reads_test io r0" "reads_test io (snd turn)"
    by (simp_all add: reads_test_def r0_def turn_def io(2) sample_counters_def counters_new_def Let_def)
  have "next_mark m0 = 1000000000"
    by (simp add: m0_def next_mark_def sampler_new_def snapshot_all_def Let_def r0_def WINDOW_NS_def saturating_add_def saturating_mul_def)
  moreover have "\<not> sm_done m0" by (simp add: m0_def sampler_new_def snapshot_all_def Let_def)
  moreover obtain w m2 where em: "emit_window 100 (snd turn) m0 = (w, m2)" by (rule prod.exhaust)
  ultimately have w: "sampler_turn 100 turn m0 = Some (Some w, m2\<lparr>sm_window_i := saturating_add (sm_window_i m2) 1\<rparr>)"
    by (simp add: sampler_turn_def turn_def r0_def)
  have "\<not> (1000000000 :: u64) \<le> 1" by (simp add: word_le_nat_alt)
  then have "sends_sample (fst (emit_window 100 (snd turn) m0))"
    by (simp add: m0_def turn_def r0_def io(2) sample_counters_def counters_new_def emit_window_def sampler_new_def
        snapshot_all_def snapshot_def add_sent_def atom_stats_default_def delta_def saturating_sub_def build_window_def
        peer_entry_def snap_active_def sends_sample_def sample_assignment_def max_def Let_def)
  then have sends: "sends_sample w" by (simp add: em)
  let ?ctx = "sample_server w"
  have 1: "session_step ?ctx (session_new sample_input \<lparr>written = [], room = None\<rparr>) (Received (Start sample_config sample_assignment))
      (sample_state (frame [2]) (Starting sample_config sample_assignment) None [] 0 [])"
    using recv_start [of "session_new sample_input \<lparr>written = [], room = None\<rparr>" ?ctx sample_config sample_assignment "frame [2]"]
      sample_reading [of "[1]" w "Start sample_config sample_assignment" "frame [2]"]
    by (simp add: session_new_def sample_input_def sample_server_def take_test_def sample_state_def)
  have 2: "session_step ?ctx (sample_state (frame [2]) (Starting sample_config sample_assignment) None [] 0 []) (Test_started 0 io)
      (sample_state (frame [2]) (Acking_start 0) None [?l] 1 [])"
    using started [OF _ io(1) reads(1), of "sample_state (frame [2]) (Starting sample_config sample_assignment) None [] 0 []" ?ctx]
    by (simp add: m0_def sample_state_def)
  have 3: "session_step ?ctx (sample_state (frame [2]) (Acking_start 0) None [?l] 1 []) (Replied (Ack ''start'') (Inr ()))
      (sample_state (frame [2]) Reading (Some 0) [?l] 1 (frame [3]))"
    using start_acked [of "sample_state (frame [2]) (Acking_start 0) None [?l] 1 []" 0 ?ctx] sample_writing [of w "Ack ''start''" "[3]" "[]"]
    by (simp add: sample_server_def sample_state_def)
  show thesis
    by (rule that [of w io ?l turn]) (use reads w 1 2 3 sends in \<open>auto simp: run_Cons_iff\<close>)
qed

lemma sample_recv_stop:
  "session_step (sample_server w) (sample_state (frame [2]) Reading (Some 0) [l] 1 out) (Received Stop)
     (sample_state [] (Stopping 0 Then_ack_stop) None [l] 1 out)"
  using recv_stop [of "sample_state (frame [2]) Reading (Some 0) [l] 1 out" "sample_server w" "[]"]
    sample_reading [of "[2]" w Stop "[]"]
  by (simp add: sample_server_def take_test_def sample_state_def)

lemma sample_ack_stop:
  "session_step (sample_server w) (sample_state [] Acking_stop None [] 1 out) (Replied (Ack ''stop'') (Inr ()))
     (sample_state [] Reading None [] 1 (out @ frame [4]))"
  using stop_acked [of "sample_state [] Acking_stop None [] 1 out" "sample_server w"] sample_writing [of w "Ack ''stop''" "[4]" out]
  by (simp add: sample_server_def sample_state_def)

lemma sample_session:
  obtains io w s where "run (session_step (sample_server w)) (session_new sample_input \<lparr>written = [], room = None\<rparr>) (sample_labels io w) s"
    "ss_pc s = Reading" "written (ss_out s) = frame [3] @ frame [5, 5] @ frame [4]" "ss_in s = []" "sends_sample w"
proof -
  obtain io turn w l m where pre:
    "run (session_step (sample_server w)) (session_new sample_input \<lparr>written = [], room = None\<rparr>)
       [Received (Start sample_config sample_assignment), Test_started 0 io, Replied (Ack ''start'') (Inr ())]
       (sample_state (frame [2]) Reading (Some 0) [l] 1 (frame [3]))"
    and l: "lt_id l = 0" "reads_test (lt_io l) (snd turn)" "sampler_turn 100 turn (lt_sampler l) = Some (Some w, m)"
      "sends_sample w"
    by (rule sample_test_started)
  let ?ctx = "sample_server w" and ?l = "l\<lparr>lt_sampler := m\<rparr>"
  have 4: "session_step ?ctx (sample_state (frame [2]) Reading (Some 0) [l] 1 (frame [3])) (Window_sent 0 w (Inr ()))
      (sample_state (frame [2]) Reading (Some 0) [?l] 1 (frame [3] @ frame [5, 5]))"
    using window [of "sample_state (frame [2]) Reading (Some 0) [l] 1 (frame [3])" "[]" l "[]" turn ?ctx w m]
      sample_writing [of w "Metrics w" "[5, 5]" "frame [3]"] l
    by (simp add: sample_server_def sample_state_def)
  have 6: "session_step ?ctx (sample_state [] (Stopping 0 Then_ack_stop) None [?l] 1 (frame [3] @ frame [5, 5])) (Test_stopped 0)
      (sample_state [] Acking_stop None [] 1 (frame [3] @ frame [5, 5]))"
    using stopped [of "sample_state [] (Stopping 0 Then_ack_stop) None [?l] 1 (frame [3] @ frame [5, 5])" 0 Then_ack_stop ?ctx] l(1)
    by (simp add: end_test_def sample_state_def)
  let ?s = "sample_state [] Reading None [] 1 ((frame [3] @ frame [5, 5]) @ frame [4])"
  have "run (session_step ?ctx) (sample_state (frame [2]) Reading (Some 0) [l] 1 (frame [3]))
      [Window_sent 0 w (Inr ()), Received Stop, Test_stopped 0, Replied (Ack ''stop'') (Inr ())] ?s"
    by (rule run_Cons [where step = "session_step ?ctx", OF 4], rule run_Cons [where step = "session_step ?ctx", OF sample_recv_stop],
        rule run_Cons [where step = "session_step ?ctx", OF 6], rule run_Cons [where step = "session_step ?ctx", OF sample_ack_stop],
        rule run_Nil)
  from run_append_iff [THEN iffD2, OF exI, OF conjI, OF pre this]
  have "run (session_step ?ctx) (session_new sample_input \<lparr>written = [], room = None\<rparr>) (sample_labels io w) ?s"
    by (simp add: sample_labels_def)
  then show thesis by (rule that) (simp_all add: sample_state_def l(4))
qed

lemma sample_session_closed:
  obtains io w s where "run (session_step (sample_server w)) (session_new sample_input \<lparr>written = [], room = None\<rparr>)
      (sample_labels io w @ [Disconnected UnexpectedEof]) s"
proof -
  obtain io w s where r: "run (session_step (sample_server w)) (session_new sample_input \<lparr>written = [], room = None\<rparr>) (sample_labels io w) s"
      "ss_pc s = Reading" "ss_in s = []"
    by (rule sample_session)
  have "read_frame (sc_from_slice (sample_server w)) (ss_in s) = Inl UnexpectedEof" using r(3) by (simp add: read_frame_def)
  from that run_snoc [OF r(1) recv_failed [OF r(2) this]] show thesis by blast
qed

lemma sample_json_ok_replies:
  "json_ok (sc_to_vec (sample_server w)) (sc_from_slice (sample_server w)) m"
  if "m \<in> {Ack ''start'', Ack ''stop'', Metrics w}"
  using that by (auto simp: json_ok_def sample_server_def MAX_FRAME_def)

text \<open>The last hypothesis of the stream property is needed: \<open>RunningTest::stop\<close> aborts a metrics task
  that is still writing after two seconds, and the rest of its frame is then missing. Here the
  acknowledgement of the Stop is taken for the body of the cut frame and the client never sees it.\<close>

lemma aborted_window_hides_stop_ack:
  "\<exists>io w s. run (session_step (sample_server w)) (session_new sample_input \<lparr>written = [], room = None\<rparr>)
      [Received (Start sample_config sample_assignment), Test_started 0 io, Replied (Ack ''start'') (Inr ()), Received Stop,
       Test_cut 0 w, Replied (Ack ''stop'') (Inr ())] s
    \<and> read_frames (sc_from_slice (sample_server w)) (written (ss_out s)) = [Ack ''start'']"
proof -
  obtain io turn w l m where pre:
    "run (session_step (sample_server w)) (session_new sample_input \<lparr>written = [], room = None\<rparr>)
       [Received (Start sample_config sample_assignment), Test_started 0 io, Replied (Ack ''start'') (Inr ())]
       (sample_state (frame [2]) Reading (Some 0) [l] 1 (frame [3]))"
    and l: "lt_id l = 0" "reads_test (lt_io l) (snd turn)" "sampler_turn 100 turn (lt_sampler l) = Some (Some w, m)"
    by (rule sample_test_started)
  let ?ctx = "sample_server w" and ?cut = "take 4 (frame [5, 5])"
  have 5: "session_step ?ctx (sample_state [] (Stopping 0 Then_ack_stop) None [l] 1 (frame [3])) (Test_cut 0 w)
      (sample_state [] Acking_stop None [] 1 (frame [3] @ ?cut))"
    using cut [of "sample_state [] (Stopping 0 Then_ack_stop) None [l] 1 (frame [3])" 0 Then_ack_stop l turn ?ctx w m "[5, 5]" ?cut] l
    by (simp add: end_test_def sample_state_def sample_server_def MAX_FRAME_def write_all_def strict_prefix_def take_is_prefix
        frame_def be32.enc_length)
  let ?s = "sample_state [] Reading None [] 1 ((frame [3] @ ?cut) @ frame [4])"
  have "run (session_step ?ctx) (sample_state (frame [2]) Reading (Some 0) [l] 1 (frame [3]))
      [Received Stop, Test_cut 0 w, Replied (Ack ''stop'') (Inr ())] ?s"
    by (rule run_Cons [where step = "session_step ?ctx", OF sample_recv_stop], rule run_Cons [where step = "session_step ?ctx", OF 5],
        rule run_Cons [where step = "session_step ?ctx", OF sample_ack_stop], rule run_Nil)
  from run_append_iff [THEN iffD2, OF exI, OF conjI, OF pre this]
  have r: "run (session_step ?ctx) (session_new sample_input \<lparr>written = [], room = None\<rparr>)
      [Received (Start sample_config sample_assignment), Test_started 0 io, Replied (Ack ''start'') (Inr ()), Received Stop,
       Test_cut 0 w, Replied (Ack ''stop'') (Inr ())] ?s"
    by simp
  have "sc_from_slice ?ctx [0, 0] = None" by (simp add: sample_server_def)
  moreover have "take 2 (frame [4]) = [0, 0]" "from_be_u32 ?cut = 2" "length ?cut = 4" by code_simp+
  ultimately have "read_frame (sc_from_slice ?ctx) (?cut @ frame [4]) = Inl Deserialize"
    by (simp add: read_frame_def MAX_FRAME_def frame_def be32.enc_length)
  then have rf: "read_frames (sc_from_slice ?ctx) (frame [3] @ ?cut @ frame [4]) = [Ack ''start'']"
    using sample_reading [of "[3]" w "Ack ''start''" "?cut @ frame [4]"]
    by (subst read_frames.simps) (simp add: sample_server_def read_frames_Inl)
  show ?thesis by (intro exI conjI, rule r) (use rf in \<open>simp add: sample_state_def\<close>)
qed

section \<open>Properties\<close>

text \<open>A server never has more than one test running: starting replaces the running test only after
  all tasks of its \<open>JoinSet\<close> have ended, and a session leaves none of them behind, whichever way it ends.\<close>

theorem one_test_at_a_time:
  assumes "run (session_step ctx) (session_new inp out) tr s"
  shows "length (ss_live s) \<le> 1 \<and> (\<forall>e. ss_pc s = Ended_with e \<longrightarrow> ss_live s = [])"
proof -
  have "session_inv s" by (rule one_test.along [OF assms]) simp
  then have "map lt_id (ss_live s) = (case holder s of None \<Rightarrow> [] | Some t \<Rightarrow> [t])" by (simp add: session_inv_def)
  then show ?thesis by (auto simp: holder_def split: option.splits dest: arg_cong [of _ _ length])
qed

theorem one_test_at_a_time_witness:
  "\<exists>io w s. run (session_step (sample_server w)) (session_new sample_input \<lparr>written = [], room = None\<rparr>) (sample_labels io w) s
    \<and> length (ss_live s) \<le> 1"
proof -
  obtain io w s where r: "run (session_step (sample_server w)) (session_new sample_input \<lparr>written = [], room = None\<rparr>) (sample_labels io w) s"
      "ss_pc s = Reading" "written (ss_out s) = frame [3] @ frame [5, 5] @ frame [4]"
    by (rule sample_session)
  show ?thesis using one_test_at_a_time [OF r(1)] r(1) by blast
qed

text \<open>C12: every Start and every Stop is answered, once and in order: whenever the server waits for the next
  command, the replies it has attempted answer the commands it has read one for one, a Start with its
  acknowledgement or an error and a Stop with its acknowledgement.\<close>

theorem one_reply_per_command:
  assumes "run (session_step ctx) (session_new inp out) tr s" "ss_pc s = Reading"
  shows "list_all2 answers (concat (map commands tr)) (concat (map replies tr))"
  using replies.run_balance [OF assms(1) TrueI] assms(2) by (auto simp: session_new_def)

theorem one_reply_per_command_witness:
  "\<exists>io w s. run (session_step (sample_server w)) (session_new sample_input \<lparr>written = [], room = None\<rparr>) (sample_labels io w) s
    \<and> list_all2 answers (concat (map commands (sample_labels io w))) (concat (map replies (sample_labels io w)))
    \<and> concat (map commands (sample_labels io w)) = [Start_command, Stop_command]"
proof -
  obtain io w s where r: "run (session_step (sample_server w)) (session_new sample_input \<lparr>written = [], room = None\<rparr>) (sample_labels io w) s"
      "ss_pc s = Reading" "written (ss_out s) = frame [3] @ frame [5, 5] @ frame [4]"
    by (rule sample_session)
  have "concat (map commands (sample_labels io w)) = [Start_command, Stop_command]" by (simp add: sample_labels_def)
  then show ?thesis using one_reply_per_command [OF r(1,2)] r(1) by blast
qed

text \<open>C10: once the server has answered a Stop, no window of the stopped test follows on the connection: the
  next window belongs to a test started later.\<close>

theorem stop_ack_ends_windows:
  assumes "run (session_step ctx) (session_new inp out) (before @ Replied (Ack ''stop'') r # after) s"
    "\<forall>l\<in>set after. \<not> starts_test l"
  shows "\<forall>l\<in>set after. \<not> sends_window l"
  using stop_ack_idle_run [OF assms] .

theorem stop_ack_ends_windows_witness:
  "\<exists>io w s. run (session_step (sample_server w)) (session_new sample_input \<lparr>written = [], room = None\<rparr>)
      (take 6 (sample_labels io w) @ Replied (Ack ''stop'') (Inr ()) # [Disconnected UnexpectedEof]) s
    \<and> list_all (Not \<circ> sends_window) [Disconnected UnexpectedEof]"
proof -
  obtain io w s where "run (session_step (sample_server w)) (session_new sample_input \<lparr>written = [], room = None\<rparr>)
      (sample_labels io w @ [Disconnected UnexpectedEof]) s"
    by (rule sample_session_closed)
  then have r: "run (session_step (sample_server w)) (session_new sample_input \<lparr>written = [], room = None\<rparr>)
      (take 6 (sample_labels io w) @ Replied (Ack ''stop'') (Inr ()) # [Disconnected UnexpectedEof]) s"
    by (simp add: sample_labels_def)
  have "\<forall>l\<in>set [Disconnected UnexpectedEof]. \<not> sends_window l" by (rule stop_ack_ends_windows [OF r]) simp
  then show ?thesis using r by (intro exI conjI) (assumption, simp)
qed

text \<open>C19: handler and metrics task share the connection without mixing their frames: the client decodes
  exactly the replies and windows that were sent, in the order they were sent, as long as the
  connection holds and no metrics task is aborted in the middle of a frame.\<close>

theorem session_stream_intact:
  assumes "run (session_step ctx) (session_new inp \<lparr>written = [], room = None\<rparr>) tr s" "\<forall>l\<in>set tr. \<not> is_cut l"
    "\<forall>l\<in>set tr. \<forall>m\<in>set (messages l). json_ok (sc_to_vec ctx) (sc_from_slice ctx) m"
  shows "read_frames (sc_from_slice ctx) (written (ss_out s)) = concat (map messages tr)"
  using session_stream [OF assms] .

theorem session_stream_intact_witness:
  "\<exists>io w s. run (session_step (sample_server w)) (session_new sample_input \<lparr>written = [], room = None\<rparr>) (sample_labels io w) s
    \<and> read_frames (sc_from_slice (sample_server w)) (written (ss_out s)) = [Ack ''start'', Metrics w, Ack ''stop'']"
proof -
  obtain io w s where r: "run (session_step (sample_server w)) (session_new sample_input \<lparr>written = [], room = None\<rparr>) (sample_labels io w) s"
      "ss_pc s = Reading" "written (ss_out s) = frame [3] @ frame [5, 5] @ frame [4]"
    by (rule sample_session)
  have "read_frames (sc_from_slice (sample_server w)) (written (ss_out s)) = concat (map messages (sample_labels io w))"
    by (rule session_stream_intact [OF r(1)]) (simp_all add: sample_labels_def sample_json_ok_replies)
  then show ?thesis using r(1) by (intro exI conjI) (simp_all add: sample_labels_def)
qed

text \<open>C9: every window that a session reports of a test carries the name that the client gave to the server
  in the Start that began the test, the last command received before it; it names only hosts of
  that Start's list, in their order, and its rates are those of its own bytes and time. The windows follow each
  other without a gap: each starts, on the wall clock, where the one before it ended.\<close>

theorem session_windows_of_the_start:
  assumes "run (session_step ctx) (session_new inp out) (before @ Test_started t io # after) s"
  shows "\<exists>earlier cfg asg later. before = earlier @ Received (Start cfg asg) # later \<and> (\<forall>m. Received m \<notin> set later)
    \<and> (\<forall>w\<in>set (windows_of t after). mw_server w = self_name asg \<and> subseq (map pm_peer (mw_peers w)) (hostlist cfg)
        \<and> mw_send_bps w = bps (mw_bytes_sent w) (mw_duration_ns w) \<and> mw_recv_bps w = bps (mw_bytes_recv w) (mw_duration_ns w)
        \<and> 1 \<le> mw_duration_ns w)
    \<and> (\<forall>k. Suc k < length (windows_of t after) \<longrightarrow>
        mw_wall_start_ns (windows_of t after ! Suc k) = mw_wall_end_ns (windows_of t after ! k))"
proof -
  let ?ws = "windows_of t after"
  obtain s1 s2 where r: "run (session_step ctx) (session_new inp out) before s1"
      "session_step ctx s1 (Test_started t io) s2" "run (session_step ctx) s2 after s"
    using assms by (auto simp: run_append_iff run_Cons_iff)
  have "session_inv s1" by (rule one_test.along [OF r(1)]) simp
  then have inv2: "session_inv s2" by (rule session_inv_step [OF r(2)])
  obtain cfg asg rd env where l: "\<lparr>lt_id = t, lt_io = io, lt_sampler = sampler_new (self_name asg) rd\<rparr> \<in> set (ss_live s2)"
      "ss_pc s1 = Starting cfg asg" "start_test env cfg asg = Some (Inr io)"
    using r(2) by (cases rule: session_step.cases) auto
  obtain turns where turns: "?ws = fst (metrics_loop (sc_sysconf ctx) turns (sampler_new (self_name asg) rd))"
      "\<forall>turn\<in>set turns. reads_test io (snd turn)"
    using live_test_windows [OF r(3) inv2 l(1)] by auto
  have names: "cnt_names (io_counters io) = hostlist cfg" using start_test_counters [OF l(3)] by (simp add: counters_new_def)
  obtain m' where loop: "metrics_loop (sc_sysconf ctx) turns (sampler_new (self_name asg) rd) = (?ws, m')"
    using turns(1) by (metis prod.collapse)
  have "\<forall>turn\<in>set turns. cnt_names (rd_counters (snd turn)) = hostlist cfg" using turns(2) names by (simp add: reads_test_def)
  note chain = metrics_loop_chain [OF loop this]
  have "mw_wall_start_ns (?ws ! Suc k) = mw_wall_end_ns (?ws ! k)" if "Suc k < length ?ws" for k
    using that arg_cong [OF conjunct2 [OF chain], of "\<lambda>xs. xs ! Suc k"] by simp
  moreover have "\<forall>w\<in>set ?ws. window_describes (self_name asg) (hostlist cfg) w"
    using chain by (simp add: sampler_new_def snapshot_all_def Let_def)
  moreover obtain earlier later where "before = earlier @ Received (Start cfg asg) # later" "\<forall>m. Received m \<notin> set later"
    using start_received [OF r(1)] l(2) by auto
  ultimately show ?thesis unfolding window_describes_def by blast
qed

theorem session_windows_of_the_start_witness:
  "\<exists>io w s. run (session_step (sample_server w)) (session_new sample_input \<lparr>written = [], room = None\<rparr>) (sample_labels io w) s
    \<and> mw_server w = ''a'' \<and> subseq (map pm_peer (mw_peers w)) [''a'', ''b'']"
proof -
  obtain io w s where r: "run (session_step (sample_server w)) (session_new sample_input \<lparr>written = [], room = None\<rparr>) (sample_labels io w) s"
      "ss_pc s = Reading" "written (ss_out s) = frame [3] @ frame [5, 5] @ frame [4]"
    by (rule sample_session)
  have eq: "sample_labels io w = [Received (Start sample_config sample_assignment)] @ Test_started 0 io # drop 2 (sample_labels io w)"
    by (simp add: sample_labels_def)
  have "windows_of 0 (drop 2 (sample_labels io w)) = [w]" by (simp add: sample_labels_def windows_of_def)
  with session_windows_of_the_start [of "sample_server w" sample_input _ _ 0 io "drop 2 (sample_labels io w)" s] r(1) eq
  obtain earlier cfg asg later where start: "[Received (Start sample_config sample_assignment)] = earlier @ Received (Start cfg asg) # later"
    "mw_server w = self_name asg" "subseq (map pm_peer (mw_peers w)) (hostlist cfg)"
    by (metis list.set_intros(1))
  then have "cfg = sample_config" "asg = sample_assignment" by (auto simp: Cons_eq_append_conv)
  with start(2,3) r(1) show ?thesis by (auto simp: sample_config_def sample_assignment_def)
qed

end
