(* ===== verification/Testplan.thy ===== *)
theory Testplan
  imports Wire
begin

text \<open>
  \<open>src/src/testplan.rs\<close>: the round-robin schedule of the pairs test, the assignments of a round or
  of the whole mesh, and the filling-in of resolved addresses. A panic (\<open>expect\<close>, indexing) is \<open>None\<close>.
\<close>

section \<open>The schedule\<close>

fun both_present :: "'a option \<times> 'a option \<Rightarrow> ('a \<times> 'a) option" where
  "both_present (Some a, Some b) = Some (a, b)"
| "both_present _ = None"

definition slots :: "'a list \<Rightarrow> ('a \<times> 'a) list" where
  "slots arr = map (\<lambda>i. (arr ! i, arr ! (length arr - 1 - i))) [0..<length arr div 2]"

definition round_pairs :: "'a option list \<Rightarrow> ('a \<times> 'a) list" where
  "round_pairs arr = List.map_filter both_present (slots arr)"

definition rotate_rest :: "'a list \<Rightarrow> 'a list" where
  "rotate_rest arr =
     (if 2 < length arr
      then (let lst = last arr; rest = butlast arr in take 1 rest @ [lst] @ drop 1 rest)
      else arr)"

fun rounds_loop :: "nat \<Rightarrow> 'a option list \<Rightarrow> ('a \<times> 'a) list list" where
  "rounds_loop 0 arr = []"
| "rounds_loop (Suc k) arr = round_pairs arr # rounds_loop k (rotate_rest arr)"

definition with_bye :: "'a list \<Rightarrow> 'a option list" where
  "with_bye hosts =
     (let arr = map Some hosts in if length arr mod 2 = 1 then arr @ [None] else arr)"

definition round_robin_rounds :: "string list \<Rightarrow> (string \<times> string) list list" where
  "round_robin_rounds hosts =
     (if length hosts < 2 then []
      else let arr = with_bye hosts in rounds_loop (length arr - 1) arr)"

lemma rotate_rest_Cons:
  assumes "length ys = m" "2 \<le> m"
  shows "rotate_rest (x # ys) = x # rotate (m - 1) ys"
proof -
  obtain zs z where ys: "ys = zs @ [z]" using assms by (cases ys rule: rev_cases) auto
  have "rotate (m - 1) ys = drop (m - 1) ys @ take (m - 1) ys"
    using assms by (simp add: rotate_drop_take)
  then show ?thesis using assms ys by (simp add: rotate_rest_def)
qed

lemma rotate_rest_pow:
  assumes "length ys = m" "2 \<le> m"
  shows "(rotate_rest ^^ r) (x # ys) = x # rotate (r * (m - 1)) ys"
proof (induction r)
  case 0
  then show ?case by simp
next
  case (Suc r)
  have "(rotate_rest ^^ Suc r) (x # ys) = x # rotate (m - 1) (rotate (r * (m - 1)) ys)"
    using Suc assms by (simp add: rotate_rest_Cons)
  then show ?case by (simp only: rotate_rotate mult_Suc)
qed

lemma rounds_loop_eq: "rounds_loop k arr = map (\<lambda>r. round_pairs ((rotate_rest ^^ r) arr)) [0..<k]"
proof (induction k arbitrary: arr)
  case 0
  then show ?case by simp
next
  case (Suc k)
  have "[0..<Suc k] = 0 # map Suc [0..<k]" by (simp add: map_Suc_upt upt_conv_Cons del: upt_Suc)
  then show ?case using Suc by (simp add: funpow_swap1 del: upt_Suc)
qed

text \<open>number theory\<close>

lemma meeting_round:
  fixes u v m :: nat
  assumes "odd m" "u < m" "v < m" "u \<noteq> v"
  obtains r where "r < m" "(u + r) mod m + (v + r) mod m = m - 2" "3 \<le> m"
proof -
  define t where "t = 3 * m - 2 - u - v"
  define h where "h = (m + 1) div 2"
  define r where "r = (h * t) mod m"
  have m3: "3 \<le> m"
    using assms by (cases "m = 1"; cases "m = 2") auto
  have h2: "2 * h = m + 1" using assms(1) by (simp add: h_def)
  have t: "t + u + v + 2 = 3 * m" using assms m3 by (simp add: t_def)
  have "m dvd (u + r) + (v + r) + 2"
  proof -
    have "(u + r) + (v + r) + 2 + 2 * (m * (h * t div m)) = u + v + 2 + 2 * (r + m * (h * t div m))"
      by simp
    also have "r + m * (h * t div m) = h * t" by (simp add: r_def)
    also have "u + v + 2 + 2 * (h * t) = u + v + 2 + (m + 1) * t"
      by (simp add: h2 flip: mult.assoc)
    also have "\<dots> = m * (t + 3)" using t by (simp add: algebra_simps)
    finally have "m dvd (u + r) + (v + r) + 2 + 2 * (m * (h * t div m))" by simp
    then show ?thesis by (metis dvd_add_left_iff dvd_mult dvd_triv_left)
  qed
  then have sum0: "((u + r) + (v + r) + 2) mod m = 0" by (rule dvd_imp_mod_0)
  define q q' where "q = (u + r) mod m" and "q' = (v + r) mod m"
  have "(q + q') mod m = ((u + r) + (v + r)) mod m"
    unfolding q_def q'_def by (rule mod_add_eq)
  then have "(q + q' + 2) mod m = ((u + r) + (v + r) + 2) mod m"
    by (rule mod_add_cong) (rule refl)
  with sum0 have "m dvd q + q' + 2" by (simp only: dvd_eq_mod_eq_0)
  then obtain c where c: "q + q' + 2 = m * c" by blast
  have qm: "q < m" "q' < m" using m3 by (simp_all add: q_def q'_def)
  have "q \<noteq> q'"
    using assms(2-4) by (auto simp: q_def q'_def dest: shifted_mod_inj)
  have "c \<noteq> 0" using c by (intro notI) simp
  moreover have "c < 2"
  proof (rule ccontr)
    assume "\<not> c < 2"
    then have "m * 2 \<le> m * c" by (intro mult_le_mono2) simp
    then show False using c qm \<open>q \<noteq> q'\<close> by linarith
  qed
  ultimately have "c = 1" by simp
  then show ?thesis using c m3 that [of r] by (simp add: q_def q'_def r_def)
qed


lemma length_slots [simp]: "length (slots arr) = length arr div 2"
  by (simp add: slots_def)

lemma length_rotate_rest [simp]: "length (rotate_rest arr) = length arr"
  by (cases arr rule: rev_cases) (auto simp: rotate_rest_def Let_def)

lemma length_rotate_rest_pow [simp]: "length ((rotate_rest ^^ r) arr) = length arr"
  by (induction r) auto

lemma set_rotate_rest [simp]: "set (rotate_rest arr) = set arr"
proof (cases "2 < length arr")
  case True
  then obtain x ys where arr: "arr = x # ys" by (cases arr) auto
  then show ?thesis using True rotate_rest_Cons [of ys "length ys" x] by simp
qed (simp add: rotate_rest_def)

lemma set_rotate_rest_pow [simp]: "set ((rotate_rest ^^ r) arr) = set arr"
  by (induction r) auto

lemma slots_first: "length zs = m \<Longrightarrow> odd m \<Longrightarrow> (x, zs ! (m - 1)) \<in> set (slots (x # zs))"
  by (auto simp: slots_def image_iff odd_pos intro!: bexI [of _ 0])

lemma slots_inner:
  assumes "length zs = m" "odd m" "p + p' = m - 2" "p < p'" "3 \<le> m"
  shows "(zs ! p, zs ! p') \<in> set (slots (x # zs))"
proof -
  have "Suc p < length (slots (x # zs))" using assms by simp
  moreover have "m - Suc p = Suc p'" using assms by simp
  then have "slots (x # zs) ! Suc p = (zs ! p, zs ! p')"
    using calculation assms(1) by (simp add: slots_def)
  ultimately show ?thesis by (metis nth_mem)
qed

lemma slots_meet:
  assumes "length zs = m" "odd m" "p + p' = m - 2" "p \<noteq> p'" "3 \<le> m"
  shows "{zs ! p, zs ! p'} \<in> undirected ` set (slots (x # zs))"
proof (cases "p < p'")
  case True
  then show ?thesis using slots_inner [OF assms(1-3) True assms(5)] by (force simp: undirected_def)
next
  case False
  then have "p' < p" "p' + p = m - 2" using assms by auto
  then show ?thesis using slots_inner [OF assms(1,2) _ _ assms(5), of p' p x]
    by (force simp: undirected_def insert_commute)
qed

definition all_slots :: "'a list \<Rightarrow> ('a \<times> 'a) list" where
  "all_slots arr = concat (map (\<lambda>r. slots ((rotate_rest ^^ r) arr)) [0..<length arr - 1])"

lemma in_all_slots:
  "p \<in> set (all_slots arr) \<longleftrightarrow> (\<exists>r<length arr - 1. p \<in> set (slots ((rotate_rest ^^ r) arr)))"
  by (auto simp: all_slots_def)

lemma length_all_slots: "length (all_slots arr) = (length arr - 1) * (length arr div 2)"
  by (simp add: all_slots_def length_concat comp_def sum_list_triv)

text \<open>Element \<open>u\<close> of the rotating part is at position \<open>u + r\<close> (modulo its length) in round \<open>r\<close>.\<close>

lemma position_in_round:
  assumes "length ys = m" "2 \<le> m" "u < m"
  shows "rotate (r * (m - 1)) ys ! ((u + r) mod m) = ys ! u"
proof -
  have "r * (m - 1) + (u + r) = u + r * m"
    using assms(2) by (cases m) (simp_all add: algebra_simps)
  then have "(r * (m - 1) + (u + r) mod m) mod m = u"
    using assms(3) by (metis mod_add_right_eq mod_less mod_mult_self1)
  then show ?thesis using assms by (simp add: nth_rotate)
qed

lemma all_slots_fixed:
  assumes "length ys = m" "odd m" "3 \<le> m" "v < m"
  shows "{x, ys ! v} \<in> undirected ` set (all_slots (x # ys))"
proof -
  define r where "r = m - 1 - v"
  have r: "r < m" "(v + r) mod m = m - 1" using assms by (simp_all add: r_def)
  let ?zs = "rotate (r * (m - 1)) ys"
  have "(x, ?zs ! (m - 1)) \<in> set (slots (x # ?zs))" using assms by (intro slots_first) auto
  then have "(x, ys ! v) \<in> set (slots ((rotate_rest ^^ r) (x # ys)))"
    using position_in_round [of ys m v r] r assms by (simp add: rotate_rest_pow)
  then show ?thesis using r(1) assms(1) by (force simp: in_all_slots undirected_def)
qed

lemma all_slots_moving:
  assumes "length ys = m" "odd m" "u < m" "v < m" "u \<noteq> v"
  shows "{ys ! u, ys ! v} \<in> undirected ` set (all_slots (x # ys))"
proof -
  obtain r where r: "r < m" "(u + r) mod m + (v + r) mod m = m - 2" "3 \<le> m"
    using assms by (elim meeting_round)
  let ?zs = "rotate (r * (m - 1)) ys"
  have "(u + r) mod m \<noteq> (v + r) mod m" using assms shifted_mod_inj by blast
  then have "{?zs ! ((u + r) mod m), ?zs ! ((v + r) mod m)} \<in> undirected ` set (slots (x # ?zs))"
    using assms r by (intro slots_meet) auto
  then have "{ys ! u, ys ! v} \<in> undirected ` set (slots ((rotate_rest ^^ r) (x # ys)))"
    using position_in_round [of ys m u r] position_in_round [of ys m v r] assms r
    by (simp add: rotate_rest_pow)
  then show ?thesis using r(1) assms(1) by (force simp: in_all_slots)
qed

lemma all_slots_cover:
  assumes "even (length arr)"
  shows "two_subsets (set arr) \<subseteq> undirected ` set (all_slots arr)"
proof
  fix B assume "B \<in> two_subsets (set arr)"
  then obtain a b where ab: "B = {a, b}" "a \<in> set arr" "b \<in> set arr" "a \<noteq> b"
    by (auto simp: two_subsets_alt)
  then obtain x ys where arr: "arr = x # ys" by (cases arr) auto
  let ?m = "length ys"
  have odd: "odd ?m" using assms arr by simp
  show "B \<in> undirected ` set (all_slots arr)"
  proof (cases "?m = 1")
    case True
    then obtain y where "ys = [y]" by (auto simp: length_Suc_conv)
    then have "B = {x, y}" using ab arr by auto
    then show ?thesis using \<open>ys = [y]\<close> arr
      by (auto simp: all_slots_def slots_def undirected_def)
  next
    case False
    then have m3: "3 \<le> ?m" using odd by presburger
    consider v where "v < ?m" "B = {x, ys ! v}"
      | u v where "u < ?m" "v < ?m" "u \<noteq> v" "B = {ys ! u, ys ! v}"
      using ab arr by (auto simp: in_set_conv_nth insert_commute) 
    then show ?thesis
      using all_slots_fixed [OF refl odd m3] all_slots_moving [OF refl odd] arr by cases auto
  qed
qed

lemma all_slots_distinct:
  assumes "even (length arr)" "distinct arr"
  shows "distinct (map undirected (all_slots arr))
    \<and> set (map undirected (all_slots arr)) = two_subsets (set arr)"
proof (rule covering_list_distinct)
  show "finite (two_subsets (set arr))" by (simp add: finite_two_subsets)
  show "two_subsets (set arr) \<subseteq> set (map undirected (all_slots arr))"
    using all_slots_cover [OF assms(1)] by simp
  show "length (map undirected (all_slots arr)) = card (two_subsets (set arr))"
    using assms by (auto simp: length_all_slots card_two_subsets distinct_card elim!: evenE)
qed


lemma both_present_eq_Some [simp]: "both_present p = Some (a, b) \<longleftrightarrow> p = (Some a, Some b)"
  by (cases p rule: both_present.cases) auto

lemma present_undirected:
  "map (\<lambda>p. Some ` undirected p) (List.map_filter both_present ps)
     = filter (\<lambda>B. None \<notin> B) (map undirected ps)"
proof (induction ps)
  case Nil
  then show ?case by (simp add: List.map_filter_simps)
next
  case (Cons p ps)
  then show ?case
    by (cases p rule: both_present.cases) (auto simp: List.map_filter_simps undirected_def)
qed

lemma round_pairs_concat:
  "concat (map (\<lambda>r. round_pairs (f r)) rs) = List.map_filter both_present (concat (map (\<lambda>r. slots (f r)) rs))"
  by (induction rs) (simp_all add: round_pairs_def List.map_filter_def)

definition pair_hosts :: "('a \<times> 'a) list \<Rightarrow> 'a list" where
  "pair_hosts ps = concat (map (\<lambda>(a, b). [a, b]) ps)"

lemma pair_hosts_simps [simp]:
  "pair_hosts [] = []" "pair_hosts ((a, b) # ps) = a # b # pair_hosts ps"
  by (simp_all add: pair_hosts_def)

lemma length_pair_hosts [simp]: "length (pair_hosts ps) = 2 * length ps"
  by (induction ps) auto

lemma set_pair_hosts: "set (pair_hosts ps) = (\<Union>(a, b)\<in>set ps. {a, b})"
  by (induction ps) auto

lemma slots_partition:
  assumes "even (length arr)" "distinct arr"
  shows "distinct (pair_hosts (slots arr)) \<and> set (pair_hosts (slots arr)) = set arr"
proof (rule covering_list_distinct)
  let ?n = "length arr"
  show "set arr \<subseteq> set (pair_hosts (slots arr))"
  proof
    fix a assume "a \<in> set arr"
    then obtain i where i: "i < ?n" "a = arr ! i" by (auto simp: in_set_conv_nth)
    define j where "j = min i (?n - 1 - i)"
    have "j < ?n div 2" using i assms(1) by (auto simp: j_def min_def elim!: evenE)
    then have "(arr ! j, arr ! (?n - 1 - j)) \<in> set (slots arr)" by (auto simp: slots_def)
    moreover have "i = j \<or> i = ?n - 1 - j" using i by (auto simp: j_def min_def)
    ultimately show "a \<in> set (pair_hosts (slots arr))" using i by (force simp: set_pair_hosts)
  qed
qed (use assms in \<open>auto simp: distinct_card\<close>)

lemma present_hosts:
  "set (map Some (pair_hosts (List.map_filter both_present ps))) \<subseteq> set (pair_hosts ps)
   \<and> (distinct (pair_hosts ps) \<longrightarrow> distinct (map Some (pair_hosts (List.map_filter both_present ps))))"
proof (induction ps)
  case Nil
  then show ?case by (simp add: List.map_filter_simps)
next
  case (Cons p ps)
  then show ?case
    by (cases p rule: both_present.cases) (auto simp: List.map_filter_simps)
qed

lemma distinct_rotate_rest [simp]: "distinct arr \<Longrightarrow> distinct (rotate_rest arr)"
  by (metis card_distinct distinct_card length_rotate_rest set_rotate_rest)

lemma distinct_rotate_rest_pow [simp]: "distinct arr \<Longrightarrow> distinct ((rotate_rest ^^ r) arr)"
  by (induction r) auto

lemma length_with_bye: "length (with_bye hosts) = length hosts + length hosts mod 2"
  by (simp add: with_bye_def Let_def)

lemma even_with_bye [simp]: "even (length (with_bye hosts))"
  by (simp add: length_with_bye)

lemma distinct_with_bye [simp]: "distinct hosts \<Longrightarrow> distinct (with_bye hosts)"
  by (auto simp: with_bye_def Let_def distinct_map)

lemma set_with_bye: "set (with_bye hosts) = Some ` set hosts \<union> (if odd (length hosts) then {None} else {})"
  by (auto simp: with_bye_def Let_def odd_iff_mod_2_eq_one)

lemma round_robin_rounds_eq:
  "2 \<le> length hosts \<Longrightarrow> round_robin_rounds hosts
     = map (\<lambda>r. round_pairs ((rotate_rest ^^ r) (with_bye hosts))) [0..<length (with_bye hosts) - 1]"
  by (simp add: round_robin_rounds_def rounds_loop_eq Let_def)

lemma rounds_each_once:
  assumes "distinct hosts"
  shows "distinct (map undirected (concat (round_robin_rounds hosts)))
    \<and> set (map undirected (concat (round_robin_rounds hosts))) = two_subsets (set hosts)"
proof (cases "length hosts < 2")
  case True
  then have "hosts = [] \<or> (\<exists>h. hosts = [h])" by (cases hosts; cases "tl hosts") auto
  then show ?thesis by (auto simp: round_robin_rounds_def two_subsets_alt)
next
  case False
  let ?arr = "with_bye hosts" and ?ps = "concat (round_robin_rounds hosts)"
  have ps: "?ps = List.map_filter both_present (all_slots ?arr)"
    using False by (simp add: round_robin_rounds_eq round_pairs_concat all_slots_def)
  have all: "distinct (map undirected (all_slots ?arr))"
      "set (map undirected (all_slots ?arr)) = two_subsets (set ?arr)"
    using all_slots_distinct [of ?arr] assms by simp_all
  have some: "map ((`) Some) (map undirected ?ps)
      = filter (\<lambda>B. None \<notin> B) (map undirected (all_slots ?arr))"
    using present_undirected [of "all_slots ?arr"] by (simp add: ps comp_def)
  have "distinct (map ((`) Some) (map undirected ?ps))" unfolding some using all(1) by simp
  then have dist: "distinct (map undirected ?ps)" by (simp only: distinct_map [of "(`) Some"])
  have "(`) Some ` set (map undirected ?ps) = set (map ((`) Some) (map undirected ?ps))"
    by (simp only: set_map)
  also have "\<dots> = {B \<in> two_subsets (set ?arr). None \<notin> B}"
    by (simp only: some set_filter all(2))
  also have "\<dots> = two_subsets (Some ` set hosts)"
    by (auto simp: two_subsets_def set_with_bye split: if_splits)
  also have "\<dots> = (`) Some ` two_subsets (set hosts)"
    by (rule two_subsets_image) simp
  finally have "set (map undirected ?ps) = two_subsets (set hosts)"
    by (simp only: inj_image_eq_iff [OF inj_image_Some])
  then show ?thesis using dist by simp
qed

lemma rounds_disjoint:
  assumes "distinct hosts" "r \<in> set (round_robin_rounds hosts)"
  shows "distinct (pair_hosts r) \<and> set (pair_hosts r) \<subseteq> set hosts"
proof -
  have "2 \<le> length hosts" using assms(2) by (auto simp: round_robin_rounds_def split: if_splits)
  then obtain k where r: "r = round_pairs ((rotate_rest ^^ k) (with_bye hosts))"
    using assms(2) by (auto simp: round_robin_rounds_eq)
  let ?arr = "(rotate_rest ^^ k) (with_bye hosts)"
  have "distinct (map Some (pair_hosts r))" "set (map Some (pair_hosts r)) \<subseteq> set ?arr"
    using present_hosts [of "slots ?arr"] slots_partition [of ?arr] assms(1)
    by (auto simp: r round_pairs_def)
  moreover have "set ?arr \<subseteq> insert None (Some ` set hosts)" by (auto simp: set_with_bye)
  ultimately show ?thesis by (auto simp: distinct_map)
qed

lemma rounds_counts:
  assumes "distinct hosts" "2 \<le> length hosts"
  shows "length (round_robin_rounds hosts) = (if even (length hosts) then length hosts - 1 else length hosts)
    \<and> (\<forall>r\<in>set (round_robin_rounds hosts). length r = length hosts div 2)"
proof (intro conjI ballI)
  let ?n = "length hosts" and ?rs = "round_robin_rounds hosts"
  show len: "length ?rs = (if even ?n then ?n - 1 else ?n)"
    using assms(2) by (simp add: round_robin_rounds_eq length_with_bye parity_cases) presburger
  have upper: "length r \<le> ?n div 2" if "r \<in> set ?rs" for r
  proof -
    have "2 * length r = card (set (pair_hosts r))"
      using rounds_disjoint [OF assms(1) that] by (simp add: distinct_card)
    also have "\<dots> \<le> ?n"
      using rounds_disjoint [OF assms(1) that] assms(1) by (metis List.finite_set card_mono distinct_card)
    finally show ?thesis by simp
  qed
  have "sum_list (map length ?rs) = length (map undirected (concat ?rs))"
    by (simp add: length_concat)
  also have "\<dots> = card (two_subsets (set hosts))"
    using rounds_each_once [OF assms(1)] by (metis distinct_card)
  also have "\<dots> = ?n div 2 * length ?rs"
    using assms(1) len by (auto simp: card_two_subsets distinct_card elim!: evenE oddE)
  finally have total: "sum_list (map length ?rs) = ?n div 2 * length (map length ?rs)" by simp
  fix r assume "r \<in> set ?rs"
  then show "length r = ?n div 2"
    using sum_list_bound_tight [OF _ total, of "length r"] upper by auto
qed

section \<open>Assignments\<close>

definition assignments_mesh :: "string list \<Rightarrow> assignment list" where
  "assignments_mesh hosts =
     map (\<lambda>(i, name).
       \<lparr>self_name = name, self_id = of_nat i, asg_bind = [],
        targets = map (\<lambda>(j, n). \<lparr>tgt_name = n, tgt_id = of_nat j, tgt_addr = []\<rparr>)
          (filter (\<lambda>(j, _). j \<noteq> i) (List.enumerate 0 hosts))\<rparr>)
       (List.enumerate 0 hosts)"

definition push_target :: "target \<Rightarrow> assignment \<Rightarrow> assignment" where
  "push_target t a = a\<lparr>targets := targets a @ [t]\<rparr>"

text \<open>One iteration over a pair; \<open>None\<close> is the panic of \<open>expect\<close>.\<close>

definition assign_pair :: "string list \<Rightarrow> assignment list \<Rightarrow> string \<times> string \<Rightarrow> assignment list option" where
  "assign_pair hosts out p =
     (case p of (a, b) \<Rightarrow>
        Option.bind (position (\<lambda>h. h = a) hosts) (\<lambda>ia.
        Option.bind (position (\<lambda>h. h = b) hosts) (\<lambda>ib.
          let out1 = out[ia := push_target \<lparr>tgt_name = b, tgt_id = of_nat ib, tgt_addr = []\<rparr> (out ! ia)]
          in Some (out1[ib := push_target \<lparr>tgt_name = a, tgt_id = of_nat ia, tgt_addr = []\<rparr> (out1 ! ib)]))))"

fun assign_pairs :: "string list \<Rightarrow> assignment list \<Rightarrow> (string \<times> string) list \<Rightarrow> assignment list option" where
  "assign_pairs hosts out [] = Some out"
| "assign_pairs hosts out (p # ps) =
     (case assign_pair hosts out p of None \<Rightarrow> None | Some out' \<Rightarrow> assign_pairs hosts out' ps)"

definition assignments_for_pairs :: "string list \<Rightarrow> (string \<times> string) list \<Rightarrow> assignment list option" where
  "assignments_for_pairs hosts pairs =
     assign_pairs hosts
       (map (\<lambda>(i, name). \<lparr>self_name = name, self_id = of_nat i, asg_bind = [], targets = []\<rparr>)
         (List.enumerate 0 hosts)) pairs"

definition fill_target :: "socket_addr list \<Rightarrow> target \<Rightarrow> target option" where
  "fill_target resolved t =
     (if unat (tgt_id t) < length resolved
      then Some (t\<lparr>tgt_addr := show_sock (resolved ! unat (tgt_id t))\<rparr>) else None)"

definition fill_assignment :: "socket_addr list \<Rightarrow> assignment \<Rightarrow> assignment option" where
  "fill_assignment resolved a =
     (if unat (self_id a) < length resolved
      then map_option (\<lambda>ts. a\<lparr>asg_bind := show_sock (resolved ! unat (self_id a)), targets := ts\<rparr>)
             (map_opt (fill_target resolved) (targets a))
      else None)"

definition fill_resolved :: "assignment list \<Rightarrow> socket_addr list \<Rightarrow> assignment list option" where
  "fill_resolved asg resolved = map_opt (fill_assignment resolved) asg"

subsection \<open>The partner of a host in a round\<close>

text \<open>The hosts that \<open>h\<close> is paired with, in the order of the pairs.\<close>

definition partners :: "string \<Rightarrow> (string \<times> string) list \<Rightarrow> string list" where
  "partners h ps =
     concat (map (\<lambda>(a, b). (if a = h then [b] else []) @ (if b = h then [a] else [])) ps)"

lemma partners_simps [simp]:
  "partners h [] = []"
  "partners h ((a, b) # ps) =
     (if a = h then [b] else []) @ (if b = h then [a] else []) @ partners h ps"
  by (simp_all add: partners_def)

lemma in_partners: "x \<in> set (partners h ps) \<longleftrightarrow> (h, x) \<in> set ps \<or> (x, h) \<in> set ps"
proof (induction ps)
  case (Cons p ps)
  then show ?case by (cases p) (simp, blast)
qed simp

lemma partners_subset: "set (partners h ps) \<subseteq> set (pair_hosts ps)"
  by (induction ps) auto

lemma partners_absent: "h \<notin> set (pair_hosts ps) \<Longrightarrow> partners h ps = []"
  by (induction ps) auto

lemma partners_disjoint:
  "distinct (pair_hosts ps) \<Longrightarrow> h \<notin> set (partners h ps) \<and> length (partners h ps) \<le> 1"
proof (induction ps)
  case (Cons p ps)
  obtain a b where p: "p = (a, b)" by (cases p)
  show ?case
  proof (cases "h = a \<or> h = b")
    case True
    then have "partners h ps = []" using Cons.prems p by (intro partners_absent) auto
    then show ?thesis using True Cons.prems p by auto
  next
    case False
    then show ?thesis using Cons p by auto
  qed
qed simp

lemma in_partners_undirected: "a \<noteq> b \<Longrightarrow> b \<in> set (partners a ps) \<longleftrightarrow> {a, b} \<in> undirected ` set ps"
  by (force simp: in_partners undirected_def image_iff doubleton_eq_iff)

lemma partners_sym: "b \<in> set (partners a ps) \<longleftrightarrow> a \<in> set (partners b ps)"
  by (auto simp: in_partners)

subsection \<open>What a schedule of rounds promises\<close>

locale pair_schedule =
  fixes rounds :: "string list \<Rightarrow> (string \<times> string) list list"
  assumes disjoint: "distinct hosts \<Longrightarrow> r \<in> set (rounds hosts) \<Longrightarrow>
      distinct (pair_hosts r) \<and> set (pair_hosts r) \<subseteq> set hosts"
    and each_once: "distinct hosts \<Longrightarrow>
      distinct (map undirected (concat (rounds hosts)))
      \<and> set (map undirected (concat (rounds hosts))) = two_subsets (set hosts)"
begin

lemma one_partner: "distinct hosts \<Longrightarrow> r \<in> set (rounds hosts) \<Longrightarrow> length (partners h r) \<le> 1"
  using disjoint partners_disjoint by blast

lemma partner_in_hosts: "distinct hosts \<Longrightarrow> r \<in> set (rounds hosts) \<Longrightarrow> set (partners h r) \<subseteq> set hosts"
  using disjoint partners_subset by blast

text \<open>Over one pass through the rounds, every host meets every other host exactly once.\<close>

lemma meets_once:
  assumes "distinct hosts" "a \<in> set hosts" "b \<in> set hosts" "a \<noteq> b"
  shows "length (filter (\<lambda>r. b \<in> set (partners a r)) (rounds hosts)) = 1"
proof -
  have "length (filter (\<lambda>r. B \<in> undirected ` set r) rs) = count_list (map undirected (concat rs)) B"
    if "distinct (map undirected (concat rs))" for B and rs :: "(string \<times> string) list list"
    using that
  proof (induction rs)
    case (Cons r rs)
    then have "B \<in> undirected ` set r \<Longrightarrow> B \<notin> set (map undirected (concat rs))" by auto
    moreover have "count_list (map undirected r) B = (if B \<in> undirected ` set r then 1 else 0)"
      using Cons.prems by (simp add: distinct_count_list)
    ultimately show ?case using Cons by auto
  qed simp
  moreover have "{a, b} \<in> set (map undirected (concat (rounds hosts)))"
    using each_once [OF assms(1)] assms by (auto simp: two_subsets_alt)
  ultimately show ?thesis
    using each_once [OF assms(1)] assms(4) by (simp add: in_partners_undirected distinct_count_list)
qed

text \<open>So the partners of a host over one pass are all the other hosts, each once.\<close>

lemma meets_all:
  assumes "distinct hosts" "a \<in> set hosts"
  shows "mset (concat (map (partners a) (rounds hosts))) = mset (remove1 a hosts)"
proof (rule multiset_eqI)
  fix b
  have count: "count (mset (concat (map (partners a) rs))) b = length (filter (\<lambda>r. b \<in> set (partners a r)) rs)"
    if "\<forall>r\<in>set rs. length (partners a r) \<le> 1" for rs
    using that by (induction rs) (auto simp: le_Suc_eq length_Suc_conv count_mset_0_iff)
  have never: "filter (\<lambda>r. b \<in> set (partners a r)) (rounds hosts) = []" if "b = a \<or> b \<notin> set hosts"
    using that disjoint [OF assms(1)] partners_disjoint partners_subset by (fastforce simp: filter_empty_conv)
  have "count (mset (concat (map (partners a) (rounds hosts)))) b = length (filter (\<lambda>r. b \<in> set (partners a r)) (rounds hosts))"
    using one_partner [OF assms(1)] by (intro count) blast
  also have "\<dots> = (if b \<in> set hosts \<and> b \<noteq> a then 1 else 0)"
    using meets_once [OF assms(1,2), of b] never by auto
  also have "\<dots> = count (mset (remove1 a hosts)) b"
    using assms(1) by (simp add: distinct_count_atmost_1)
  finally show "count (mset (concat (map (partners a) (rounds hosts)))) b = count (mset (remove1 a hosts)) b" .
qed

end

interpretation rr: pair_schedule round_robin_rounds
  by unfold_locales (rule rounds_disjoint rounds_each_once, assumption+)+

subsection \<open>What the assignments say\<close>

definition target_for :: "string list \<Rightarrow> string \<Rightarrow> target" where
  "target_for hosts name =
     \<lparr>tgt_name = name, tgt_id = of_nat (the (position (\<lambda>h. h = name) hosts)), tgt_addr = []\<rparr>"

lemma position_host:
  assumes "a \<in> set hosts" "distinct hosts"
  obtains i where "position (\<lambda>h. h = a) hosts = Some i" "i < length hosts" "hosts ! i = a"
  using assms by (metis in_set_conv_nth position_nth)

lemma assign_pair_eq:
  assumes "distinct hosts" "length out = length hosts" "a \<in> set hosts" "b \<in> set hosts"
  obtains out' where "assign_pair hosts out (a, b) = Some out'" "length out' = length hosts"
    "\<And>i. i < length hosts \<Longrightarrow>
       out' ! i = (out ! i)\<lparr>targets := targets (out ! i) @ map (target_for hosts) (partners (hosts ! i) [(a, b)])\<rparr>"
proof -
  obtain ia where ia: "position (\<lambda>h. h = a) hosts = Some ia" "ia < length hosts" "hosts ! ia = a"
    using position_host assms by metis
  obtain ib where ib: "position (\<lambda>h. h = b) hosts = Some ib" "ib < length hosts" "hosts ! ib = b"
    using position_host assms by metis
  have eq: "hosts ! i = a \<longleftrightarrow> i = ia" "hosts ! i = b \<longleftrightarrow> i = ib" if "i < length hosts" for i
    using that assms(1) ia ib by (auto simp: nth_eq_iff_index_eq)
  show thesis
  proof (rule that)
    show "assign_pair hosts out (a, b) =
      Some ((out[ia := push_target (target_for hosts b) (out ! ia)])
        [ib := push_target (target_for hosts a) (out[ia := push_target (target_for hosts b) (out ! ia)] ! ib)])"
      using ia ib by (simp add: assign_pair_def target_for_def Let_def)
  next
    fix i assume i: "i < length hosts"
    show "(out[ia := push_target (target_for hosts b) (out ! ia)])
        [ib := push_target (target_for hosts a) (out[ia := push_target (target_for hosts b) (out ! ia)] ! ib)] ! i
      = (out ! i)\<lparr>targets := targets (out ! i) @ map (target_for hosts) (partners (hosts ! i) [(a, b)])\<rparr>"
      using i eq [OF i] ia(2) ib(2) assms(2)
      by (auto simp: push_target_def nth_list_update)
  qed (simp add: assms(2))
qed

lemma assign_pairs_eq:
  assumes "distinct hosts" "length out = length hosts" "set (pair_hosts ps) \<subseteq> set hosts"
  shows "\<exists>out'. assign_pairs hosts out ps = Some out' \<and> length out' = length hosts
    \<and> (\<forall>i<length hosts.
         out' ! i = (out ! i)\<lparr>targets := targets (out ! i) @ map (target_for hosts) (partners (hosts ! i) ps)\<rparr>)"
  using assms(2,3)
proof (induction ps arbitrary: out)
  case Nil
  then show ?case by simp
next
  case (Cons p ps)
  obtain a b where p: "p = (a, b)" by (cases p)
  with Cons.prems have "a \<in> set hosts" "b \<in> set hosts" by auto
  then obtain out1 where out1:
    "assign_pair hosts out (a, b) = Some out1" "length out1 = length hosts"
    "\<And>i. i < length hosts \<Longrightarrow>
       out1 ! i = (out ! i)\<lparr>targets := targets (out ! i) @ map (target_for hosts) (partners (hosts ! i) [(a, b)])\<rparr>"
    by (rule assign_pair_eq [OF assms(1) Cons.prems(1)]) blast
  moreover obtain out2 where "assign_pairs hosts out1 ps = Some out2" "length out2 = length hosts"
    "\<forall>i<length hosts.
       out2 ! i = (out1 ! i)\<lparr>targets := targets (out1 ! i) @ map (target_for hosts) (partners (hosts ! i) ps)\<rparr>"
    using Cons.IH [OF out1(2)] Cons.prems(2) p by auto
  ultimately show ?case using p by auto
qed

lemma assignments_for_pairs_eq:
  assumes "distinct hosts" "set (pair_hosts ps) \<subseteq> set hosts"
  shows "assignments_for_pairs hosts ps =
    Some (map (\<lambda>i. \<lparr>self_name = hosts ! i, self_id = of_nat i, asg_bind = [],
                   targets = map (target_for hosts) (partners (hosts ! i) ps)\<rparr>) [0..<length hosts])"
proof -
  let ?init = "map (\<lambda>(i, name). \<lparr>self_name = name, self_id = of_nat i, asg_bind = [], targets = []\<rparr>)
    (List.enumerate 0 hosts)"
  obtain out where out: "assign_pairs hosts ?init ps = Some out" "length out = length hosts"
    "\<forall>i<length hosts.
       out ! i = (?init ! i)\<lparr>targets := targets (?init ! i) @ map (target_for hosts) (partners (hosts ! i) ps)\<rparr>"
    using assign_pairs_eq [OF assms(1) _ assms(2), of ?init] by auto
  have "out = map (\<lambda>i. \<lparr>self_name = hosts ! i, self_id = of_nat i, asg_bind = [],
                   targets = map (target_for hosts) (partners (hosts ! i) ps)\<rparr>) [0..<length hosts]"
    using out(2,3) by (intro nth_equalityI) (auto simp: nth_enumerate_eq)
  then show ?thesis using out(1) by (simp add: assignments_for_pairs_def)
qed

lemma target_for_id:
  assumes "name \<in> set hosts" "distinct hosts" "length hosts \<le> 2 ^ 32"
  shows "unat (tgt_id (target_for hosts name)) < length hosts
    \<and> hosts ! unat (tgt_id (target_for hosts name)) = name"
proof -
  obtain i where i: "position (\<lambda>h. h = name) hosts = Some i" "i < length hosts" "hosts ! i = name"
    using position_host assms(1,2) by metis
  then have "unat (of_nat i :: u32) = i" using assms(3) by (simp add: unat_of_nat_small)
  then show ?thesis using i by (simp add: target_for_def)
qed

lemma fill_target_eq:
  "unat (tgt_id t) < length resolved \<Longrightarrow>
     fill_target resolved t = Some (t\<lparr>tgt_addr := show_sock (resolved ! unat (tgt_id t))\<rparr>)"
  by (simp add: fill_target_def)

lemma fill_resolved_eq:
  assumes "\<forall>a\<in>set asg. unat (self_id a) < length resolved \<and> (\<forall>t\<in>set (targets a). unat (tgt_id t) < length resolved)"
  shows "fill_resolved asg resolved =
    Some (map (\<lambda>a. a\<lparr>asg_bind := show_sock (resolved ! unat (self_id a)),
      targets := map (\<lambda>t. t\<lparr>tgt_addr := show_sock (resolved ! unat (tgt_id t))\<rparr>) (targets a)\<rparr>) asg)"
  unfolding fill_resolved_def
proof (rule map_opt_total)
  fix a assume "a \<in> set asg"
  then have a: "unat (self_id a) < length resolved"
      "\<And>t. t \<in> set (targets a) \<Longrightarrow> fill_target resolved t = Some (t\<lparr>tgt_addr := show_sock (resolved ! unat (tgt_id t))\<rparr>)"
    using assms by (auto simp: fill_target_def)
  show "fill_assignment resolved a =
    Some (a\<lparr>asg_bind := show_sock (resolved ! unat (self_id a)),
      targets := map (\<lambda>t. t\<lparr>tgt_addr := show_sock (resolved ! unat (tgt_id t))\<rparr>) (targets a)\<rparr>)"
    using a map_opt_total [of "targets a" "fill_target resolved"] by (simp add: fill_assignment_def)
qed

lemma mesh_ids:
  assumes "length hosts \<le> 2 ^ 32" "a \<in> set (assignments_mesh hosts)"
  shows "unat (self_id a) < length hosts \<and> (\<forall>t\<in>set (targets a). unat (tgt_id t) < length hosts)"
  using assms by (auto simp: assignments_mesh_def in_set_enumerate_eq unat_of_nat_small)

section \<open>Properties\<close>

text \<open>C1: over one pass of the schedule every unordered pair of distinct hosts is played in exactly
  one slot, and nothing else is played, whatever the number of hosts.\<close>

theorem schedule_each_pair_once:
  assumes "distinct hosts"
  shows "distinct (map undirected (concat (round_robin_rounds hosts)))
    \<and> set (map undirected (concat (round_robin_rounds hosts))) = two_subsets (set hosts)"
  using assms by (rule rr.each_once)

theorem schedule_each_pair_once_witness:
  "distinct (map undirected (concat (round_robin_rounds [''a'', ''b'', ''c'', ''d'', ''e''])))
    \<and> set (map undirected (concat (round_robin_rounds [''a'', ''b'', ''c'', ''d'', ''e''])))
        = two_subsets {''a'', ''b'', ''c'', ''d'', ''e''}"
  using schedule_each_pair_once [of "[''a'', ''b'', ''c'', ''d'', ''e'']"] by simp

text \<open>Within a round the pairs are disjoint (a host is in at most one pair) and only
  configured hosts play.\<close>

theorem schedule_rounds_disjoint:
  assumes "distinct hosts" "r \<in> set (round_robin_rounds hosts)"
  shows "distinct (pair_hosts r) \<and> set (pair_hosts r) \<subseteq> set hosts"
  using assms by (rule rr.disjoint)

theorem schedule_rounds_disjoint_witness:
  "distinct (pair_hosts [(''a'', ''c''), (''d'', ''b'')])
    \<and> set (pair_hosts [(''a'', ''c''), (''d'', ''b'')]) \<subseteq> set [''a'', ''b'', ''c'', ''d'']"
proof (rule schedule_rounds_disjoint)
  show "[(''a'', ''c''), (''d'', ''b'')] \<in> set (round_robin_rounds [''a'', ''b'', ''c'', ''d''])"
    by code_simp
qed simp

text \<open>For an even number of hosts there is one round less than hosts, for an odd number as
  many rounds as hosts; every round plays the maximal number of pairs, so at most one host sits out.\<close>

theorem schedule_counts:
  assumes "distinct hosts" "2 \<le> length hosts"
  shows "length (round_robin_rounds hosts) = (if even (length hosts) then length hosts - 1 else length hosts)
    \<and> (\<forall>r\<in>set (round_robin_rounds hosts). length r = length hosts div 2)"
  using assms by (rule rounds_counts)

theorem schedule_counts_witness:
  "length (round_robin_rounds [''a'', ''b'', ''c'']) = 3"
  using schedule_counts [of "[''a'', ''b'', ''c'']"] by simp

text \<open>C30: the assignments of a round are produced without a panic, one per host in host order with
  that host's name and id; every target carries the id of its host; a host has at most one target;
  and the relation is symmetric, so both ends of a pair send.\<close>

theorem pair_assignments_sound:
  assumes "distinct hosts" "length hosts \<le> 2 ^ 32" "r \<in> set (round_robin_rounds hosts)"
  shows "\<exists>asg. assignments_for_pairs hosts r = Some asg \<and> length asg = length hosts
    \<and> (\<forall>i<length hosts. self_name (asg ! i) = hosts ! i \<and> unat (self_id (asg ! i)) = i
         \<and> length (targets (asg ! i)) \<le> 1
         \<and> (\<forall>t\<in>set (targets (asg ! i)). unat (tgt_id t) < length hosts
               \<and> hosts ! unat (tgt_id t) = tgt_name t \<and> unat (tgt_id t) \<noteq> i))
    \<and> (\<forall>i<length hosts. \<forall>j<length hosts.
         hosts ! j \<in> tgt_name ` set (targets (asg ! i)) \<longleftrightarrow> hosts ! i \<in> tgt_name ` set (targets (asg ! j)))"
proof -
  have r: "set (pair_hosts r) \<subseteq> set hosts" "distinct (pair_hosts r)"
    using rr.disjoint [OF assms(1,3)] by auto
  have name [simp]: "tgt_name (target_for hosts n) = n" for n by (simp add: target_for_def)
  have ids: "unat (tgt_id (target_for hosts n)) < length hosts
      \<and> hosts ! unat (tgt_id (target_for hosts n)) = n" if "n \<in> set (partners h r)" for n h
    using that rr.partner_in_hosts [OF assms(1,3)] assms(1,2) by (intro target_for_id) auto
  let ?a = "\<lambda>i. \<lparr>self_name = hosts ! i, self_id = of_nat i, asg_bind = [],
    targets = map (target_for hosts) (partners (hosts ! i) r)\<rparr>"
  let ?asg = "map ?a [0..<length hosts]"
  have other: "unat (tgt_id (target_for hosts n)) \<noteq> i" if "n \<in> set (partners (hosts ! i) r)" for n i
    using that ids [OF that] partners_disjoint [OF r(2), of "hosts ! i"] by auto
  have names: "tgt_name ` set (targets (?asg ! i)) = set (partners (hosts ! i) r)" if "i < length hosts" for i
    using that by (simp add: image_image)
  show ?thesis
  proof (intro exI [of _ ?asg] conjI)
    show "assignments_for_pairs hosts r = Some ?asg" by (rule assignments_for_pairs_eq [OF assms(1) r(1)])
    show "\<forall>i<length hosts. self_name (?asg ! i) = hosts ! i \<and> unat (self_id (?asg ! i)) = i
        \<and> length (targets (?asg ! i)) \<le> 1
        \<and> (\<forall>t\<in>set (targets (?asg ! i)). unat (tgt_id t) < length hosts
              \<and> hosts ! unat (tgt_id t) = tgt_name t \<and> unat (tgt_id t) \<noteq> i)"
      using rr.one_partner [OF assms(1,3)] assms(2) ids other by (simp add: unat_of_nat_small)
    show "\<forall>i<length hosts. \<forall>j<length hosts.
        (hosts ! j \<in> tgt_name ` set (targets (?asg ! i))) = (hosts ! i \<in> tgt_name ` set (targets (?asg ! j)))"
      using names partners_sym by (metis (no_types, lifting))
  qed simp
qed

theorem pair_assignments_sound_witness:
  "\<exists>asg. assignments_for_pairs [''a'', ''b''] [(''a'', ''b'')] = Some asg \<and> length asg = 2
    \<and> self_name (asg ! 1) = ''b'' \<and> unat (self_id (asg ! 1)) = 1"
proof -
  have "[(''a'', ''b'')] \<in> set (round_robin_rounds [''a'', ''b''])" by code_simp
  then obtain asg where asg: "assignments_for_pairs [''a'', ''b''] [(''a'', ''b'')] = Some asg" "length asg = 2"
      "\<forall>i<2. self_name (asg ! i) = [''a'', ''b''] ! i \<and> unat (self_id (asg ! i)) = i"
    using pair_assignments_sound [of "[''a'', ''b'']" "[(''a'', ''b'')]"] by auto
  from asg(3) [THEN spec, of 1] asg(1,2) show ?thesis by auto
qed

text \<open>Over one pass of the schedule, host \<open>i\<close> is told to send to host \<open>j\<close> in exactly one round,
  for every ordered pair of distinct hosts.\<close>

theorem tournament_sends_once:
  assumes "distinct hosts" "i < length hosts" "j < length hosts" "i \<noteq> j"
  shows "length (filter (\<lambda>r. hosts ! j \<in> tgt_name ` set (targets (the (assignments_for_pairs hosts r) ! i)))
    (round_robin_rounds hosts)) = 1"
proof -
  have "(hosts ! j \<in> tgt_name ` set (targets (the (assignments_for_pairs hosts r) ! i)))
      = (hosts ! j \<in> set (partners (hosts ! i) r))" if "r \<in> set (round_robin_rounds hosts)" for r
    using rr.disjoint [OF assms(1) that] assms(2)
    by (subst assignments_for_pairs_eq [OF assms(1)]) (auto simp: image_image target_for_def)
  then have "filter (\<lambda>r. hosts ! j \<in> tgt_name ` set (targets (the (assignments_for_pairs hosts r) ! i)))
      (round_robin_rounds hosts)
    = filter (\<lambda>r. hosts ! j \<in> set (partners (hosts ! i) r)) (round_robin_rounds hosts)"
    by (rule filter_cong [OF refl])
  then show ?thesis
    using rr.meets_once [OF assms(1), of "hosts ! i" "hosts ! j"] assms
    by (simp add: nth_eq_iff_index_eq)
qed

theorem tournament_sends_once_witness:
  "length (filter (\<lambda>r. [''a'', ''b'', ''c''] ! 2
      \<in> tgt_name ` set (targets (the (assignments_for_pairs [''a'', ''b'', ''c''] r) ! 0)))
    (round_robin_rounds [''a'', ''b'', ''c''])) = 1"
  by (rule tournament_sends_once) simp_all

text \<open>In a mesh every host gets its own name and index and one target for each other host, in
  host order, with that host's name and index; never itself.\<close>

theorem mesh_complete:
  assumes "length hosts \<le> 2 ^ 32" "i < length hosts"
  shows "self_name (assignments_mesh hosts ! i) = hosts ! i
    \<and> unat (self_id (assignments_mesh hosts ! i)) = i
    \<and> map (unat \<circ> tgt_id) (targets (assignments_mesh hosts ! i)) = filter (\<lambda>j. j \<noteq> i) [0..<length hosts]
    \<and> map tgt_name (targets (assignments_mesh hosts ! i)) = map ((!) hosts) (filter (\<lambda>j. j \<noteq> i) [0..<length hosts])"
proof -
  have enum: "List.enumerate 0 hosts = map (\<lambda>j. (j, hosts ! j)) [0..<length hosts]"
    by (rule nth_equalityI) (simp_all add: nth_enumerate_eq)
  have "map (unat \<circ> (\<lambda>j. of_nat j :: u32)) js = js" if "set js \<subseteq> {..<length hosts}" for js
    using that assms(1) by (intro map_idI) (auto simp: unat_of_nat_small)
  then show ?thesis
    using assms by (simp add: assignments_mesh_def enum filter_map comp_def unat_of_nat_small subset_iff)
qed

theorem mesh_complete_witness:
  "self_name (assignments_mesh [''a'', ''b'', ''c''] ! 1) = ''b''
    \<and> unat (self_id (assignments_mesh [''a'', ''b'', ''c''] ! 1)) = 1
    \<and> map tgt_name (targets (assignments_mesh [''a'', ''b'', ''c''] ! 1)) = [''a'', ''c'']"
  using mesh_complete [of "[''a'', ''b'', ''c'']" 1] by (simp add: upt_rec)

text \<open>The order of the rounds for four hosts (the README lists them in the opposite order).\<close>

lemma schedule_of_four:
  "round_robin_rounds [''1'', ''2'', ''3'', ''4''] =
     [[(''1'', ''4''), (''2'', ''3'')], [(''1'', ''3''), (''4'', ''2'')], [(''1'', ''2''), (''3'', ''4'')]]"
  by code_simp

end
