(* ===== verification/Db.thy ===== *)
theory Db
  imports Config Metrics
begin

text \<open>
  \<open>src/src/db.rs\<close>: the database file of a run. \<open>Db::create\<close> checks the name, removes an older file and
  starts a thread that stores the windows it receives over a channel, in order, until it is told to
  shut down. The file system, JSON and SQLite are parameters: what removing a path gives, the text of
  a value, and for SQLite that an inserted row is stored as it is unless a column that must not be NULL
  is NULL, as which SQLite stores NaN.
\<close>

section \<open>The files of a database\<close>

definition sidecar :: "string \<Rightarrow> string \<Rightarrow> string" where
  "sidecar path ending = path @ ending"

datatype removal = Removed | Not_found | Removal_failed

text \<open>The first failure ends the removal; the paths before it are gone.\<close>

fun remove_files :: "(string \<Rightarrow> removal) \<Rightarrow> string list \<Rightarrow> string + unit" where
  "remove_files remove_file [] = Inr ()"
| "remove_files remove_file (p # ps) =
     (case remove_file p of
        Removed \<Rightarrow> remove_files remove_file ps
      | Not_found \<Rightarrow> remove_files remove_file ps
      | Removal_failed \<Rightarrow> Inl p)"

definition remove_db_files :: "(string \<Rightarrow> removal) \<Rightarrow> string \<Rightarrow> string + unit" where
  "remove_db_files remove_file path = remove_files remove_file [path, sidecar path ''-wal'', sidecar path ''-shm'']"

text \<open>\<open>Path::file_name\<close> and \<open>Path::extension\<close>: the last component that is neither empty nor \<open>.\<close>, unless it
  is \<open>..\<close>; the part after its last dot, unless that dot is its first character.\<close>

definition file_name :: "string \<Rightarrow> string option" where
  "file_name path =
     (case rev (filter (\<lambda>c. c \<noteq> [] \<and> c \<noteq> ''.'') (split_char (CHR ''/'') path)) of
        [] \<Rightarrow> None
      | c # _ \<Rightarrow> if c = ''..'' then None else Some c)"

definition path_extension :: "string \<Rightarrow> string option" where
  "path_extension path =
     Option.bind (file_name path) (\<lambda>name.
       case rsplit_once (CHR ''.'') name of
         None \<Rightarrow> None
       | Some (before, after) \<Rightarrow> if before = [] then None else Some after)"

section \<open>Rows\<close>

record metric_row =
  mr_tag :: string
  mr_server :: string
  mr_wall_start_ns :: int
  mr_wall_end_ns :: int
  mr_duration_ns :: int
  mr_bytes_sent :: int
  mr_bytes_recv :: int
  mr_send_bps :: f64
  mr_recv_bps :: f64
  mr_packets_sent :: int
  mr_packets_recv :: int
  mr_packets_dropped :: int
  mr_cpu_pct :: f64
  mr_memory_bytes :: int
  mr_peers_json :: string

record config_row =
  cr_tag :: string
  cr_json :: string
  cr_hostlist :: string
  cr_hostlist_raw :: string
  cr_saved_at_ns :: int

text \<open>\<open>u64 as i64\<close> keeps the bits.\<close>

definition as_i64 :: "u64 \<Rightarrow> int" where "as_i64 w = sint w"
definition as_u64 :: "int \<Rightarrow> u64" where "as_u64 i = word_of_int i"

definition stored_real :: "f64 \<Rightarrow> f64 option" where
  "stored_real x = (if x = NaN then None else Some x)"

definition insert_metric ::
  "(peer_metrics list \<Rightarrow> string option) \<Rightarrow> string \<Rightarrow> metric_window \<Rightarrow> metric_row list \<Rightarrow> metric_row list option" where
  "insert_metric peers_to_json tg w rows =
     Option.bind (peers_to_json (mw_peers w)) (\<lambda>peers.
     Option.bind (stored_real (mw_send_bps w)) (\<lambda>send_bps.
     Option.bind (stored_real (mw_recv_bps w)) (\<lambda>recv_bps.
     Option.bind (stored_real (mw_cpu_pct w)) (\<lambda>cpu.
       Some (rows @ [\<lparr>mr_tag = tg, mr_server = mw_server w, mr_wall_start_ns = as_i64 (mw_wall_start_ns w),
         mr_wall_end_ns = as_i64 (mw_wall_end_ns w), mr_duration_ns = as_i64 (mw_duration_ns w),
         mr_bytes_sent = as_i64 (mw_bytes_sent w), mr_bytes_recv = as_i64 (mw_bytes_recv w), mr_send_bps = send_bps,
         mr_recv_bps = recv_bps, mr_packets_sent = as_i64 (mw_packets_sent w),
         mr_packets_recv = as_i64 (mw_packets_recv w), mr_packets_dropped = as_i64 (mw_packets_dropped w),
         mr_cpu_pct = cpu, mr_memory_bytes = as_i64 (mw_memory_bytes w), mr_peers_json = peers\<rparr>])))))"

section \<open>The writer thread\<close>

datatype event = Metric metric_window | Shutdown

record db =
  db_config :: config_row
  db_metrics :: "metric_row list"

datatype thread_state = Receiving | Returned "string + unit"

text \<open>One received event. A failed insertion ends the thread with an error.\<close>

definition thread_step ::
  "(peer_metrics list \<Rightarrow> string option) \<Rightarrow> string \<Rightarrow> event \<Rightarrow> thread_state \<times> db \<Rightarrow> thread_state \<times> db" where
  "thread_step peers_to_json tg ev st =
     (case st of
        (Returned r, d) \<Rightarrow> (Returned r, d)
      | (Receiving, d) \<Rightarrow>
          (case ev of
             Metric w \<Rightarrow>
               (case insert_metric peers_to_json tg w (db_metrics d) of
                  None \<Rightarrow> (Returned (Inl ''insert''), d)
                | Some rows \<Rightarrow> (Receiving, d\<lparr>db_metrics := rows\<rparr>))
           | Shutdown \<Rightarrow> (Returned (Inr ()), d)))"

definition run_thread ::
  "(peer_metrics list \<Rightarrow> string option) \<Rightarrow> string \<Rightarrow> event list \<Rightarrow> thread_state \<times> db \<Rightarrow> thread_state \<times> db" where
  "run_thread peers_to_json tg evs st = fold (thread_step peers_to_json tg) evs st"

text \<open>\<open>DbHandle::insert\<close> and \<open>Db::shutdown\<close> on the events sent so far: the channel keeps their order, sending to
  a thread that has ended is no error, and the result of the thread is that of the shutdown. The thread
  does not panic.\<close>

definition db_insert :: "metric_window \<Rightarrow> event list \<Rightarrow> event list" where
  "db_insert w sent = sent @ [Metric w]"

definition db_shutdown ::
  "(peer_metrics list \<Rightarrow> string option) \<Rightarrow> string \<Rightarrow> event list \<Rightarrow> db \<Rightarrow> (string + unit) \<times> db" where
  "db_shutdown peers_to_json tg sent d =
     (case run_thread peers_to_json tg (sent @ [Shutdown]) (Receiving, d) of
        (Returned r, d) \<Rightarrow> (r, d)
      | (Receiving, d) \<Rightarrow> (Inr (), d))"

section \<open>Creating the database\<close>

datatype db_error = Not_a_db_path string | Cannot_remove string | Cannot_serialize

text \<open>The texts of the configuration are computed before the thread starts; the new database holds one
  configuration row.\<close>

record json =
  js_config :: "config \<Rightarrow> string option"
  js_strings :: "string list \<Rightarrow> string option"
  js_peers :: "peer_metrics list \<Rightarrow> string option"

definition db_create :: "json \<Rightarrow> (string \<Rightarrow> removal) \<Rightarrow> u64 \<Rightarrow> string \<Rightarrow> config \<Rightarrow> db_error + db" where
  "db_create js remove_file now path cfg =
     (if path_extension path \<noteq> Some ''db'' then Inl (Not_a_db_path path)
      else case remove_db_files remove_file path of Inl p \<Rightarrow> Inl (Cannot_remove p)
      | Inr _ \<Rightarrow>
        (case (js_config js cfg, js_strings js (hostlist cfg), js_strings js (hostlist_raw cfg)) of
           (Some cfg_json, Some hosts_json, Some raw_json) \<Rightarrow>
             Inr \<lparr>db_config = \<lparr>cr_tag = tag cfg, cr_json = cfg_json, cr_hostlist = hosts_json, cr_hostlist_raw = raw_json,
                    cr_saved_at_ns = as_i64 now\<rparr>, db_metrics = []\<rparr>
         | _ \<Rightarrow> Inl Cannot_serialize))"

section \<open>Facts\<close>

lemma as_u64_as_i64 [simp]: "as_u64 (as_i64 w) = w"
  by (simp add: as_u64_def as_i64_def)

lemma remove_files_Inr: "remove_files rm ps = Inr () \<longleftrightarrow> (\<forall>p\<in>set ps. rm p \<noteq> Removal_failed)"
  by (induction ps) (auto split: removal.split)

definition storable :: "(peer_metrics list \<Rightarrow> string option) \<Rightarrow> metric_window \<Rightarrow> bool" where
  "storable peers_to_json w \<longleftrightarrow>
     peers_to_json (mw_peers w) \<noteq> None \<and> NaN \<notin> {mw_send_bps w, mw_recv_bps w, mw_cpu_pct w}"

definition row_of :: "(peer_metrics list \<Rightarrow> string option) \<Rightarrow> string \<Rightarrow> metric_window \<Rightarrow> metric_row" where
  "row_of peers_to_json tg w = last (the (insert_metric peers_to_json tg w []))"

lemma insert_metric_storable:
  "storable js w \<Longrightarrow> insert_metric js tg w rows = Some (rows @ [row_of js tg w])"
  by (auto simp: storable_def insert_metric_def row_of_def stored_real_def)

lemma run_thread_Metrics:
  assumes "\<forall>w\<in>set ws. storable js w"
  shows "run_thread js tg (map Metric ws) (Receiving, d) = (Receiving, d\<lparr>db_metrics := db_metrics d @ map (row_of js tg) ws\<rparr>)"
  using assms unfolding run_thread_def
  by (induction ws arbitrary: d) (simp_all add: thread_step_def insert_metric_storable)

lemma run_thread_Returned: "run_thread js tg evs (Returned r, d) = (Returned r, d)"
  unfolding run_thread_def by (induction evs) (simp_all add: thread_step_def)

lemma run_thread_append: "run_thread js tg (evs @ evs') st = run_thread js tg evs' (run_thread js tg evs st)"
  by (simp add: run_thread_def)

lemma run_thread_shutdown:
  assumes "\<forall>w\<in>set ws. storable js w"
  shows "run_thread js tg (map Metric ws @ Shutdown # late) (Receiving, d)
    = (Returned (Inr ()), d\<lparr>db_metrics := db_metrics d @ map (row_of js tg) ws\<rparr>)"
proof -
  have "run_thread js tg (Shutdown # late) (Receiving, d') = (Returned (Inr ()), d')" for d'
    using run_thread_Returned [of js tg late "Inr ()" d'] by (simp add: run_thread_def thread_step_def)
  then show ?thesis by (simp add: run_thread_append run_thread_Metrics [OF assms])
qed

lemma insert_metric_eq:
  "insert_metric js tg w rows = (if storable js w then Some (rows @ [row_of js tg w]) else None)"
  by (cases "storable js w") (auto simp: insert_metric_storable, auto simp: storable_def insert_metric_def stored_real_def)

lemma run_thread_ok:
  "run_thread js tg (map Metric ws @ [Shutdown]) (Receiving, d) = (Returned (Inr ()), d') \<longleftrightarrow>
    (\<forall>w\<in>set ws. storable js w) \<and> d' = d\<lparr>db_metrics := db_metrics d @ map (row_of js tg) ws\<rparr>"
proof (induction ws arbitrary: d)
  case Nil
  then show ?case by (auto simp: run_thread_def thread_step_def)
next
  case (Cons w ws)
  have "run_thread js tg (map Metric (w # ws) @ [Shutdown]) (Receiving, d)
      = run_thread js tg (map Metric ws @ [Shutdown]) (thread_step js tg (Metric w) (Receiving, d))"
    by (simp add: run_thread_def)
  then show ?case using Cons by (auto simp: thread_step_def insert_metric_eq run_thread_Returned)
qed

lemma db_shutdown_ok:
  "db_shutdown js tg (map Metric ws) d = (Inr (), d') \<longleftrightarrow>
    (\<forall>w\<in>set ws. storable js w) \<and> d' = d\<lparr>db_metrics := db_metrics d @ map (row_of js tg) ws\<rparr>"
proof -
  have "fst (run_thread js tg (evs @ [Shutdown]) st) \<noteq> Receiving" for evs st
    by (cases "run_thread js tg evs st") (simp add: run_thread_append, simp add: run_thread_def thread_step_def split: thread_state.split)
  then show ?thesis
    unfolding run_thread_ok [symmetric] db_shutdown_def
    by (auto split: prod.splits thread_state.splits) (metis fst_conv)
qed

text \<open>The path of a run has no directory part.\<close>

lemma file_name_plain:
  assumes "CHR ''/'' \<notin> set name" "name \<notin> {[], ''.'', ''..''}"
  shows "file_name name = Some name"
  using assms by (simp add: file_name_def split_char_absent)

lemma path_extension_db:
  assumes "CHR ''/'' \<notin> set stem"
  shows "path_extension (stem @ ''.db'') = Some ''db'' \<longleftrightarrow> stem \<noteq> []"
proof -
  have "stem @ ''.db'' \<notin> {[], ''.'', ''..''}" by (auto simp: append_eq_Cons_conv)
  then have "file_name (stem @ ''.db'') = Some (stem @ ''.db'')" using assms by (intro file_name_plain) simp_all
  moreover have "rsplit_once (CHR ''.'') (stem @ ''.db'') = Some (stem, ''db'')"
    by (simp add: rsplit_once_eq_Some)
  ultimately show ?thesis by (simp add: path_extension_def)
qed

lemma valid_tag_extension:
  assumes "validate cfg = Inr ()"
  shows "path_extension (db_path cfg) = Some ''db'' \<longleftrightarrow> tag cfg \<notin> {''.db'', ''.DB''}"
proof -
  have plain: "CHR ''/'' \<notin> set (tag cfg)" "tag cfg \<noteq> []" using assms by (simp_all add: validate_Inr plain_name_def)
  obtain stem where stem: "db_path cfg = stem @ ''.db''" "tag cfg = stem \<or> tag cfg = stem @ ''.db'' \<or> tag cfg = stem @ ''.DB''"
    unfolding db_path_def by (rule db_filename_cases)
  have "CHR ''/'' \<notin> set stem" using plain(1) stem(2) by auto
  moreover have "db_filename ''.db'' = ''.db''" "db_filename ''.DB'' = ''.db''" by code_simp+
  then have "stem = [] \<longleftrightarrow> tag cfg \<in> {''.db'', ''.DB''}" using stem plain(2) unfolding db_path_def by auto
  ultimately show ?thesis using path_extension_db [of stem] stem(1) by simp
qed

lemma remove_db_files_Inr:
  "remove_db_files rm path = Inr () \<longleftrightarrow> (\<forall>ending\<in>{[], ''-wal'', ''-shm''}. rm (path @ ending) \<noteq> Removal_failed)"
  by (simp add: remove_db_files_def remove_files_Inr sidecar_def del: remove_files.simps)

section \<open>Properties\<close>


definition sample_json :: json where
  "sample_json = \<lparr>js_config = (\<lambda>c. Some (tag c)), js_strings = (\<lambda>hs. Some (concat hs)), js_peers = (\<lambda>_. Some [])\<rparr>"


text \<open>All windows inserted before the shutdown are stored, in the order of their insertion, each once
  and after the rows already there, and the thread then ends without an error; what is sent after the
  shutdown is not stored.\<close>

theorem windows_stored_in_order:
  assumes "\<forall>w\<in>set ws. storable js w"
  shows "run_thread js tg (map Metric ws @ Shutdown # late) (Receiving, d)
    = (Returned (Inr ()), d\<lparr>db_metrics := db_metrics d @ map (row_of js tg) ws\<rparr>)"
  using run_thread_shutdown [OF assms] .

definition sample_window :: "u64 \<Rightarrow> metric_window" where
  "sample_window t = build_window ''a'' t (t + 1000000000) 1000000000 (snapshot atom_stats_default) [] [] (Fin 0) 0"

definition sample_db :: db where
  "sample_db = \<lparr>db_config = \<lparr>cr_tag = ''t'', cr_json = [], cr_hostlist = [], cr_hostlist_raw = [], cr_saved_at_ns = 0\<rparr>, db_metrics = []\<rparr>"

theorem windows_stored_in_order_witness:
  "map mr_wall_start_ns (db_metrics (snd (run_thread (\<lambda>_. Some []) ''t'' (map Metric [sample_window 5, sample_window 9] @ Shutdown # [Metric (sample_window 7)])
     (Receiving, sample_db)))) = [5, 9]"
proof -
  have "\<forall>w\<in>set [sample_window 5, sample_window 9]. storable (\<lambda>_. Some []) w"
    by (simp add: storable_def sample_window_def build_window_def bps_value)
  from windows_stored_in_order [OF this, of "''t''" "[Metric (sample_window 7)]" sample_db] show ?thesis
    by (simp add: sample_db_def row_of_def insert_metric_def sample_window_def build_window_def bps_value stored_real_def as_i64_def)
qed

end
