(* ===== verification/Format.thy ===== *)
theory Format
  imports Config Metrics
begin

text \<open>
  The text of rates and windows: \<open>fmt_bps\<close>, \<open>fmt_bytes\<close>, \<open>trunc_decimals\<close> and \<open>format_window\<close> of
  \<open>src/src/metrics.rs\<close>, over the parts of Rust's formatting they use: a fixed number of decimals,
  rounded to the nearest with ties to even, and padding to a width counted in characters.
\<close>

section \<open>Formatting\<close>

text \<open>Strings are UTF-8; a byte from 128 to 191 continues a character.\<close>

definition char_count :: "string \<Rightarrow> nat" where
  "char_count s = length (filter (\<lambda>c. of_char c \<notin> {128..191 :: nat}) s)"

definition pad_left :: "nat \<Rightarrow> string \<Rightarrow> string" where
  "pad_left w s = replicate (w - char_count s) (CHR '' '') @ s"

definition pad_right :: "nat \<Rightarrow> string \<Rightarrow> string" where
  "pad_right w s = s @ replicate (w - char_count s) (CHR '' '')"

text \<open>The digits of a number, at least \<open>k\<close> of them, and with a point before the last \<open>d\<close>.\<close>

definition digits_at_least :: "nat \<Rightarrow> nat \<Rightarrow> string" where
  "digits_at_least k n = replicate (k - length (show_nat n)) (CHR ''0'') @ show_nat n"

definition with_point :: "nat \<Rightarrow> string \<Rightarrow> string" where
  "with_point d ds =
     (if d = 0 then ds else take (length ds - d) ds @ CHR ''.'' # drop (length ds - d) ds)"

fun fmt_fixed :: "nat \<Rightarrow> f64 \<Rightarrow> string" where
  "fmt_fixed d (Fin x) =
     (if x < 0 then ''-'' else []) @ with_point d (digits_at_least (Suc d) (nat (rne (\<bar>x\<bar> * 10 ^ d))))"
| "fmt_fixed d PInf = ''inf''"
| "fmt_fixed d NInf = ''-inf''"
| "fmt_fixed d NaN = ''NaN''"

section \<open>Rates, sizes and windows\<close>

definition fmt_bps :: "f64 \<Rightarrow> string" where
  "fmt_bps b =
     (if fle (Fin 1000000000) b then pad_left 7 (fmt_fixed 3 (fdiv b (Fin 1000000000))) @ '' Gbps''
      else if fle (Fin 1000000) b then pad_left 7 (fmt_fixed 3 (fdiv b (Fin 1000000))) @ '' Mbps''
      else if fle (Fin 1000) b then pad_left 7 (fmt_fixed 3 (fdiv b (Fin 1000))) @ '' Kbps''
      else pad_left 7 (fmt_fixed 0 b) @ ''  bps'')"

definition fmt_bytes :: "u64 \<Rightarrow> string" where
  "fmt_bytes n =
     (let KIB = Fin 1024; v = f64_of_u64 n in
      if fle (fmul (fmul KIB KIB) KIB) v then fmt_fixed 2 (fdiv v (fmul (fmul KIB KIB) KIB)) @ '' GiB''
      else if fle (fmul KIB KIB) v then fmt_fixed 2 (fdiv v (fmul KIB KIB)) @ '' MiB''
      else if fle KIB v then fmt_fixed 2 (fdiv v KIB) @ '' KiB''
      else show_nat (unat n) @ '' B'')"

fun ftrunc :: "f64 \<Rightarrow> f64" where
  "ftrunc (Fin x) = Fin (of_int (if 0 \<le> x then \<lfloor>x\<rfloor> else \<lceil>x\<rceil>))"
| "ftrunc a = a"

text \<open>\<open>10f64.powi(n)\<close> is exact up to \<open>n = 22\<close>; the program uses 4.\<close>

definition trunc_decimals :: "f64 \<Rightarrow> nat \<Rightarrow> f64" where
  "trunc_decimals v n = (let f = rnd (10 ^ n) in fdiv (ftrunc (fmul v f)) f)"

definition format_window :: "metric_window \<Rightarrow> string" where
  "format_window w =
     (let window_s = trunc_decimals (fdiv (f64_of_u64 (mw_duration_ns w)) (Fin 1000000000)) 4;
          name = ''['' @ mw_server w @ '']''
      in pad_right 12 name @ '' window='' @ fmt_fixed 4 window_s @ ''s   send='' @ fmt_bps (mw_send_bps w)
         @ ''   recv='' @ fmt_bps (mw_recv_bps w) @ ''   drop='' @ pad_right 6 (show_nat (unat (mw_packets_dropped w)))
         @ '' pkts='' @ pad_right 18 (show_nat (unat (mw_packets_sent w)) @ ''/'' @ show_nat (unat (mw_packets_recv w)))
         @ '' cpu='' @ pad_left 5 (fmt_fixed 1 (mw_cpu_pct w)) @ ''%   rss='' @ fmt_bytes (mw_memory_bytes w))"

section \<open>Facts\<close>

definition newline :: char where "newline = CHR 0x0A"

lemma newline_literals [simp]:
  "newline \<noteq> CHR '' ''" "newline \<noteq> CHR ''.''" "newline \<noteq> CHR ''0''" "newline \<noteq> CHR ''-''" "CHR '' '' \<noteq> newline"
  "CHR ''.'' \<noteq> newline" "CHR ''0'' \<noteq> newline"
  by (simp_all add: newline_def)

lemma newline_digit [simp]: "d < 10 \<Longrightarrow> digit_char d \<noteq> newline"
  using lt_10_cases [of d] by (auto simp: digit_char_def newline_def)

lemma show_nat_no_newline [simp]: "newline \<notin> set (show_nat n)"
proof (induction n rule: show_nat.induct)
  case (1 n)
  then show ?case by (subst show_nat.simps) (auto dest: sym)
qed

lemma pad_no_newline [simp]:
  "newline \<in> set (pad_left w s) \<longleftrightarrow> newline \<in> set s" "newline \<in> set (pad_right w s) \<longleftrightarrow> newline \<in> set s"
  by (auto simp: pad_left_def pad_right_def)

lemma set_with_point: "set (with_point d ds) \<subseteq> insert (CHR ''.'') (set ds)"
  by (auto simp: with_point_def dest: in_set_takeD in_set_dropD)

lemma fmt_fixed_no_newline [simp]: "newline \<notin> set (fmt_fixed d x)"
proof (cases x)
  case (Fin r)
  have "newline \<notin> set (digits_at_least k n)" for k n by (simp add: digits_at_least_def)
  then show ?thesis using Fin set_with_point by fastforce
qed (simp_all add: newline_def)

lemma fmt_bps_no_newline [simp]: "newline \<notin> set (fmt_bps b)"
  by (simp add: fmt_bps_def) (simp add: newline_def)

lemma fmt_bytes_no_newline [simp]: "newline \<notin> set (fmt_bytes n)"
  by (simp add: fmt_bytes_def Let_def) (simp add: newline_def)

text \<open>The digits shown are the nearest ones.\<close>

lemma filter_with_point:
  assumes "CHR ''.'' \<notin> set ds"
  shows "filter (\<lambda>c. c \<noteq> CHR ''.'') (with_point d ds) = ds"
proof -
  have "filter (\<lambda>c. c \<noteq> CHR ''.'') (take n ds) = take n ds" "filter (\<lambda>c. c \<noteq> CHR ''.'') (drop n ds) = drop n ds" for n
    using assms by (auto simp: filter_id_conv dest: in_set_takeD in_set_dropD)
  then show ?thesis using assms by (auto simp: with_point_def filter_id_conv)
qed

lemma show_nat_no_point: "CHR ''.'' \<notin> set (show_nat n)"
proof (induction n rule: show_nat.induct)
  case (1 n)
  have "digit_char d \<noteq> CHR ''.''" if "d < 10" for d using lt_10_cases [OF that] by (auto simp: digit_char_def)
  then show ?case using 1 by (subst show_nat.simps) (auto dest: sym)
qed

lemma digits_value_zeros: "digits_value (replicate k (CHR ''0'') @ ds) = digits_value ds"
  by (induction k) (simp_all add: digits_value_def from_base_def)

lemma fmt_fixed_digits:
  assumes "0 \<le> x"
  shows "digits_value (filter (\<lambda>c. c \<noteq> CHR ''.'') (fmt_fixed d (Fin x))) = nat (rne (x * 10 ^ d))"
proof -
  have "CHR ''.'' \<notin> set (digits_at_least k n)" for k n by (simp add: digits_at_least_def show_nat_no_point)
  then show ?thesis using assms by (simp add: filter_with_point digits_at_least_def digits_value_zeros)
qed

text \<open>The unit a rate is shown in: its factor, the decimals and the label.\<close>

definition rate_unit :: "rat \<Rightarrow> rat \<times> nat \<times> string" where
  "rate_unit x =
     (if 1000000000 \<le> x then (1000000000, 3, '' Gbps'') else if 1000000 \<le> x then (1000000, 3, '' Mbps'')
      else if 1000 \<le> x then (1000, 3, '' Kbps'') else (1, 0, ''  bps''))"

lemma fmt_bps_unit:
  assumes "rate_unit x = (u, d, label)"
  shows "fmt_bps (Fin x) = pad_left 7 (fmt_fixed d (if d = 0 then Fin x else fdiv (Fin x) (Fin u))) @ label"
  using assms by (auto simp: rate_unit_def fmt_bps_def fle_def order_le_less split: if_splits)

text \<open>A value divided by its unit, rounded to a float and then to the decimals.\<close>

lemma shown_error:
  assumes "u \<le> x" "0 < u" "\<bar>v - x / u\<bar> \<le> x / u * e"
  shows "\<bar>of_int (rne (v * 10 ^ d)) / 10 ^ d * u - x\<bar> \<le> u / (2 * 10 ^ d) + x * e"
proof -
  let ?n = "of_int (rne (v * 10 ^ d)) :: rat"
  have "?n / 10 ^ d - v = (?n - v * 10 ^ d) / 10 ^ d" by (simp add: field_simps)
  then have "\<bar>?n / 10 ^ d - v\<bar> = \<bar>?n - v * 10 ^ d\<bar> / 10 ^ d" by simp
  also have "\<dots> \<le> (1 / 2) / 10 ^ d" by (intro divide_right_mono rne_error) simp
  finally have "\<bar>?n / 10 ^ d - v\<bar> \<le> 1 / (2 * 10 ^ d)" by simp
  then have "\<bar>?n / 10 ^ d - x / u\<bar> \<le> 1 / (2 * 10 ^ d) + x / u * e" using assms(3) by linarith
  then have "\<bar>?n / 10 ^ d - x / u\<bar> * u \<le> (1 / (2 * 10 ^ d) + x / u * e) * u" using assms(2) by (intro mult_right_mono) auto
  moreover have "\<bar>?n / 10 ^ d - x / u\<bar> * u = \<bar>?n / 10 ^ d * u - x\<bar>"
    using assms(2) by (simp add: abs_mult_pos' algebra_simps flip: abs_mult_pos)
  moreover have "(1 / (2 * 10 ^ d) + x / u * e) * u = u / (2 * 10 ^ d) + x * e" using assms(2) by (simp add: field_simps)
  ultimately show ?thesis by simp
qed

section \<open>Properties\<close>

text \<open>The report of a window is a single line, whatever its numbers, NaN and infinities included.\<close>

theorem window_report_one_line:
  assumes "newline \<notin> set (mw_server w)"
  shows "newline \<notin> set (format_window w)"
  using assms by (simp add: format_window_def Let_def) (simp add: newline_def)

theorem window_report_one_line_witness:
  "newline \<notin> set (format_window (build_window ''srv1'' 0 0 97927043 (snapshot atom_stats_default) [] [] (Fin 0) 0))"
  by (rule window_report_one_line) (simp add: build_window_def newline_def)

text \<open>C39: a printed rate is accurate: in the unit chosen, the digits shown differ from the rate by at most
  half a last digit, plus the rounding of one division.\<close>

theorem printed_rate_accurate:
  assumes "0 \<le> x" "x \<le> pow2 1023"
  shows "\<exists>u d label t n. rate_unit x = (u, d, label) \<and> fmt_bps (Fin x) = pad_left 7 t @ label
    \<and> n = digits_value (filter (\<lambda>c. c \<noteq> CHR ''.'') t)
    \<and> \<bar>of_nat n / 10 ^ d * u - x\<bar> \<le> u / (2 * 10 ^ d) + x * unit_roundoff"
proof -
  obtain u d label where u: "rate_unit x = (u, d, label)" by (rule prod_cases3)
  then have cases: "d = 0 \<and> u = 1 \<or> d = 3 \<and> 1000 \<le> u \<and> u \<le> x"
    by (auto simp: rate_unit_def split: if_splits)
  let ?v = "if d = 0 then x else rval (x / u)" and ?t = "fmt_fixed d (if d = 0 then Fin x else fdiv (Fin x) (Fin u))"
  have v: "?t = fmt_fixed d (Fin ?v) \<and> 0 \<le> ?v"
  proof (cases "d = 0")
    case False
    then have "1 \<le> u" "u \<le> x" using cases by auto
    then have "0 \<le> x / u" "x / u \<le> x" using assms(1) by (simp_all add: divide_le_eq mult_left_mono)
    then show ?thesis using False \<open>1 \<le> u\<close> assms(2) by (simp add: rnd_finite b64.nonneg)
  qed (use assms in simp)
  let ?n = "digits_value (filter (\<lambda>c. c \<noteq> CHR ''.'') ?t)"
  have "?n = nat (rne (?v * 10 ^ d))" using v fmt_fixed_digits [of ?v d] by presburger
  moreover have "0 \<le> rne (?v * 10 ^ d)" using rne_mono [of 0 "?v * 10 ^ d"] rne_of_int [of 0] v by simp
  ultimately have n: "(of_nat ?n :: rat) = of_int (rne (?v * 10 ^ d))" by (simp only: of_nat_nat)
  have "\<bar>of_int (rne (?v * 10 ^ d)) / 10 ^ d * u - x\<bar> \<le> u / (2 * 10 ^ d) + x * unit_roundoff"
  proof (cases "d = 0")
    case True
    have "0 \<le> x * unit_roundoff" using assms(1) b64.unit by simp
    then show ?thesis using True cases rne_error [of x] by simp
  next
    case False
    then have "0 < u" "u \<le> x" using cases by auto
    then have "1 \<le> x / u" by (simp add: le_divide_eq)
    then have "\<bar>rval (x / u) - x / u\<bar> \<le> x / u * unit_roundoff" by (intro b64.rel_error min_normal_le_1)
    then show ?thesis using shown_error [OF \<open>u \<le> x\<close> \<open>0 < u\<close>] False by simp
  qed
  then have "\<bar>of_nat ?n / 10 ^ d * u - x\<bar> \<le> u / (2 * 10 ^ d) + x * unit_roundoff" by (simp only: n)
  then show ?thesis using u fmt_bps_unit [OF u] by blast
qed

theorem printed_rate_accurate_witness:
  "\<exists>u d label t n. rate_unit 41134000000 = (u, d, label) \<and> fmt_bps (Fin 41134000000) = pad_left 7 t @ label
    \<and> n = digits_value (filter (\<lambda>c. c \<noteq> CHR ''.'') t)
    \<and> \<bar>of_nat n / 10 ^ d * u - 41134000000\<bar> \<le> u / (2 * 10 ^ d) + 41134000000 * unit_roundoff"
  by (rule printed_rate_accurate) (simp_all add: order_trans [OF _ pow2_mono [of 64 1023]])

end
