(* ===== verification/Client.thy ===== *)
theory Client
  imports Testplan Dataplane Db Format
begin

text \<open>
  \<open>src/src/client.rs\<close>: the client resolves and connects to every host, sends each its assignment (once for a
  mesh, once per round for pairs), pumps the servers' messages into the database until it is
  cancelled, and then stops every server. Sockets are the writers of theory Proto, a cancelled token
  and the clock are given per turn, and \<open>None\<close> is a panic or, where it says so, a loop still waiting.
\<close>

section \<open>Sending the assignments\<close>

type_synonym connections = "(string \<times> writer) list"

text \<open>From the \<open>i\<close>-th connection on; the first failure ends the loop. \<open>asg[i]\<close> panics out of range.\<close>

fun send_starts_from ::
  "(msg \<Rightarrow> byte list option) \<Rightarrow> config \<Rightarrow> assignment list \<Rightarrow> nat \<Rightarrow> connections
   \<Rightarrow> ((string \<times> frame_error + unit) \<times> connections) option" where
  "send_starts_from to_vec cfg asg i [] = Some (Inr (), [])"
| "send_starts_from to_vec cfg asg i ((host, wr) # ws) =
     (if length asg \<le> i then None
      else case write_frame to_vec (Start cfg (asg ! i)) wr of
        (Inl e, wr) \<Rightarrow> Some (Inl (host, e), (host, wr) # ws)
      | (Inr _, wr) \<Rightarrow> map_option (map_prod id ((#) (host, wr))) (send_starts_from to_vec cfg asg (Suc i) ws))"

definition send_starts ::
  "(msg \<Rightarrow> byte list option) \<Rightarrow> config \<Rightarrow> assignment list \<Rightarrow> connections
   \<Rightarrow> ((string \<times> frame_error + unit) \<times> connections) option" where
  "send_starts to_vec cfg asg ws = send_starts_from to_vec cfg asg 0 ws"

section \<open>Waiting for a round\<close>

definition ACK_DEADLINE_NS :: nat where "ACK_DEADLINE_NS = 15 * 1000000000"

text \<open>One turn of the waiting loop: the acknowledgements counted, the token, the nanoseconds since the
  start, and whether the sleep is interrupted by the token.\<close>

record ack_poll =
  ap_acks :: u64
  ap_cancelled :: bool
  ap_elapsed :: nat
  ap_interrupted :: bool

datatype ack_wait = All_acked | Acks_missing u64 | Wait_cancelled

fun await_acks :: "u64 \<Rightarrow> ack_poll list \<Rightarrow> ack_wait option" where
  "await_acks need [] = None"
| "await_acks need (p # ps) =
     (if \<not> ap_acks p < need then Some All_acked
      else if ap_cancelled p then Some Wait_cancelled
      else if ACK_DEADLINE_NS \<le> ap_elapsed p then Some (Acks_missing (ap_acks p))
      else if ap_interrupted p then Some Wait_cancelled
      else await_acks need ps)"

text \<open>The nanoseconds of traffic that follow (until the token is cancelled); none after a cancelled wait.\<close>

definition TRAFFIC_NS :: nat where "TRAFFIC_NS = 1100 * 1000000"

definition wait_round :: "u64 \<Rightarrow> ack_poll list \<Rightarrow> nat option" where
  "wait_round need ps = map_option (\<lambda>r. if r = Wait_cancelled then 0 else TRAFFIC_NS) (await_acks need ps)"

section \<open>The rounds of the pairs test\<close>

text \<open>A turn: whether the token is cancelled at its start, and the polls of its wait. With no round left, a
  turn is the head of the \<open>while\<close> loop; otherwise it is one iteration of the \<open>for\<close> loop. A cancelled
  \<open>for\<close> loop ends the \<open>while\<close> loop too: a token stays cancelled.\<close>

record round_turn =
  tn_cancelled :: bool
  tn_polls :: "ack_poll list"

datatype rounds_state = Playing "(string \<times> string) list list" | Waiting_round "(string \<times> string) list list"
  | Rounds_cancelled | Start_failed string frame_error | Panicked

definition round_assignments :: "config \<Rightarrow> socket_addr list \<Rightarrow> (string \<times> string) list \<Rightarrow> assignment list option" where
  "round_assignments cfg resolved pairs =
     Option.bind (assignments_for_pairs (hostlist cfg) pairs) (\<lambda>asg. fill_resolved asg resolved)"

definition play_round ::
  "(msg \<Rightarrow> byte list option) \<Rightarrow> config \<Rightarrow> socket_addr list \<Rightarrow> (string \<times> string) list \<Rightarrow> (string \<times> string) list list
   \<Rightarrow> ack_poll list \<Rightarrow> connections \<Rightarrow> rounds_state \<times> connections" where
  "play_round to_vec cfg resolved pairs rest polls ws =
     (case Option.bind (round_assignments cfg resolved pairs) (\<lambda>asg. send_starts to_vec cfg asg ws) of
        None \<Rightarrow> (Panicked, ws)
      | Some (Inl (host, e), ws) \<Rightarrow> (Start_failed host e, ws)
      | Some (Inr _, ws) \<Rightarrow>
          (case wait_round (of_nat (length ws)) polls of None \<Rightarrow> (Waiting_round rest, ws) | Some _ \<Rightarrow> (Playing rest, ws)))"

definition rounds_turn ::
  "(msg \<Rightarrow> byte list option) \<Rightarrow> config \<Rightarrow> socket_addr list \<Rightarrow> round_turn \<Rightarrow> rounds_state \<times> connections
   \<Rightarrow> rounds_state \<times> connections" where
  "rounds_turn to_vec cfg resolved t st =
     (case st of
        (Playing left, ws) \<Rightarrow>
          if tn_cancelled t then (Rounds_cancelled, ws)
          else (case left of
              [] \<Rightarrow> (Playing (round_robin_rounds (hostlist cfg)), ws)
            | pairs # rest \<Rightarrow> play_round to_vec cfg resolved pairs rest (tn_polls t) ws)
      | _ \<Rightarrow> st)"

definition run_pair_rounds ::
  "(msg \<Rightarrow> byte list option) \<Rightarrow> config \<Rightarrow> socket_addr list \<Rightarrow> round_turn list \<Rightarrow> connections \<Rightarrow> rounds_state \<times> connections" where
  "run_pair_rounds to_vec cfg resolved turns ws = fold (rounds_turn to_vec cfg resolved) turns (Playing [], ws)"

section \<open>The mesh test and the end of a run\<close>

definition start_mesh ::
  "(msg \<Rightarrow> byte list option) \<Rightarrow> config \<Rightarrow> socket_addr list \<Rightarrow> connections \<Rightarrow> ((string \<times> frame_error + unit) \<times> connections) option" where
  "start_mesh to_vec cfg resolved ws =
     Option.bind (fill_resolved (assignments_mesh (hostlist cfg)) resolved) (\<lambda>asg. send_starts to_vec cfg asg ws)"

text \<open>A Stop to every server; a failure is only reported.\<close>

definition stop_all :: "(msg \<Rightarrow> byte list option) \<Rightarrow> connections \<Rightarrow> connections" where
  "stop_all to_vec ws = map (\<lambda>(host, wr). (host, snd (write_frame to_vec Stop wr))) ws"

section \<open>The messages of a server\<close>

datatype pump_status = Pumping | Pump_done | Pump_failed string

text \<open>The events the pump sends to the database, the lines it prints, and the acknowledgements it adds to the
  shared counter.\<close>

record pump =
  pu_got_start :: bool
  pu_acks :: nat
  pu_windows :: "metric_window list"
  pu_lines :: "string list"
  pu_status :: pump_status

definition pump_new :: pump where
  "pump_new = \<lparr>pu_got_start = False, pu_acks = 0, pu_windows = [], pu_lines = [], pu_status = Pumping\<rparr>"

definition pump_step :: "frame_error + msg \<Rightarrow> pump \<Rightarrow> pump" where
  "pump_step item p =
     (if pu_status p \<noteq> Pumping then p
      else case item of
        Inl _ \<Rightarrow> p\<lparr>pu_status := Pump_done\<rparr>
      | Inr (Ack cmd) \<Rightarrow>
          if cmd = ''start'' then p\<lparr>pu_got_start := True, pu_acks := pu_acks p + 1\<rparr>
          else if cmd = ''stop'' then p\<lparr>pu_status := Pump_done\<rparr>
          else p
      | Inr (Metrics w) \<Rightarrow> p\<lparr>pu_lines := pu_lines p @ [format_window w], pu_windows := pu_windows p @ [w]\<rparr>
      | Inr (Error message) \<Rightarrow> if \<not> pu_got_start p then p\<lparr>pu_status := Pump_failed message\<rparr> else p
      | Inr _ \<Rightarrow> p)"

definition pump_server :: "(frame_error + msg) list \<Rightarrow> pump" where
  "pump_server items = fold pump_step items pump_new"

section \<open>A run\<close>

datatype client_error =
    Db_error db_error
  | Bad_control_port net_error
  | Bad_test_port net_error
  | Resolve_failed string net_error
  | Connect_failed_to string net_error
  | Send_failed string frame_error
  | Db_thread_failed string

text \<open>The outcome of each host in turn, up to the first error; \<open>None\<close> is a retry loop still waiting.\<close>

fun each_host ::
  "(string \<Rightarrow> (net_error + 'a) option) \<Rightarrow> (string \<Rightarrow> net_error \<Rightarrow> client_error) \<Rightarrow> string list \<Rightarrow> (client_error + 'a list) option" where
  "each_host f err [] = Some (Inr [])"
| "each_host f err (h # hs) =
     (case f h of
        None \<Rightarrow> None
      | Some (Inl e) \<Rightarrow> Some (Inl (err h e))
      | Some (Inr x) \<Rightarrow> map_option (map_sum id ((#) x)) (each_host f err hs))"

record client_env =
  ce_json :: json
  ce_remove :: "string \<Rightarrow> removal"
  ce_now :: u64
  ce_net :: "string \<Rightarrow> net_env"
  ce_connect :: "nat \<Rightarrow> string \<Rightarrow> writer option"

definition RESOLVE_DEADLINE :: nat where "RESOLVE_DEADLINE = millis 15000"

text \<open>Everything before the first Start.\<close>

definition client_setup ::
  "client_env \<Rightarrow> config \<Rightarrow> (client_error + db \<times> socket_addr list \<times> connections) option" where
  "client_setup env cfg =
     (case db_create (ce_json env) (ce_remove env) (ce_now env) (db_path cfg) cfg of
        Inl e \<Rightarrow> Some (Inl (Db_error e))
      | Inr d \<Rightarrow>
        (case control_port cfg of Inl e \<Rightarrow> Some (Inl (Bad_control_port e)) | Inr port \<Rightarrow>
        (case test_port cfg of Inl e \<Rightarrow> Some (Inl (Bad_test_port e)) | Inr tport \<Rightarrow>
        (case test_family cfg of Inl e \<Rightarrow> Some (Inl (Bad_test_port e)) | Inr family \<Rightarrow>
        (case each_host (\<lambda>h. resolve_retry (ne_fuel (ce_net env h)) (ne_polls (ce_net env h)) (ne_dns (ce_net env h)) h tport family
                RESOLVE_DEADLINE) Resolve_failed (hostlist cfg) of
           None \<Rightarrow> None
         | Some (Inl e) \<Rightarrow> Some (Inl e)
         | Some (Inr resolved) \<Rightarrow>
             map_option (map_sum id (\<lambda>ws. (d, resolved, zip (hostlist cfg) ws)))
               (each_host (\<lambda>h. connect_tcp_retry (ne_fuel (ce_net env h)) (ne_polls (ce_net env h)) (ce_connect env) h port
                  CONNECT_DEADLINE) Connect_failed_to (hostlist cfg)))))))"

text \<open>The test itself, until it is cancelled; a mesh waits for the token with no further work. \<open>None\<close>: a
  panic, or still running.\<close>

definition client_test ::
  "(msg \<Rightarrow> byte list option) \<Rightarrow> config \<Rightarrow> socket_addr list \<Rightarrow> round_turn list \<Rightarrow> connections
   \<Rightarrow> ((client_error + unit) \<times> connections) option" where
  "client_test to_vec cfg resolved turns ws =
     (case cfg_type cfg of
        Mesh \<Rightarrow>
          (case start_mesh to_vec cfg resolved ws of
             None \<Rightarrow> None
           | Some (Inl (host, e), ws) \<Rightarrow> Some (Inl (Send_failed host e), ws)
           | Some (Inr _, ws) \<Rightarrow> if \<exists>t\<in>set turns. tn_cancelled t then Some (Inr (), ws) else None)
      | Pairs \<Rightarrow>
          (case run_pair_rounds to_vec cfg resolved turns ws of
             (Rounds_cancelled, ws) \<Rightarrow> Some (Inr (), ws)
           | (Start_failed host e, ws) \<Rightarrow> Some (Inl (Send_failed host e), ws)
           | _ \<Rightarrow> None))"

section \<open>Facts about sending\<close>

lemma write_frame_open_json:
  assumes "json_ok to_vec from_slice m" "room w = None"
  shows "write_frame to_vec m w = (Inr (), w\<lparr>written := written w @ wire_of to_vec [m]\<rparr>)"
proof -
  obtain r w' where w': "write_frame to_vec m w = (r, w')" by (rule prod.exhaust)
  have "r = Inr ()" "written w' = written w @ wire_of to_vec [m]" "room w' = None"
    using write_frame_json_ok [OF assms(1), of w] assms(2) w' by (auto simp: wire_of_def)
  then show ?thesis using w' assms(2) by simp
qed

lemma send_starts_open:
  assumes "\<forall>a\<in>set asg. json_ok to_vec from_slice (Start cfg a)" "\<forall>w\<in>set ws. room (snd w) = None" "length ws \<le> length asg"
  shows "send_starts to_vec cfg asg ws =
    Some (Inr (), map (\<lambda>((host, w), a). (host, w\<lparr>written := written w @ wire_of to_vec [Start cfg a]\<rparr>)) (zip ws asg))"
proof -
  have "send_starts_from to_vec cfg asg i ws =
      Some (Inr (), map (\<lambda>((host, w), a). (host, w\<lparr>written := written w @ wire_of to_vec [Start cfg a]\<rparr>)) (zip ws (drop i asg)))"
    if "i + length ws \<le> length asg" for i
    using assms(2) that
  proof (induction ws arbitrary: i)
    case (Cons w ws)
    then have i: "i < length asg" by simp
    then have "json_ok to_vec from_slice (Start cfg (asg ! i))" using assms(1) by simp
    then show ?case
      using Cons i by (cases w) (simp add: write_frame_open_json flip: Cons_nth_drop_Suc)
  qed simp
  from this [of 0] assms(3) show ?thesis by (simp add: send_starts_def)
qed

section \<open>Facts about the tournament\<close>

text \<open>The target for a host with its resolved address, and the assignment of a host in a round.\<close>

definition addressed_target :: "string list \<Rightarrow> socket_addr list \<Rightarrow> string \<Rightarrow> target" where
  "addressed_target hosts resolved name =
     (target_for hosts name)\<lparr>tgt_addr := show_sock (resolved ! unat (tgt_id (target_for hosts name)))\<rparr>"

definition host_assignment :: "string list \<Rightarrow> socket_addr list \<Rightarrow> (string \<times> string) list \<Rightarrow> nat \<Rightarrow> assignment" where
  "host_assignment hosts resolved r i =
     \<lparr>self_name = hosts ! i, self_id = of_nat i, asg_bind = show_sock (resolved ! i),
      targets = map (addressed_target hosts resolved) (partners (hosts ! i) r)\<rparr>"

lemma round_assignments_eq:
  assumes "distinct (hostlist cfg)" "length (hostlist cfg) \<le> 2 ^ 32" "length resolved = length (hostlist cfg)"
    "r \<in> set (round_robin_rounds (hostlist cfg))"
  shows "round_assignments cfg resolved r = Some (map (host_assignment (hostlist cfg) resolved r) [0..<length (hostlist cfg)])"
proof -
  let ?hosts = "hostlist cfg"
  let ?asg = "map (\<lambda>i. \<lparr>self_name = ?hosts ! i, self_id = of_nat i, asg_bind = [],
                   targets = map (target_for ?hosts) (partners (?hosts ! i) r)\<rparr>) [0..<length ?hosts]"
  have asg: "assignments_for_pairs ?hosts r = Some ?asg"
    using rr.disjoint [OF assms(1,4)] by (intro assignments_for_pairs_eq assms(1)) blast
  have ids: "unat (tgt_id (target_for ?hosts n)) < length ?hosts" if "n \<in> set (partners h r)" for n h
    using that rr.partner_in_hosts [OF assms(1,4)] assms(1,2) target_for_id by blast
  have "\<forall>a\<in>set ?asg. unat (self_id a) < length resolved \<and> (\<forall>t\<in>set (targets a). unat (tgt_id t) < length resolved)"
    using ids assms(2,3) by (auto simp: unat_of_nat_small)
  from fill_resolved_eq [OF this] asg show ?thesis
    using assms(2) by (simp add: round_assignments_def host_assignment_def addressed_target_def unat_of_nat_small)
qed

text \<open>The connections after some rounds, to servers that took everything.\<close>

definition conns_after ::
  "(msg \<Rightarrow> byte list option) \<Rightarrow> config \<Rightarrow> socket_addr list \<Rightarrow> (string \<times> string) list list \<Rightarrow> connections" where
  "conns_after to_vec cfg resolved rs =
     map (\<lambda>i. (hostlist cfg ! i,
         \<lparr>written = wire_of to_vec (map (\<lambda>r. Start cfg (host_assignment (hostlist cfg) resolved r i)) rs), room = None\<rparr>))
       [0..<length (hostlist cfg)]"

text \<open>All starts of a tournament can be encoded and decoded.\<close>

definition starts_ok ::
  "(msg \<Rightarrow> byte list option) \<Rightarrow> (byte list \<Rightarrow> msg option) \<Rightarrow> config \<Rightarrow> socket_addr list \<Rightarrow> bool" where
  "starts_ok to_vec from_slice cfg resolved \<longleftrightarrow>
     (\<forall>r\<in>set (round_robin_rounds (hostlist cfg)). \<forall>i<length (hostlist cfg).
        json_ok to_vec from_slice (Start cfg (host_assignment (hostlist cfg) resolved r i)))"

text \<open>A turn that is not cancelled and whose wait ends.\<close>

definition turn_played :: "config \<Rightarrow> round_turn \<Rightarrow> bool" where
  "turn_played cfg t \<longleftrightarrow> \<not> tn_cancelled t \<and> wait_round (of_nat (length (hostlist cfg))) (tn_polls t) \<noteq> None"

lemma play_round_conns:
  assumes "distinct (hostlist cfg)" "length (hostlist cfg) \<le> 2 ^ 32" "length resolved = length (hostlist cfg)"
    "r \<in> set (round_robin_rounds (hostlist cfg))" "starts_ok to_vec from_slice cfg resolved"
  shows "play_round to_vec cfg resolved r rest polls (conns_after to_vec cfg resolved played)
    = (if wait_round (of_nat (length (hostlist cfg))) polls = None then Waiting_round rest else Playing rest,
       conns_after to_vec cfg resolved (played @ [r]))"
proof -
  let ?n = "length (hostlist cfg)" and ?asg = "map (host_assignment (hostlist cfg) resolved r) [0..<length (hostlist cfg)]"
  let ?ws = "conns_after to_vec cfg resolved played"
  have "\<forall>a\<in>set ?asg. json_ok to_vec from_slice (Start cfg a)" using assms(4,5) by (auto simp: starts_ok_def)
  then have "send_starts to_vec cfg ?asg ?ws =
      Some (Inr (), map (\<lambda>((host, w), a). (host, w\<lparr>written := written w @ wire_of to_vec [Start cfg a]\<rparr>)) (zip ?ws ?asg))"
    by (intro send_starts_open) (auto simp: conns_after_def)
  also have "map (\<lambda>((host, w), a). (host, w\<lparr>written := written w @ wire_of to_vec [Start cfg a]\<rparr>)) (zip ?ws ?asg)
      = conns_after to_vec cfg resolved (played @ [r])"
    by (rule nth_equalityI) (simp_all add: conns_after_def wire_of_def)
  finally have "send_starts to_vec cfg ?asg ?ws = Some (Inr (), conns_after to_vec cfg resolved (played @ [r]))" .
  moreover have "length (conns_after to_vec cfg resolved (played @ [r])) = ?n" by (simp add: conns_after_def)
  ultimately show ?thesis
    using round_assignments_eq [OF assms(1-4)] by (simp add: play_round_def split: option.split)
qed

lemma play_round_open:
  assumes "distinct (hostlist cfg)" "length (hostlist cfg) \<le> 2 ^ 32" "length resolved = length (hostlist cfg)"
    "r \<in> set (round_robin_rounds (hostlist cfg))" "starts_ok to_vec from_slice cfg resolved" "turn_played cfg t"
  shows "rounds_turn to_vec cfg resolved t (Playing (r # rest), conns_after to_vec cfg resolved played)
    = (Playing rest, conns_after to_vec cfg resolved (played @ [r]))"
  using assms(6) play_round_conns [OF assms(1-5)] by (simp add: rounds_turn_def turn_played_def)

lemma play_rounds_open:
  assumes "distinct (hostlist cfg)" "length (hostlist cfg) \<le> 2 ^ 32" "length resolved = length (hostlist cfg)"
    "starts_ok to_vec from_slice cfg resolved" "set rs \<subseteq> set (round_robin_rounds (hostlist cfg))"
    "length turns = length rs" "\<forall>t\<in>set turns. turn_played cfg t"
  shows "fold (rounds_turn to_vec cfg resolved) turns (Playing rs, conns_after to_vec cfg resolved played)
    = (Playing [], conns_after to_vec cfg resolved (played @ rs))"
  using assms(5-7)
proof (induction rs arbitrary: turns played)
  case (Cons r rs)
  then obtain t ts where "turns = t # ts" by (cases turns) auto
  then show ?case
    using Cons play_round_open [OF assms(1-3) _ assms(4), of r t rs played] by simp
qed simp

text \<open>What holds after any number of turns, cancelled or not, of a tournament over open connections.\<close>

definition rounds_inv ::
  "(msg \<Rightarrow> byte list option) \<Rightarrow> config \<Rightarrow> socket_addr list \<Rightarrow> rounds_state \<times> connections \<Rightarrow> bool" where
  "rounds_inv to_vec cfg resolved st \<longleftrightarrow>
     (\<exists>played. set played \<subseteq> set (round_robin_rounds (hostlist cfg)) \<and> snd st = conns_after to_vec cfg resolved played)
     \<and> (case fst st of Playing left \<Rightarrow> set left \<subseteq> set (round_robin_rounds (hostlist cfg))
        | Waiting_round _ \<Rightarrow> True | Rounds_cancelled \<Rightarrow> True | _ \<Rightarrow> False)"

lemma rounds_inv_turn:
  assumes "distinct (hostlist cfg)" "length (hostlist cfg) \<le> 2 ^ 32" "length resolved = length (hostlist cfg)"
    "starts_ok to_vec from_slice cfg resolved" "rounds_inv to_vec cfg resolved st"
  shows "rounds_inv to_vec cfg resolved (rounds_turn to_vec cfg resolved t st)"
proof (cases "\<exists>left. fst st = Playing left \<and> \<not> tn_cancelled t")
  case True
  then obtain left where left: "fst st = Playing left" "\<not> tn_cancelled t" by blast
  from assms(5) obtain played where p: "set played \<subseteq> set (round_robin_rounds (hostlist cfg))"
      "snd st = conns_after to_vec cfg resolved played" "set left \<subseteq> set (round_robin_rounds (hostlist cfg))"
    by (auto simp: rounds_inv_def left)
  have st: "st = (Playing left, conns_after to_vec cfg resolved played)" using left(1) p(2) by (cases st) simp
  show ?thesis
  proof (cases left)
    case Nil
    then show ?thesis using p left(2) by (auto simp: st rounds_turn_def rounds_inv_def)
  next
    case (Cons r rest)
    then have r: "r \<in> set (round_robin_rounds (hostlist cfg))" using p(3) by simp
    have "\<exists>q. set q \<subseteq> set (round_robin_rounds (hostlist cfg))
        \<and> conns_after to_vec cfg resolved (played @ [r]) = conns_after to_vec cfg resolved q"
      using p(1) r by (intro exI [of _ "played @ [r]"]) simp
    then show ?thesis
      using Cons p(3) left(2) play_round_conns [OF assms(1-3) r assms(4)] by (simp add: st rounds_turn_def rounds_inv_def)
  qed
next
  case False
  then show ?thesis
    using assms(5) by (cases "fst st") (auto simp: rounds_inv_def rounds_turn_def split: prod.splits)
qed

lemma rounds_inv_run:
  assumes "distinct (hostlist cfg)" "length (hostlist cfg) \<le> 2 ^ 32" "length resolved = length (hostlist cfg)"
    "starts_ok to_vec from_slice cfg resolved" "rounds_inv to_vec cfg resolved st"
  shows "rounds_inv to_vec cfg resolved (fold (rounds_turn to_vec cfg resolved) turns st)"
  using assms(5) by (induction turns arbitrary: st) (simp_all add: rounds_inv_turn [OF assms(1-4)])

section \<open>Facts about the mesh\<close>

definition mesh_plan :: "config \<Rightarrow> socket_addr list \<Rightarrow> assignment list" where
  "mesh_plan cfg resolved = the (fill_resolved (assignments_mesh (hostlist cfg)) resolved)"

lemma mesh_plan_facts:
  assumes "length (hostlist cfg) \<le> 2 ^ 32" "length resolved = length (hostlist cfg)"
  shows "fill_resolved (assignments_mesh (hostlist cfg)) resolved = Some (mesh_plan cfg resolved)"
    "length (mesh_plan cfg resolved) = length (hostlist cfg)"
    "i < length (hostlist cfg) \<Longrightarrow> self_name (mesh_plan cfg resolved ! i) = hostlist cfg ! i \<and> unat (self_id (mesh_plan cfg resolved ! i)) = i"
proof -
  let ?mesh = "assignments_mesh (hostlist cfg)"
  have "\<forall>a\<in>set ?mesh. unat (self_id a) < length resolved \<and> (\<forall>t\<in>set (targets a). unat (tgt_id t) < length resolved)"
    using mesh_ids [OF assms(1)] assms(2) by simp
  note eq = fill_resolved_eq [OF this]
  have plan: "mesh_plan cfg resolved = map (\<lambda>a. a\<lparr>asg_bind := show_sock (resolved ! unat (self_id a)),
      targets := map (\<lambda>t. t\<lparr>tgt_addr := show_sock (resolved ! unat (tgt_id t))\<rparr>) (targets a)\<rparr>) ?mesh"
    by (simp only: mesh_plan_def eq option.sel)
  show "fill_resolved ?mesh resolved = Some (mesh_plan cfg resolved)" by (simp only: plan eq)
  show "length (mesh_plan cfg resolved) = length (hostlist cfg)" by (simp add: plan assignments_mesh_def)
  show "i < length (hostlist cfg) \<Longrightarrow> self_name (mesh_plan cfg resolved ! i) = hostlist cfg ! i
      \<and> unat (self_id (mesh_plan cfg resolved ! i)) = i"
    using assms(1) by (simp add: plan assignments_mesh_def nth_enumerate_eq unat_of_nat_small)
qed

text \<open>Every message of a test can be encoded and decoded.\<close>

definition test_messages_ok ::
  "(msg \<Rightarrow> byte list option) \<Rightarrow> (byte list \<Rightarrow> msg option) \<Rightarrow> config \<Rightarrow> socket_addr list \<Rightarrow> bool" where
  "test_messages_ok to_vec from_slice cfg resolved \<longleftrightarrow>
     json_ok to_vec from_slice Stop
     \<and> (case cfg_type cfg of Pairs \<Rightarrow> starts_ok to_vec from_slice cfg resolved
        | Mesh \<Rightarrow> \<forall>a\<in>set (mesh_plan cfg resolved). json_ok to_vec from_slice (Start cfg a))"

definition opened :: "config \<Rightarrow> connections" where
  "opened cfg = map (\<lambda>h. (h, \<lparr>written = [], room = None\<rparr>)) (hostlist cfg)"

text \<open>The stream of each server once the test has been cancelled.\<close>

lemma stop_all_stream:
  assumes "\<forall>m\<in>set ms. json_ok to_vec from_slice m" "json_ok to_vec from_slice Stop" "i < length ws"
    "snd (ws ! i) = \<lparr>written = wire_of to_vec ms, room = None\<rparr>"
  shows "read_frames from_slice (written (snd (stop_all to_vec ws ! i))) = ms @ [Stop]"
proof -
  obtain host where w: "ws ! i = (host, \<lparr>written = wire_of to_vec ms, room = None\<rparr>)" using assms(4) by (cases "ws ! i") simp
  have "written (snd (stop_all to_vec ws ! i)) = wire_of to_vec (ms @ [Stop])"
    using assms(3) w write_frame_open_json [OF assms(2)] by (simp add: stop_all_def wire_of_def)
  then show ?thesis using read_frames_wire [of "ms @ [Stop]" to_vec from_slice "[]"] assms(1,2) by (simp add: read_frames_Nil)
qed

lemma test_streams:
  assumes "distinct (hostlist cfg)" "length (hostlist cfg) \<le> 2 ^ 32" "length resolved = length (hostlist cfg)"
    "test_messages_ok to_vec from_slice cfg resolved" "client_test to_vec cfg resolved turns (opened cfg) = Some (r, ws)"
    "i < length (hostlist cfg)"
  shows "r = Inr () \<and> (\<exists>starts. snd (ws ! i) = \<lparr>written = wire_of to_vec (map (Start cfg) starts), room = None\<rparr>
    \<and> length ws = length (hostlist cfg) \<and> (\<forall>a\<in>set starts. json_ok to_vec from_slice (Start cfg a) \<and> self_name a = hostlist cfg ! i \<and> unat (self_id a) = i))"
proof (cases "cfg_type cfg")
  case Pairs
  then have ok: "starts_ok to_vec from_slice cfg resolved" using assms(4) by (simp add: test_messages_ok_def)
  have "opened cfg = conns_after to_vec cfg resolved []"
    by (rule nth_equalityI) (simp_all add: opened_def conns_after_def wire_of_def)
  then have "rounds_inv to_vec cfg resolved (Playing [], opened cfg)"
    by (auto simp: rounds_inv_def intro: exI [of _ "[]"])
  from rounds_inv_run [OF assms(1-3) ok this, of turns]
  have inv: "rounds_inv to_vec cfg resolved (run_pair_rounds to_vec cfg resolved turns (opened cfg))"
    by (simp add: run_pair_rounds_def)
  then have "run_pair_rounds to_vec cfg resolved turns (opened cfg) = (Rounds_cancelled, ws) \<and> r = Inr ()"
    using assms(5) Pairs by (auto simp: client_test_def rounds_inv_def split: prod.splits rounds_state.splits)
  moreover with inv obtain played where p: "set played \<subseteq> set (round_robin_rounds (hostlist cfg))"
      "ws = conns_after to_vec cfg resolved played"
    by (auto simp: rounds_inv_def)
  ultimately show ?thesis
    using assms(2,6) ok
    by (intro conjI exI [of _ "map (\<lambda>r. host_assignment (hostlist cfg) resolved r i) played"])
      (auto simp: conns_after_def comp_def host_assignment_def starts_ok_def unat_of_nat_small)
next
  case Mesh
  note plan = mesh_plan_facts [OF assms(2,3)]
  have ok: "\<forall>a\<in>set (mesh_plan cfg resolved). json_ok to_vec from_slice (Start cfg a)"
    using assms(4) Mesh by (simp add: test_messages_ok_def)
  have "start_mesh to_vec cfg resolved (opened cfg) = Some (Inr (),
      map (\<lambda>((host, w), a). (host, w\<lparr>written := written w @ wire_of to_vec [Start cfg a]\<rparr>)) (zip (opened cfg) (mesh_plan cfg resolved)))"
    using plan(1,2) send_starts_open [OF ok, of "opened cfg"] by (auto simp: start_mesh_def opened_def)
  then have r: "r = Inr ()"
    "ws = map (\<lambda>((host, w), a). (host, w\<lparr>written := written w @ wire_of to_vec [Start cfg a]\<rparr>)) (zip (opened cfg) (mesh_plan cfg resolved))"
    using assms(5) Mesh by (auto simp: client_test_def split: if_splits)
  show ?thesis
    using assms(6) plan(2) plan(3) [OF assms(6)] ok
    by (intro conjI exI [of _ "[mesh_plan cfg resolved ! i]"]) (simp_all add: r opened_def wire_of_def)
qed

section \<open>Facts about the pump\<close>

text \<open>What ends a pump in any case, and a sequence that does not end it: an error may only come after the
  first acknowledged Start.\<close>

definition ends_pump :: "frame_error + msg \<Rightarrow> bool" where
  "ends_pump item \<longleftrightarrow> (case item of Inl _ \<Rightarrow> True | Inr m \<Rightarrow> m = Ack ''stop'')"

fun pump_safe :: "bool \<Rightarrow> (frame_error + msg) list \<Rightarrow> bool" where
  "pump_safe got [] = True"
| "pump_safe got (item # items) =
     (\<not> ends_pump item \<and> (case item of Inr (Error _) \<Rightarrow> got | _ \<Rightarrow> True) \<and> pump_safe (got \<or> item = Inr (Ack ''start'')) items)"

definition window_in :: "frame_error + msg \<Rightarrow> metric_window list" where
  "window_in item = (case item of Inr (Metrics w) \<Rightarrow> [w] | _ \<Rightarrow> [])"

lemma pump_safe_fold:
  assumes "pu_status p = Pumping" "pump_safe (pu_got_start p) items"
  shows "pu_status (fold pump_step items p) = Pumping
    \<and> pu_windows (fold pump_step items p) = pu_windows p @ concat (map window_in items)
    \<and> pu_lines (fold pump_step items p) = pu_lines p @ map format_window (concat (map window_in items))"
  using assms
proof (induction items arbitrary: p)
  case (Cons item items)
  have "pu_status (pump_step item p) = Pumping \<and> pu_got_start (pump_step item p) = (pu_got_start p \<or> item = Inr (Ack ''start''))
      \<and> pu_windows (pump_step item p) = pu_windows p @ window_in item
      \<and> pu_lines (pump_step item p) = pu_lines p @ map format_window (window_in item)"
    using Cons.prems by (auto simp: pump_step_def ends_pump_def window_in_def split: sum.splits msg.splits)
  then show ?case using Cons by simp
qed simp

lemma pump_ended: "pu_status p \<noteq> Pumping \<Longrightarrow> fold pump_step items p = p"
  by (induction items) (auto simp: pump_step_def)

lemma pump_server_safe:
  assumes "pump_safe False items" "ends_pump item"
  shows "pu_status (pump_server (items @ item # rest)) = Pump_done
    \<and> pu_windows (pump_server (items @ item # rest)) = concat (map window_in items)
    \<and> pu_lines (pump_server (items @ item # rest)) = map format_window (concat (map window_in items))"
proof -
  let ?p = "fold pump_step items pump_new"
  have p: "pu_status ?p = Pumping" "pu_windows ?p = concat (map window_in items)"
      "pu_lines ?p = map format_window (concat (map window_in items))"
    using pump_safe_fold [of pump_new items] assms(1) by (simp_all add: pump_new_def)
  have "pump_step item ?p = ?p\<lparr>pu_status := Pump_done\<rparr>"
    using p(1) assms(2) by (auto simp: pump_step_def ends_pump_def split: sum.splits)
  then show ?thesis using p by (simp add: pump_server_def pump_ended)
qed

section \<open>Facts about the wait\<close>

lemma await_decides:
  assumes "\<exists>p\<in>set ps. ACK_DEADLINE_NS \<le> ap_elapsed p"
  shows "\<exists>before p after. ps = before @ p # after
    \<and> (\<forall>q\<in>set before. ap_acks q < need \<and> \<not> ap_cancelled q \<and> ap_elapsed q < ACK_DEADLINE_NS \<and> \<not> ap_interrupted q)
    \<and> (case await_acks need ps of
         Some All_acked \<Rightarrow> need \<le> ap_acks p
       | Some (Acks_missing k) \<Rightarrow> k = ap_acks p \<and> k < need \<and> \<not> ap_cancelled p \<and> ACK_DEADLINE_NS \<le> ap_elapsed p
       | Some Wait_cancelled \<Rightarrow> ap_acks p < need \<and> (ap_cancelled p \<or> ap_interrupted p \<and> ap_elapsed p < ACK_DEADLINE_NS)
       | None \<Rightarrow> False)"
  using assms
proof (induction ps)
  case Nil
  then show ?case by simp
next
  case (Cons q ps)
  show ?case
  proof (cases "ap_acks q < need \<and> \<not> ap_cancelled q \<and> ap_elapsed q < ACK_DEADLINE_NS \<and> \<not> ap_interrupted q")
    case True
    with Cons.prems have "\<exists>p\<in>set ps. ACK_DEADLINE_NS \<le> ap_elapsed p" by auto
    from Cons.IH [OF this] obtain before p after where split: "ps = before @ p # after"
      "\<forall>q\<in>set before. ap_acks q < need \<and> \<not> ap_cancelled q \<and> ap_elapsed q < ACK_DEADLINE_NS \<and> \<not> ap_interrupted q"
      "case await_acks need ps of
         Some All_acked \<Rightarrow> need \<le> ap_acks p
       | Some (Acks_missing k) \<Rightarrow> k = ap_acks p \<and> k < need \<and> \<not> ap_cancelled p \<and> ACK_DEADLINE_NS \<le> ap_elapsed p
       | Some Wait_cancelled \<Rightarrow> ap_acks p < need \<and> (ap_cancelled p \<or> ap_interrupted p \<and> ap_elapsed p < ACK_DEADLINE_NS)
       | None \<Rightarrow> False" by blast
    moreover have "await_acks need (q # ps) = await_acks need ps" using True by simp
    ultimately show ?thesis
      using True by (intro exI [of _ "q # before"] exI [of _ p] exI [of _ after]) (simp only: append_Cons list.simps insert_iff; blast)
  next
    case False
    then show ?thesis by (intro exI [of _ "[]"] exI [of _ q] exI [of _ ps]) auto
  qed
qed

section \<open>Properties\<close>

text \<open>C6: one tournament makes every host send to every other host exactly once: over its rounds each host is
  sent one Start per round, addressed to it, whose targets taken together are all the other hosts, each
  once, with the address resolved for the target.\<close>

theorem tournament_covers_all_pairs:
  assumes "distinct (hostlist cfg)" "length (hostlist cfg) \<le> 2 ^ 32" "length resolved = length (hostlist cfg)"
    "starts_ok to_vec from_slice cfg resolved" "length turns = Suc (length (round_robin_rounds (hostlist cfg)))"
    "\<forall>t\<in>set turns. turn_played cfg t" "i < length (hostlist cfg)"
  shows "\<exists>ws starts. run_pair_rounds to_vec cfg resolved turns (map (\<lambda>h. (h, \<lparr>written = [], room = None\<rparr>)) (hostlist cfg))
      = (Playing [], ws)
    \<and> read_frames from_slice (written (snd (ws ! i))) = map (Start cfg) starts
    \<and> length starts = length (round_robin_rounds (hostlist cfg)) \<and> (\<forall>a\<in>set starts. self_name a = hostlist cfg ! i)
    \<and> mset (map tgt_name (concat (map targets starts))) = mset (remove1 (hostlist cfg ! i) (hostlist cfg))
    \<and> (\<forall>t\<in>set (concat (map targets starts)). hostlist cfg ! unat (tgt_id t) = tgt_name t
         \<and> tgt_addr t = show_sock (resolved ! unat (tgt_id t)))"
proof -
  let ?hosts = "hostlist cfg" and ?rs = "round_robin_rounds (hostlist cfg)"
  let ?ws = "conns_after to_vec cfg resolved ?rs" and ?starts = "map (\<lambda>r. host_assignment ?hosts resolved r i) ?rs"
  obtain t ts where turns: "turns = t # ts" "length ts = length ?rs" using assms(5) by (cases turns) auto
  have init: "map (\<lambda>h. (h, \<lparr>written = [], room = None\<rparr>)) ?hosts = conns_after to_vec cfg resolved []"
    by (rule nth_equalityI) (simp_all add: conns_after_def wire_of_def)
  have "rounds_turn to_vec cfg resolved t (Playing [], conns_after to_vec cfg resolved [])
      = (Playing ?rs, conns_after to_vec cfg resolved [])"
    using assms(6) turns by (simp add: rounds_turn_def turn_played_def)
  then have run: "run_pair_rounds to_vec cfg resolved turns (map (\<lambda>h. (h, \<lparr>written = [], room = None\<rparr>)) ?hosts) = (Playing [], ?ws)"
    using play_rounds_open [OF assms(1-4) subset_refl turns(2)] assms(6) turns by (simp add: run_pair_rounds_def init)
  have read: "read_frames from_slice (written (snd (?ws ! i))) = map (Start cfg) ?starts"
  proof -
    have "\<forall>m\<in>set (map (Start cfg) ?starts). json_ok to_vec from_slice m" using assms(4,7) by (auto simp: starts_ok_def)
    from read_frames_wire [OF this, of "[]"] show ?thesis
      using assms(7) by (simp add: conns_after_def read_frames_Nil comp_def)
  qed
  have tgts: "concat (map targets ?starts) = map (addressed_target ?hosts resolved) (concat (map (partners (?hosts ! i)) ?rs))"
    by (simp add: host_assignment_def map_concat comp_def)
  have name [simp]: "tgt_name (addressed_target ?hosts resolved n) = n" for n
    by (simp add: addressed_target_def target_for_def)
  have partner: "mset (concat (map (partners (?hosts ! i)) ?rs)) = mset (remove1 (?hosts ! i) ?hosts)"
    using assms(1,7) by (intro rr.meets_all) simp_all
  then have "set (concat (map (partners (?hosts ! i)) ?rs)) \<subseteq> set ?hosts"
    by (metis mset_eq_setD set_remove1_subset)
  then have "?hosts ! unat (tgt_id t) = tgt_name t \<and> tgt_addr t = show_sock (resolved ! unat (tgt_id t))"
    if "t \<in> set (concat (map targets ?starts))" for t
    using that target_for_id [OF _ assms(1,2)] unfolding tgts by (auto simp: addressed_target_def target_for_def)
  moreover have "mset (map tgt_name (concat (map targets ?starts))) = mset (remove1 (?hosts ! i) ?hosts)"
    unfolding tgts using partner by (simp add: comp_def)
  moreover have "\<forall>a\<in>set ?starts. self_name a = ?hosts ! i" by (auto simp: host_assignment_def)
  ultimately show ?thesis using run read by (intro exI [of _ ?ws] exI [of _ ?starts]) (simp only: length_map; blast)
qed

text \<open>Two hosts and a codec for their two starts.\<close>

definition sample_resolved :: "socket_addr list" where
  "sample_resolved = [SockV4 1 9100, SockV4 2 9100]"

definition start_to_vec :: "msg \<Rightarrow> byte list option" where
  "start_to_vec m = (case m of Start _ a \<Rightarrow> Some (if self_id a = 0 then [1] else [2]) | _ \<Rightarrow> None)"

definition start_from_slice :: "byte list \<Rightarrow> msg option" where
  "start_from_slice bs =
     (let start = (\<lambda>i. Start sample_config (host_assignment [''a'', ''b''] sample_resolved [(''a'', ''b'')] i)) in
      if bs = [1] then Some (start 0) else if bs = [2] then Some (start 1) else None)"

definition sample_turn :: round_turn where
  "sample_turn =
     \<lparr>tn_cancelled = False,
      tn_polls = [\<lparr>ap_acks = 0, ap_cancelled = False, ap_elapsed = 0, ap_interrupted = False\<rparr>,
                  \<lparr>ap_acks = 2, ap_cancelled = False, ap_elapsed = 20000000, ap_interrupted = False\<rparr>]\<rparr>"

theorem tournament_covers_all_pairs_witness:
  "\<exists>ws starts. run_pair_rounds start_to_vec sample_config sample_resolved [sample_turn, sample_turn]
      (map (\<lambda>h. (h, \<lparr>written = [], room = None\<rparr>)) (hostlist sample_config)) = (Playing [], ws)
    \<and> read_frames start_from_slice (written (snd (ws ! 1))) = map (Start sample_config) starts
    \<and> map tgt_name (concat (map targets starts)) = [''a'']"
proof -
  have hosts: "hostlist sample_config = [''a'', ''b'']" by (simp add: sample_config_def)
  have rounds: "round_robin_rounds [''a'', ''b''] = [[(''a'', ''b'')]]" by code_simp
  have "starts_ok start_to_vec start_from_slice sample_config sample_resolved"
  proof -
    have "json_ok start_to_vec start_from_slice (Start sample_config (host_assignment [''a'', ''b''] sample_resolved [(''a'', ''b'')] i))"
      if "i = 0 \<or> i = 1" for i
      using that by (auto simp: json_ok_def start_to_vec_def start_from_slice_def MAX_FRAME_def host_assignment_def Let_def)
    then show ?thesis unfolding starts_ok_def hosts rounds by (auto simp: less_Suc_eq)
  qed
  moreover have "turn_played sample_config sample_turn"
    by (simp add: turn_played_def hosts sample_turn_def wait_round_def ACK_DEADLINE_NS_def)
  ultimately obtain ws starts where ws: "run_pair_rounds start_to_vec sample_config sample_resolved [sample_turn, sample_turn]
      (map (\<lambda>h. (h, \<lparr>written = [], room = None\<rparr>)) (hostlist sample_config)) = (Playing [], ws)"
    "read_frames start_from_slice (written (snd (ws ! 1))) = map (Start sample_config) starts"
    "mset (map tgt_name (concat (map targets starts))) = mset (remove1 (hostlist sample_config ! 1) (hostlist sample_config))"
    using tournament_covers_all_pairs [of sample_config sample_resolved start_to_vec start_from_slice "[sample_turn, sample_turn]" 1]
    by (auto simp: hosts rounds sample_resolved_def)
  have "mset (map tgt_name (concat (map targets starts))) = {#''a''#}" unfolding ws(3) hosts by simp
  then have "map tgt_name (concat (map targets starts)) = [''a'']" by (simp only: mset_single_iff)
  with ws(1,2) show ?thesis by (intro exI conjI)
qed

text \<open>C36: the wait for the acknowledgements of a round ends, at the latest at the first poll after 15 seconds,
  and the poll it ends at decides the verdict. At every poll before it the count was too low, the 15
  seconds were not over and nothing was cancelled. All are acknowledged where the count has reached the
  number of servers; the count is reported missing only where it has not and the 15 seconds are over; the
  rest is cancellation.\<close>

theorem ack_wait_bounded:
  assumes "\<exists>p\<in>set ps. 15000000000 \<le> ap_elapsed p"
  shows "\<exists>before p after. ps = before @ p # after
    \<and> (\<forall>q\<in>set before. ap_acks q < need \<and> \<not> ap_cancelled q \<and> ap_elapsed q < 15000000000 \<and> \<not> ap_interrupted q)
    \<and> (case await_acks need ps of
         Some All_acked \<Rightarrow> need \<le> ap_acks p
       | Some (Acks_missing k) \<Rightarrow> k = ap_acks p \<and> k < need \<and> \<not> ap_cancelled p \<and> 15000000000 \<le> ap_elapsed p
       | Some Wait_cancelled \<Rightarrow> ap_acks p < need \<and> (ap_cancelled p \<or> ap_interrupted p \<and> ap_elapsed p < 15000000000)
       | None \<Rightarrow> False)"
proof -
  have "ACK_DEADLINE_NS = 15000000000" by (simp add: ACK_DEADLINE_NS_def)
  with await_decides [of ps need] assms show ?thesis by (simp only:)
qed

theorem ack_wait_bounded_witness:
  "await_acks 2 [\<lparr>ap_acks = 1, ap_cancelled = False, ap_elapsed = 0, ap_interrupted = False\<rparr>,
     \<lparr>ap_acks = 1, ap_cancelled = False, ap_elapsed = 15000000001, ap_interrupted = False\<rparr>] = Some (Acks_missing 1)"
  (is "await_acks 2 ?ps = _")
proof -
  have "\<exists>p\<in>set ?ps. 15000000000 \<le> ap_elapsed p" by simp
  from ack_wait_bounded [OF this, of 2] obtain before p after where split: "?ps = before @ p # after"
    and verdict: "case await_acks 2 ?ps of
         Some All_acked \<Rightarrow> 2 \<le> ap_acks p
       | Some (Acks_missing k) \<Rightarrow> k = ap_acks p \<and> k < 2 \<and> \<not> ap_cancelled p \<and> 15000000000 \<le> ap_elapsed p
       | Some Wait_cancelled \<Rightarrow> ap_acks p < 2 \<and> (ap_cancelled p \<or> ap_interrupted p \<and> ap_elapsed p < 15000000000)
       | None \<Rightarrow> False" by blast
  have "p \<in> set ?ps" unfolding split by simp
  then have "ap_acks p = 1" "\<not> ap_cancelled p" "\<not> ap_interrupted p" by auto
  with verdict show ?thesis by (simp add: word_le_nat_alt split: option.split_asm ack_wait.split_asm del: await_acks.simps)
qed

text \<open>The pump of a server passes on every window up to the acknowledgement of the Stop, or to the end of
  the connection, once and in order: each is printed and each is handed to the database. An error after
  the first acknowledged Start does not end it.\<close>

theorem pump_keeps_windows:
  assumes "pump_safe False items" "ends_pump item"
  shows "pu_status (pump_server (items @ item # rest)) = Pump_done
    \<and> pu_windows (pump_server (items @ item # rest)) = concat (map window_in items)
    \<and> pu_lines (pump_server (items @ item # rest)) = map format_window (concat (map window_in items))"
  using assms by (rule pump_server_safe)

theorem pump_keeps_windows_witness:
  "pu_windows (pump_server ([Inr (Ack ''start''), Inr (Metrics (sample_window 5)), Inr (Error ''e''), Inr (Metrics (sample_window 9))]
     @ Inr (Ack ''stop'') # [Inr (Metrics (sample_window 11))])) = [sample_window 5, sample_window 9]"
proof -
  have "pump_safe False [Inr (Ack ''start''), Inr (Metrics (sample_window 5)), Inr (Error ''e''), Inr (Metrics (sample_window 9))]"
    by (simp add: ends_pump_def)
  from pump_keeps_windows [OF this, of "Inr (Ack ''stop'')"] show ?thesis by (simp add: ends_pump_def window_in_def)
qed

end
