(* ===== verification/Collect.thy ===== *)
theory Collect
  imports Client
begin

text \<open>
  The collecting half of a client run (\<open>src/src/client.rs\<close>): the pumps of all servers run side by side, count
  acknowledgements in one shared counter and send their windows over one channel to the thread of the
  database; at the end the client waits for them, for at most five seconds, and then shuts the
  database down. An event is one message that arrives at the pump of a server, or the reset of
  the counter when a round starts.
\<close>

section \<open>The pumps together\<close>

record collect =
  co_pumps :: "pump list"
  co_acks :: u64
  co_sent :: "event list"

datatype collect_event = Arrives nat "frame_error + msg" | Acks_reset

definition collect_new :: "nat \<Rightarrow> collect" where
  "collect_new n = \<lparr>co_pumps = replicate n pump_new, co_acks = 0, co_sent = []\<rparr>"

text \<open>What a pump adds to the counter and hands to the database when it handles one message.\<close>

definition pump_gains :: "frame_error + msg \<Rightarrow> pump \<Rightarrow> nat \<times> metric_window list" where
  "pump_gains item p =
     (let p' = pump_step item p in (pu_acks p' - pu_acks p, drop (length (pu_windows p)) (pu_windows p')))"

definition collect_step :: "collect_event \<Rightarrow> collect \<Rightarrow> collect" where
  "collect_step ev c =
     (case ev of
        Acks_reset \<Rightarrow> c\<lparr>co_acks := 0\<rparr>
      | Arrives i item \<Rightarrow>
          if i < length (co_pumps c) then
            let (acks, ws) = pump_gains item (co_pumps c ! i)
            in c\<lparr>co_pumps := (co_pumps c)[i := pump_step item (co_pumps c ! i)], co_acks := co_acks c + of_nat acks,
                 co_sent := fold db_insert ws (co_sent c)\<rparr>
          else c)"

section \<open>Draining\<close>

definition DRAIN_NS :: nat where "DRAIN_NS = 5 * 1000000000"

datatype drain_end = Drained | Timed_out

definition all_joined :: "collect \<Rightarrow> bool" where
  "all_joined c \<longleftrightarrow> list_all (\<lambda>p. pu_status p \<noteq> Pumping) (co_pumps c)"

text \<open>Each event with the nanoseconds since the draining began; \<open>None\<close> while it is still waiting.\<close>

fun drain :: "(nat \<times> collect_event) list \<Rightarrow> collect \<Rightarrow> (drain_end \<times> collect) option" where
  "drain [] c = (if all_joined c then Some (Drained, c) else None)"
| "drain ((elapsed, ev) # evs) c =
     (if all_joined c then Some (Drained, c)
      else if DRAIN_NS \<le> elapsed then Some (Timed_out, c)
      else drain evs (collect_step ev c))"

section \<open>A run\<close>

text \<open>The whole run, with what arrives before the Stops are sent and while the client drains. After an error
  of the test nothing is stopped: the connections close with the client.\<close>

definition client_run ::
  "(msg \<Rightarrow> byte list option) \<Rightarrow> client_env \<Rightarrow> config \<Rightarrow> round_turn list \<Rightarrow> collect_event list \<Rightarrow> (nat \<times> collect_event) list
   \<Rightarrow> ((client_error + db) \<times> connections) option" where
  "client_run to_vec env cfg turns during draining =
     (case client_setup env cfg of
        None \<Rightarrow> None
      | Some (Inl e) \<Rightarrow> Some (Inl e, [])
      | Some (Inr (d, resolved, conns)) \<Rightarrow>
        (case client_test to_vec cfg resolved turns conns of
           None \<Rightarrow> None
         | Some (Inl e, conns) \<Rightarrow> Some (Inl e, conns)
         | Some (Inr _, conns) \<Rightarrow>
           let conns = stop_all to_vec conns in
           (case drain draining (fold collect_step during (collect_new (length conns))) of
              None \<Rightarrow> None
            | Some (_, c) \<Rightarrow>
              (case db_shutdown (js_peers (ce_json env)) (tag cfg) (co_sent c) d of
                 (Inl e, _) \<Rightarrow> Some (Inl (Db_thread_failed e), conns)
               | (Inr _, d) \<Rightarrow> Some (Inr d, conns)))))"

section \<open>Facts about the pumps together\<close>

text \<open>The messages for one pump, and the windows handed to the database with the pump each came from.\<close>

fun items_for :: "nat \<Rightarrow> collect_event list \<Rightarrow> (frame_error + msg) list" where
  "items_for i [] = []"
| "items_for i (Arrives j item # evs) = (if j = i then item # items_for i evs else items_for i evs)"
| "items_for i (Acks_reset # evs) = items_for i evs"

fun handed :: "pump list \<Rightarrow> collect_event list \<Rightarrow> (nat \<times> metric_window) list" where
  "handed ps [] = []"
| "handed ps (Arrives i item # evs) =
     (if i < length ps
      then map (Pair i) (snd (pump_gains item (ps ! i))) @ handed (ps[i := pump_step item (ps ! i)]) evs
      else handed ps evs)"
| "handed ps (Acks_reset # evs) = handed ps evs"

lemma items_for_append [simp]: "items_for i (evs @ evs') = items_for i evs @ items_for i evs'"
  by (induction i evs rule: items_for.induct) simp_all

lemma fold_db_insert: "fold db_insert ws sent = sent @ map Metric ws"
  by (induction ws arbitrary: sent) (simp_all add: db_insert_def)

lemma pump_step_windows: "pu_windows (pump_step item p) = pu_windows p @ snd (pump_gains item p)"
  by (auto simp: pump_step_def pump_gains_def split: sum.splits msg.splits)

lemma collect_run:
  "length (co_pumps (fold collect_step evs c)) = length (co_pumps c)
    \<and> (\<forall>i<length (co_pumps c). co_pumps (fold collect_step evs c) ! i = fold pump_step (items_for i evs) (co_pumps c ! i))
    \<and> co_sent (fold collect_step evs c) = co_sent c @ map (Metric \<circ> snd) (handed (co_pumps c) evs)"
proof (induction evs arbitrary: c)
  case (Cons ev evs)
  show ?case
  proof (cases ev)
    case (Arrives j item)
    show ?thesis
    proof (cases "j < length (co_pumps c)")
      case True
      let ?c = "collect_step (Arrives j item) c"
      have c: "co_pumps ?c = (co_pumps c)[j := pump_step item (co_pumps c ! j)]"
          "co_sent ?c = co_sent c @ map Metric (snd (pump_gains item (co_pumps c ! j)))"
        using True by (simp_all add: collect_step_def fold_db_insert split: prod.split)
      show ?thesis using Cons [of ?c] True by (simp add: c Arrives nth_list_update comp_def)
    next
      case False
      then have "collect_step ev c = c" by (simp add: Arrives collect_step_def)
      then show ?thesis using Cons [of c] False by (auto simp: Arrives)
    qed
  next
    case Acks_reset
    have "co_pumps (collect_step ev c) = co_pumps c" "co_sent (collect_step ev c) = co_sent c"
      by (simp_all add: Acks_reset collect_step_def)
    then show ?thesis using Cons [of "collect_step ev c"] by (simp add: Acks_reset)
  qed
qed simp

lemma collect_new_run:
  "length (co_pumps (fold collect_step evs (collect_new n))) = n"
  "i < n \<Longrightarrow> co_pumps (fold collect_step evs (collect_new n)) ! i = pump_server (items_for i evs)"
  "co_sent (fold collect_step evs (collect_new n)) = map (Metric \<circ> snd) (handed (replicate n pump_new) evs)"
  using collect_run [of evs "collect_new n"] by (simp_all add: collect_new_def pump_server_def)

lemma handed_per_pump:
  "i < length ps \<Longrightarrow> pu_windows (fold pump_step (items_for i evs) (ps ! i))
    = pu_windows (ps ! i) @ map snd (filter (\<lambda>p. fst p = i) (handed ps evs))"
proof (induction ps evs rule: handed.induct)
  case (2 ps j item evs)
  have own: "filter (\<lambda>p. fst p = i) (map (Pair i) ws) = map (Pair i) ws" for ws :: "metric_window list"
    by (simp add: filter_id_conv)
  have other: "j \<noteq> i \<Longrightarrow> filter (\<lambda>p. fst p = i) (map (Pair j) ws) = []" for ws :: "metric_window list"
    by (simp add: filter_empty_conv)
  show ?case
  proof (cases "j < length ps")
    case True
    with 2 show ?thesis
      by (cases "j = i") (simp_all add: own other pump_step_windows comp_def)
  next
    case False
    with 2 show ?thesis by auto
  qed
qed simp_all

lemma handed_bound: "p \<in> set (handed ps evs) \<Longrightarrow> fst p < length ps"
  by (induction ps evs rule: handed.induct) (auto split: if_splits)

text \<open>What drains is a beginning of the events; it has ended because all pumps had, or because of the
  deadline.\<close>

lemma drain_result:
  "drain evs c = Some (e, c') \<Longrightarrow>
    \<exists>taken rest. evs = taken @ rest \<and> c' = fold collect_step (map snd taken) c
      \<and> (case e of Drained \<Rightarrow> all_joined c' | Timed_out \<Rightarrow> \<exists>t ev rest'. rest = (t, ev) # rest' \<and> DRAIN_NS \<le> t)"
proof (induction evs c rule: drain.induct)
  case (1 c)
  then show ?case by (intro exI [of _ "[]"]) (simp split: if_splits)
next
  case (2 elapsed ev evs c)
  show ?case
  proof (cases "all_joined c \<or> DRAIN_NS \<le> elapsed")
    case True
    then show ?thesis using "2.prems" by (intro exI [of _ "[]"] exI [of _ "(elapsed, ev) # evs"]) (auto split: if_splits)
  next
    case False
    then obtain taken rest where "evs = taken @ rest" "c' = fold collect_step (map snd taken) (collect_step ev c)"
        "case e of Drained \<Rightarrow> all_joined c' | Timed_out \<Rightarrow> \<exists>t ev rest'. rest = (t, ev) # rest' \<and> DRAIN_NS \<le> t"
      using 2 by auto
    then show ?thesis by (intro exI [of _ "(elapsed, ev) # taken"] exI [of _ rest]) simp
  qed
qed

lemma drain_ends:
  "\<exists>(t, ev)\<in>set evs. DRAIN_NS \<le> t \<Longrightarrow> \<exists>r. drain evs c = Some r"
  by (induction evs c rule: drain.induct) auto

lemma joined_stays:
  assumes "all_joined c"
  shows "co_pumps (fold collect_step evs c) = co_pumps c"
proof (rule nth_equalityI)
  show "length (co_pumps (fold collect_step evs c)) = length (co_pumps c)" using collect_run [of evs c] by blast
  fix i assume "i < length (co_pumps (fold collect_step evs c))"
  then have i: "i < length (co_pumps c)" using collect_run [of evs c] by simp
  then have "pu_status (co_pumps c ! i) \<noteq> Pumping" using assms by (simp add: all_joined_def list_all_length)
  then show "co_pumps (fold collect_step evs c) ! i = co_pumps c ! i"
    using collect_run [of evs c] i by (simp add: pump_ended)
qed

text \<open>An acknowledgement carries no round, and the counter is reset for all connections when a round starts:
  one of an earlier Start that arrives late counts for the round. Here server 1 has acknowledged one of
  its two Starts, and two acknowledgements are counted.\<close>

lemma late_ack_counts:
  "let start = Inr (Ack ''start'');
       c = fold collect_step [Acks_reset, Arrives 0 start, Acks_reset, Arrives 1 start, Arrives 0 start] (collect_new 2)
   in co_acks c = 2 \<and> map pu_acks (co_pumps c) = [2, 1]"
  by code_simp

text \<open>An error before the first acknowledged Start ends the pump of a server for good: nothing that the server
  sends in later rounds is counted, printed or stored.\<close>

lemma early_error_silences_server:
  "pu_windows (pump_server (Inr (Error e) # items)) = [] \<and> pu_acks (pump_server (Inr (Error e) # items)) = 0"
proof -
  have "pump_server (Inr (Error e) # items) = pump_step (Inr (Error e)) pump_new"
    unfolding pump_server_def by (simp add: pump_ended pump_step_def pump_new_def)
  then show ?thesis by (simp add: pump_step_def pump_new_def)
qed

section \<open>Facts about a run\<close>


lemma send_starts_from_length: "send_starts_from to_vec cfg asg i ws = Some (r, ws') \<Longrightarrow> length ws' = length ws"
  by (induction to_vec cfg asg i ws arbitrary: r ws' rule: send_starts_from.induct)
    (auto split: if_splits prod.splits sum.splits)

lemma rounds_turn_length: "length (snd (rounds_turn to_vec cfg resolved t st)) = length (snd st)"
  by (auto simp: rounds_turn_def play_round_def send_starts_def bind_eq_Some_conv dest: send_starts_from_length
      split: prod.splits rounds_state.splits list.splits option.splits sum.splits)

lemma run_pair_rounds_length:
  "length (snd (fold (rounds_turn to_vec cfg resolved) turns st)) = length (snd st)"
  by (induction turns arbitrary: st) (simp_all add: rounds_turn_length)

lemma client_test_length:
  assumes "client_test to_vec cfg resolved turns ws = Some (r, ws')"
  shows "length ws' = length ws"
proof (cases "cfg_type cfg")
  case Pairs
  have "snd (run_pair_rounds to_vec cfg resolved turns ws) = ws'"
    using assms Pairs by (auto simp: client_test_def split: prod.splits rounds_state.splits)
  then show ?thesis using run_pair_rounds_length [of to_vec cfg resolved turns "(Playing [], ws)"] by (simp add: run_pair_rounds_def)
next
  case Mesh
  then show ?thesis
    using assms by (auto simp: client_test_def start_mesh_def send_starts_def bind_eq_Some_conv dest: send_starts_from_length
        split: option.splits sum.splits if_splits)
qed

lemma each_host_length: "each_host f err hs = Some (Inr xs) \<Longrightarrow> length xs = length hs"
  by (induction hs arbitrary: xs) (auto simp: map_sum_Inr_iff split: option.splits sum.splits)

lemma client_setup_facts:
  assumes "client_setup env cfg = Some (Inr (d, resolved, conns))"
  shows "db_metrics d = [] \<and> length conns = length (hostlist cfg) \<and> length resolved = length (hostlist cfg)"
  using assms
  by (auto simp: client_setup_def db_create_def map_sum_Inr_iff dest: each_host_length split: sum.splits option.splits if_splits)

lemma client_setup_config:
  assumes "client_setup env cfg = Some (Inr (d, resolved, conns))"
  shows "cr_tag (db_config d) = tag cfg \<and> js_strings (ce_json env) (hostlist cfg) = Some (cr_hostlist (db_config d))"
  using assms
  by (auto simp: client_setup_def db_create_def map_sum_Inr_iff split: sum.splits option.splits if_splits)

lemma client_run_db:
  assumes "client_run to_vec env cfg turns during draining = Some (Inr d, conns)"
  shows "\<exists>taken rest stored. draining = taken @ rest
    \<and> db_metrics d = map (row_of (js_peers (ce_json env)) (tag cfg) \<circ> snd) stored \<and> fst ` set stored \<subseteq> {..<length (hostlist cfg)}
    \<and> (\<forall>i<length (hostlist cfg). map snd (filter (\<lambda>p. fst p = i) stored)
        = pu_windows (pump_server (items_for i (during @ map snd taken))))
    \<and> ((\<forall>i<length (hostlist cfg). pu_status (pump_server (items_for i (during @ map snd taken))) \<noteq> Pumping)
        \<or> (\<exists>t ev rest'. rest = (t, ev) # rest' \<and> DRAIN_NS \<le> t))
    \<and> (\<forall>p\<in>set stored. storable (js_peers (ce_json env)) (snd p))
    \<and> cr_tag (db_config d) = tag cfg \<and> js_strings (ce_json env) (hostlist cfg) = Some (cr_hostlist (db_config d))"
proof -
  let ?n = "length (hostlist cfg)" and ?js = "js_peers (ce_json env)"
  obtain d0 resolved conns0 conns1 e c where su: "client_setup env cfg = Some (Inr (d0, resolved, conns0))"
    and test: "client_test to_vec cfg resolved turns conns0 = Some (Inr (), conns1)"
    and drain: "drain draining (fold collect_step during (collect_new (length (stop_all to_vec conns1)))) = Some (e, c)"
    and shut: "db_shutdown ?js (tag cfg) (co_sent c) d0 = (Inr (), d)"
    using assms by (auto simp: client_run_def Let_def split: option.splits sum.splits prod.splits)
  have n: "length (stop_all to_vec conns1) = ?n"
    using client_setup_facts [OF su] client_test_length [OF test] by (simp add: stop_all_def)
  obtain taken rest where taken: "draining = taken @ rest"
      "c = fold collect_step (map snd taken) (fold collect_step during (collect_new ?n))"
      "case e of Drained \<Rightarrow> all_joined c | Timed_out \<Rightarrow> \<exists>t ev rest'. rest = (t, ev) # rest' \<and> DRAIN_NS \<le> t"
    using drain_result [OF drain] n by auto
  let ?evs = "during @ map snd taken" and ?ps = "replicate ?n pump_new"
  let ?stored = "handed ?ps ?evs"
  have c: "c = fold collect_step ?evs (collect_new ?n)" using taken(2) by simp
  have pumps: "length (co_pumps c) = ?n" "\<forall>i<?n. co_pumps c ! i = pump_server (items_for i ?evs)"
      "co_sent c = map Metric (map snd ?stored)"
    unfolding c by (rule collect_new_run, intro allI impI, erule collect_new_run, simp only: collect_new_run(3) map_map)
  have ok: "\<forall>w\<in>set (map snd ?stored). storable ?js w" "d = d0\<lparr>db_metrics := db_metrics d0 @ map (row_of ?js (tag cfg)) (map snd ?stored)\<rparr>"
    using shut unfolding pumps(3) db_shutdown_ok by blast+
  then have "db_metrics d = map (row_of ?js (tag cfg) \<circ> snd) ?stored" by (simp add: client_setup_facts [OF su])
  moreover have "fst ` set ?stored \<subseteq> {..<?n}" using handed_bound [of _ ?ps ?evs] by auto
  moreover have "map snd (filter (\<lambda>p. fst p = i) ?stored) = pu_windows (pump_server (items_for i ?evs))" if "i < ?n" for i
    using handed_per_pump [of i ?ps ?evs] that by (simp add: pump_server_def pump_new_def)
  moreover have "(\<forall>i<?n. pu_status (pump_server (items_for i ?evs)) \<noteq> Pumping) \<or> (\<exists>t ev rest'. rest = (t, ev) # rest' \<and> DRAIN_NS \<le> t)"
    using taken(3) pumps(1,2) by (cases e) (simp_all add: all_joined_def list_all_length)
  moreover have "\<forall>p\<in>set ?stored. storable ?js (snd p)" using ok(1) by simp
  moreover have "cr_tag (db_config d) = tag cfg" "js_strings (ce_json env) (hostlist cfg) = Some (cr_hostlist (db_config d))"
    using client_setup_config [OF su] by (simp_all add: ok(2))
  ultimately show ?thesis using taken(1) by blast
qed

lemma client_run_stored:
  assumes "client_run to_vec env cfg turns during draining = Some (Inr d, conns)"
  shows "\<exists>taken rest stored. draining = taken @ rest
    \<and> db_metrics d = map (row_of (js_peers (ce_json env)) (tag cfg) \<circ> snd) stored \<and> fst ` set stored \<subseteq> {..<length (hostlist cfg)}
    \<and> (\<forall>i<length (hostlist cfg). map snd (filter (\<lambda>p. fst p = i) stored)
        = pu_windows (pump_server (items_for i (during @ map snd taken))))
    \<and> ((\<forall>i<length (hostlist cfg). pu_status (pump_server (items_for i (during @ map snd taken))) \<noteq> Pumping)
        \<or> (\<exists>t ev rest'. rest = (t, ev) # rest' \<and> DRAIN_NS \<le> t))"
  using client_run_db [OF assms] by (elim exE conjE, intro exI conjI) assumption+


text \<open>A run of two servers whose test is cancelled at once.\<close>

definition sample_cancelled :: round_turn where
  "sample_cancelled = \<lparr>tn_cancelled = True, tn_polls = []\<rparr>"

definition sample_client_env :: client_env where
  "sample_client_env =
     \<lparr>ce_json = \<lparr>js_config = (\<lambda>_. Some []), js_strings = (\<lambda>_. Some []), js_peers = (\<lambda>_. Some [])\<rparr>,
      ce_remove = (\<lambda>_. Not_found), ce_now = 0, ce_net = (\<lambda>_. sample_env),
      ce_connect = (\<lambda>_ _. Some \<lparr>written = [], room = None\<rparr>)\<rparr>"

lemma case_Some_InrD: "(case x of Some (Inr y) \<Rightarrow> Q y | _ \<Rightarrow> False) \<Longrightarrow> \<exists>y. x = Some (Inr y) \<and> Q y"
  by (cases x) (simp_all split: sum.splits)

lemma sample_client_run:
  assumes "drain draining (fold collect_step during (collect_new 2)) = Some (e, c)" "co_sent c = map Metric ws"
    "\<forall>w\<in>set ws. storable (\<lambda>_. Some []) w"
  obtains d conns where
    "client_run (\<lambda>_. Some [1]) sample_client_env sample_config [sample_cancelled] during draining = Some (Inr d, conns)"
proof -
  have "case client_setup sample_client_env sample_config of
      Some (Inr s) \<Rightarrow> \<not> isl (fst (the (client_test (\<lambda>_. Some [1]) sample_config (fst (snd s)) [sample_cancelled] (snd (snd s)))))
        \<and> client_test (\<lambda>_. Some [1]) sample_config (fst (snd s)) [sample_cancelled] (snd (snd s)) \<noteq> None
    | _ \<Rightarrow> False"
    by code_simp
  from case_Some_InrD [OF this] obtain s where s: "client_setup sample_client_env sample_config = Some (Inr s)"
      "\<not> isl (fst (the (client_test (\<lambda>_. Some [1]) sample_config (fst (snd s)) [sample_cancelled] (snd (snd s)))))"
      "client_test (\<lambda>_. Some [1]) sample_config (fst (snd s)) [sample_cancelled] (snd (snd s)) \<noteq> None"
    by blast
  obtain d resolved conns where eq: "s = (d, resolved, conns)" by (rule prod_cases3)
  obtain r conns' where t: "client_test (\<lambda>_. Some [1]) sample_config resolved [sample_cancelled] conns = Some (r, conns')"
    using s(3) by (auto simp: eq)
  then have "r = Inr ()" using s(2) by (cases r) (simp_all add: eq)
  then have su: "client_setup sample_client_env sample_config = Some (Inr (d, resolved, conns))"
      "client_test (\<lambda>_. Some [1]) sample_config resolved [sample_cancelled] conns = Some (Inr (), conns')"
    using s(1) t by (simp_all add: eq)
  have hosts: "hostlist sample_config = [''a'', ''b'']" by (simp add: sample_config_def)
  have "length (stop_all (\<lambda>_. Some [1]) conns') = 2"
    using client_setup_facts [OF su(1)] client_test_length [OF su(2)] by (simp add: stop_all_def hosts)
  moreover have "js_peers (ce_json sample_client_env) = (\<lambda>_. Some [])" by (simp add: sample_client_env_def)
  moreover obtain d' where "db_shutdown (\<lambda>_. Some []) (tag sample_config) (map Metric ws) d = (Inr (), d')"
    using assms(3) by (auto simp: db_shutdown_ok)
  ultimately show thesis using su assms(1,2) that by (simp add: client_run_def)
qed

section \<open>Properties\<close>

text \<open>C17: a run that ends well has stored exactly what its pumps have handled: the rows of the database are
  the windows of all servers, interleaved, each server's complete and in order, of the messages that arrived before
  all pumps had ended or, failing that, before the deadline of the draining.\<close>

theorem run_stores_what_arrived:
  assumes "client_run to_vec env cfg turns during draining = Some (Inr d, conns)"
  shows "\<exists>taken rest stored. draining = taken @ rest
    \<and> db_metrics d = map (row_of (js_peers (ce_json env)) (tag cfg) \<circ> snd) stored \<and> fst ` set stored \<subseteq> {..<length (hostlist cfg)}
    \<and> (\<forall>i<length (hostlist cfg). map snd (filter (\<lambda>p. fst p = i) stored)
        = pu_windows (pump_server (items_for i (during @ map snd taken))))
    \<and> ((\<forall>i<length (hostlist cfg). pu_status (pump_server (items_for i (during @ map snd taken))) \<noteq> Pumping)
        \<or> (\<exists>t ev rest'. rest = (t, ev) # rest' \<and> DRAIN_NS \<le> t))"
  by (rule client_run_stored [OF assms])

text \<open>The second server does not answer the Stop in time.\<close>

definition sample_draining :: "(nat \<times> collect_event) list" where
  "sample_draining = [(0, Arrives 0 (Inr (Ack ''stop''))), (5000000000, Arrives 1 (Inr (Ack ''stop'')))]"

theorem run_stores_what_arrived_witness:
  "\<exists>d conns taken rest stored. client_run (\<lambda>_. Some [1]) sample_client_env sample_config [sample_cancelled]
      [Arrives 0 (Inr (Metrics (sample_window 5)))] sample_draining = Some (Inr d, conns)
    \<and> sample_draining = taken @ rest \<and> db_metrics d = map (row_of (\<lambda>_. Some []) ''t'' \<circ> snd) stored
    \<and> fst ` set stored \<subseteq> {..<2 :: nat}"
proof -
  let ?during = "[Arrives 0 (Inr (Metrics (sample_window 5)))]"
  let ?c = "fold collect_step (?during @ [Arrives 0 (Inr (Ack ''stop''))]) (collect_new 2)"
  have pumps: "co_pumps (fold collect_step ?during (collect_new 2)) ! 1 = pump_new" "co_pumps ?c ! 1 = pump_new"
    by (subst collect_new_run(2), simp, simp add: pump_server_def)+
  have "\<not> all_joined (fold collect_step ?during (collect_new 2))" "\<not> all_joined ?c"
    using pumps by (auto simp: all_joined_def list_all_length collect_new_run pump_new_def intro!: exI [of _ 1] simp del: fold.simps fold_append)
  then have dr: "drain sample_draining (fold collect_step ?during (collect_new 2)) = Some (Timed_out, ?c)"
    by (simp add: sample_draining_def DRAIN_NS_def)
  have sent: "co_sent ?c = map Metric [sample_window 5]"
    using collect_run [of "?during @ [Arrives 0 (Inr (Ack ''stop''))]" "collect_new 2"]
    by (simp add: collect_new_def pump_gains_def pump_step_def pump_new_def)
  have "\<forall>w\<in>set [sample_window 5]. storable (\<lambda>_. Some []) w"
    by (simp add: storable_def sample_window_def build_window_def bps_value)
  with sample_client_run [OF dr sent] obtain d conns where run:
      "client_run (\<lambda>_. Some [1]) sample_client_env sample_config [sample_cancelled] ?during sample_draining = Some (Inr d, conns)"
    by blast
  have eqs: "js_peers (ce_json sample_client_env) = (\<lambda>_. Some [])" "tag sample_config = ''t''"
      "length (hostlist sample_config) = 2"
    by (simp_all add: sample_client_env_def sample_config_def)
  from run_stores_what_arrived [OF run, unfolded eqs] show ?thesis
    by (elim exE conjE, intro exI conjI) (rule run, assumption+)
qed

end
