(* ===== verification/Analyze.thy ===== *)
theory Analyze
  imports Db Format "HOL-Library.Char_ord" "HOL-Library.List_Lexorder" "HOL-Library.Product_Lexorder"
begin

text \<open>
  \<open>src/src/analyze.rs\<close>: the command line of \<open>tperf analyze\<close>, the check of the database file, the statistics
  of a list of samples, their aggregation per pair of hosts and per second, and the report. The rows
  come from a database of theory Db; JSON is a parameter.
\<close>

section \<open>Arguments\<close>

datatype args_error = Db_requires_path | Usage | Unexpected string | Missing_db

fun parse_from :: "string option \<Rightarrow> string list \<Rightarrow> args_error + string" where
  "parse_from db [] = (case db of Some p \<Rightarrow> Inr p | None \<Rightarrow> Inl Missing_db)"
| "parse_from db (a # args) =
     (if a = ''--db'' then
        (case args of
           path # args \<Rightarrow> parse_from (Some path) args
         | [] \<Rightarrow> Inl Db_requires_path)
      else case strip_prefix ''--db='' a of
        Some path \<Rightarrow> if path = [] then Inl Db_requires_path else parse_from (Some path) args
      | None \<Rightarrow> if a = ''-h'' \<or> a = ''--help'' then Inl Usage else Inl (Unexpected a))"

definition parse_args :: "string list \<Rightarrow> args_error + string" where
  "parse_args args = parse_from None args"

datatype file_kind = Absent | Directory | Regular_file | Other_file

datatype path_error = Empty_path | Is_directory string | File_not_found string | Not_a_file string

definition require_db_file :: "(string \<Rightarrow> file_kind) \<Rightarrow> string \<Rightarrow> path_error + unit" where
  "require_db_file kind path =
     (if path = [] then Inl Empty_path
      else if kind path = Directory then Inl (Is_directory path)
      else if kind path = Absent then Inl (File_not_found path)
      else if kind path \<noteq> Regular_file then Inl (Not_a_file path)
      else Inr ())"

section \<open>Statistics of samples\<close>

text \<open>A sample: bytes and nanoseconds.\<close>

type_synonym sample = "u64 \<times> u64"

record rate_stats =
  min_bps :: f64
  max_bps :: f64
  avg_bps :: f64
  windows :: nat

definition f64_of_u128 :: "128 word \<Rightarrow> f64" where
  "f64_of_u128 w = rnd (of_int (uint w))"

definition from_samples :: "sample list \<Rightarrow> rate_stats option" where
  "from_samples samples =
     (if samples = [] then None
      else
        let (lo, hi, bytes, duration_ns) =
              fold (\<lambda>(b, d) (lo, hi, bytes, duration_ns).
                  let r = bps b d in
                  (if flt r lo then r else lo, if flt hi r then r else hi, saturating_add bytes b,
                   saturating_add duration_ns (ucast d :: 128 word)))
                samples (PInf, Fin 0, 0, 0);
            avg = (if duration_ns = 0 then Fin 0
                   else fdiv (fmul (fmul (f64_of_u64 bytes) (Fin 8)) (Fin 1000000000)) (f64_of_u128 duration_ns))
        in Some \<lparr>min_bps = lo, max_bps = hi, avg_bps = avg, windows = length samples\<rparr>)"

section \<open>Rows\<close>

definition MIN_WINDOW_NS :: u64 where "MIN_WINDOW_NS = 50000000"

record raw_row =
  rr_server :: string
  rr_wall_start_ns :: u64
  rr_duration_ns :: u64
  rr_bytes_sent :: u64
  rr_send_bps :: f64
  rr_peers_json :: string

definition raw_row_of :: "metric_row \<Rightarrow> raw_row" where
  "raw_row_of r =
     \<lparr>rr_server = mr_server r, rr_wall_start_ns = as_u64 (mr_wall_start_ns r), rr_duration_ns = as_u64 (mr_duration_ns r),
      rr_bytes_sent = as_u64 (mr_bytes_sent r), rr_send_bps = mr_send_bps r, rr_peers_json = mr_peers_json r\<rparr>"

text \<open>\<open>SELECT ... ORDER BY wall_start_ns, server\<close>: integers by value, texts by their bytes; ties in the
  order of insertion.\<close>

definition select_metrics :: "db \<Rightarrow> raw_row list" where
  "select_metrics d = map raw_row_of (sort_key (\<lambda>r. (mr_wall_start_ns r, mr_server r)) (db_metrics d))"

section \<open>Aggregation\<close>

text \<open>A \<open>BTreeMap\<close> as its entries in ascending order; \<open>entry(k)\<close> with what becomes of an absent or
  present value.\<close>

fun update_entry :: "('v option \<Rightarrow> 'v) \<Rightarrow> 'k::linorder \<Rightarrow> ('k \<times> 'v) list \<Rightarrow> ('k \<times> 'v) list" where
  "update_entry f k [] = [(k, f None)]"
| "update_entry f k ((k', v) # es) =
     (if k = k' then (k', f (Some v)) # es
      else if k < k' then (k, f None) # (k', v) # es
      else (k', v) # update_entry f k es)"

text \<open>\<open>entry(k).or_default().push(x)\<close> and \<open>*entry(k).or_insert(0.0) += x\<close>\<close>

definition push_sample :: "'k::linorder \<Rightarrow> 's \<Rightarrow> ('k \<times> 's list) list \<Rightarrow> ('k \<times> 's list) list" where
  "push_sample k x = update_entry (\<lambda>v. (case v of Some xs \<Rightarrow> xs | None \<Rightarrow> []) @ [x]) k"

definition add_rate :: "u64 \<Rightarrow> f64 \<Rightarrow> (u64 \<times> f64) list \<Rightarrow> (u64 \<times> f64) list" where
  "add_rate k x = update_entry (\<lambda>v. fadd (case v of Some y \<Rightarrow> y | None \<Rightarrow> Fin 0) x) k"

record tables =
  pair_samples :: "((string \<times> string) \<times> sample list) list"
  bucket_bps :: "(u64 \<times> f64) list"
  total_samples :: "sample list"

definition no_tables :: tables where
  "no_tables = \<lparr>pair_samples = [], bucket_bps = [], total_samples = []\<rparr>"

definition add_peer :: "raw_row \<Rightarrow> peer_metrics \<Rightarrow> tables \<Rightarrow> tables" where
  "add_peer row p ts =
     (if pm_peer p = rr_server row then ts
      else if pm_bytes_sent p = 0 \<or> rr_duration_ns row < MIN_WINDOW_NS then ts
      else ts\<lparr>pair_samples := push_sample (rr_server row, pm_peer p) (pm_bytes_sent p, rr_duration_ns row) (pair_samples ts)\<rparr>)"

definition add_row :: "raw_row \<Rightarrow> peer_metrics list \<Rightarrow> tables \<Rightarrow> tables" where
  "add_row row peers ts =
     (let ts = fold (add_peer row) peers ts in
      if MIN_WINDOW_NS \<le> rr_duration_ns row \<and> 0 < rr_bytes_sent row
      then ts\<lparr>bucket_bps := add_rate (rr_wall_start_ns row div 1000000000) (rr_send_bps row) (bucket_bps ts),
              total_samples := total_samples ts @ [(rr_bytes_sent row, rr_duration_ns row)]\<rparr>
      else ts)"

fun add_rows :: "(string \<Rightarrow> peer_metrics list option) \<Rightarrow> raw_row list \<Rightarrow> tables \<Rightarrow> string + tables" where
  "add_rows peers_of_json [] ts = Inr ts"
| "add_rows peers_of_json (row # rows) ts =
     (case peers_of_json (rr_peers_json row) of
        None \<Rightarrow> Inl (rr_server row)
      | Some peers \<Rightarrow> add_rows peers_of_json rows (add_row row peers ts))"

section \<open>The report\<close>

record pair_stats =
  ps_src :: string
  ps_dst :: string
  ps_stats :: rate_stats

record report =
  rp_db_path :: string
  rp_tag :: string
  rp_hosts :: "string list"
  rp_pairs :: "pair_stats list"
  rp_total :: rate_stats

datatype load_error = Bad_path path_error | Bad_peers_json string | No_metrics string

definition fmin :: "f64 \<Rightarrow> f64 \<Rightarrow> f64" where
  "fmin a b = (if a = NaN then b else if b = NaN then a else if flt b a then b else a)"

definition fmax :: "f64 \<Rightarrow> f64 \<Rightarrow> f64" where
  "fmax a b = (if a = NaN then b else if b = NaN then a else if flt a b then b else a)"

definition pair_list :: "tables \<Rightarrow> pair_stats list" where
  "pair_list ts =
     List.map_filter (\<lambda>((src, dst), samples). map_option (\<lambda>st. \<lparr>ps_src = src, ps_dst = dst, ps_stats = st\<rparr>) (from_samples samples))
       (pair_samples ts)"

definition total_stats :: "tables \<Rightarrow> rate_stats option" where
  "total_stats ts =
     map_option (\<lambda>st.
         let rates = map snd (bucket_bps ts) in
         if rates = [] then st
         else st\<lparr>min_bps := fold (\<lambda>x a. fmin a x) rates PInf, max_bps := fold (\<lambda>x a. fmax a x) rates (Fin 0),
                avg_bps := fdiv (fold (\<lambda>x a. fadd a x) rates (Fin 0)) (f64_of_u64 (of_nat (length rates))),
                windows := length rates\<rparr>)
       (from_samples (total_samples ts))"

text \<open>The hosts fall back to none when their text does not parse; the database and the path shown are the
  environment's.\<close>

definition load ::
  "(string \<Rightarrow> file_kind) \<Rightarrow> (string \<Rightarrow> string list option) \<Rightarrow> (string \<Rightarrow> peer_metrics list option) \<Rightarrow> (string \<Rightarrow> string)
   \<Rightarrow> (string \<Rightarrow> db) \<Rightarrow> string \<Rightarrow> load_error + report" where
  "load kind strings_of_json peers_of_json display open_db path =
     (case require_db_file kind path of Inl e \<Rightarrow> Inl (Bad_path e)
      | Inr _ \<Rightarrow>
        let d = open_db path;
            hosts = (case strings_of_json (cr_hostlist (db_config d)) of Some hs \<Rightarrow> hs | None \<Rightarrow> []) in
        (case add_rows peers_of_json (select_metrics d) no_tables of Inl server \<Rightarrow> Inl (Bad_peers_json server)
         | Inr ts \<Rightarrow>
           (case total_stats ts of None \<Rightarrow> Inl (No_metrics path)
            | Some total_st \<Rightarrow>
                Inr \<lparr>rp_db_path = display path, rp_tag = cr_tag (db_config d), rp_hosts = hosts, rp_pairs = pair_list ts,
                     rp_total = total_st\<rparr>)))"

text \<open>The worst pairs: a stable sort by average, then minimum, of which the first five are kept.
  \<open>partial_cmp\<close> gives no order for NaN, which counts as equal.\<close>

definition worse_or_equal :: "pair_stats \<Rightarrow> pair_stats \<Rightarrow> bool" where
  "worse_or_equal a b =
     (let avg_a = avg_bps (ps_stats a); avg_b = avg_bps (ps_stats b) in
      if flt avg_a avg_b then True else if flt avg_b avg_a then False
      else \<not> flt (min_bps (ps_stats b)) (min_bps (ps_stats a)))"

fun insort_by :: "('a \<Rightarrow> 'a \<Rightarrow> bool) \<Rightarrow> 'a \<Rightarrow> 'a list \<Rightarrow> 'a list" where
  "insort_by le x [] = [x]"
| "insort_by le x (y # ys) = (if le x y then x # y # ys else y # insort_by le x ys)"

definition sort_by :: "('a \<Rightarrow> 'a \<Rightarrow> bool) \<Rightarrow> 'a list \<Rightarrow> 'a list" where
  "sort_by le xs = foldr (insort_by le) xs []"

definition worst_pairs :: "pair_stats list \<Rightarrow> pair_stats list" where
  "worst_pairs ps = take 5 (sort_by worse_or_equal ps)"

section \<open>Lines of the report\<close>

text \<open>The arrow is U+2192, three bytes of UTF-8.\<close>

definition ARROW :: string where
  "ARROW = [CHR 0xE2, CHR 0x86, CHR 0x92]"

definition pair_label :: "pair_stats \<Rightarrow> string" where
  "pair_label p = ''['' @ ps_src p @ '' '' @ ARROW @ '' '' @ ps_dst p @ '']''"

definition label_width :: "pair_stats list \<Rightarrow> nat" where
  "label_width ps = (if ps = [] then 8 else Max (set (map (\<lambda>p. length (ps_src p) + length (ps_dst p) + 4) ps)))"

definition format_pair_line :: "pair_stats \<Rightarrow> nat \<Rightarrow> string" where
  "format_pair_line p label_w =
     pad_right label_w (pair_label p) @ ''  min='' @ fmt_bps (min_bps (ps_stats p)) @ ''   avg='' @ fmt_bps (avg_bps (ps_stats p))
     @ ''   max='' @ fmt_bps (max_bps (ps_stats p))"

definition print_report :: "report \<Rightarrow> string list" where
  "print_report r =
     (let n = length (rp_hosts r);
          worst = worst_pairs (rp_pairs r)
      in [''tperf analyze  db='' @ rp_db_path r @ ''  tag='' @ rp_tag r @ ''  hosts='' @ show_nat n,
          ''directed pairs: '' @ show_nat (length (rp_pairs r)) @ ''/'' @ show_nat (n * (n - 1))
            @ ''  (every host '' @ ARROW @ '' every other)'',
          [], ''pairs (all time)'', ''----------------'']
         @ (if rp_pairs r = [] then [''(no pair samples)'']
            else map (\<lambda>p. format_pair_line p (label_width (rp_pairs r))) (rp_pairs r))
         @ [[], ''total throughput (all time)'', ''---------------------------'',
            pad_right 12 ''[all]'' @ ''  min='' @ fmt_bps (min_bps (rp_total r)) @ ''   avg='' @ fmt_bps (avg_bps (rp_total r))
              @ ''   max='' @ fmt_bps (max_bps (rp_total r)),
            [], ''worst pairs'', ''-----------'']
         @ (if worst = [] then [''(no pair samples)'']
            else map (\<lambda>(i, p). pad_left 2 (show_nat i) @ ''. '' @ format_pair_line p (label_width worst)) (enumerate 1 worst)))"

section \<open>Facts about the maps\<close>

abbreviation ascending :: "('k::linorder \<times> 'v) list \<Rightarrow> bool" where
  "ascending es \<equiv> sorted_wrt (<) (map fst es)"

lemma update_entry_keys: "fst ` set (update_entry f k es) = insert k (fst ` set es)"
proof (induction es)
  case (Cons e es)
  then show ?case by (cases e; cases k "fst e" rule: linorder_cases) auto
qed simp

lemma update_entry_ascending: "ascending es \<Longrightarrow> ascending (update_entry f k es)"
proof (induction es)
  case (Cons e es)
  obtain k' v where e: "e = (k', v)" by (rule prod.exhaust)
  have "\<forall>x\<in>fst ` set (update_entry f k es). k' < x" if "k' < k"
    using that Cons.prems e by (simp add: update_entry_keys)
  then show ?case using Cons e by (cases k k' rule: linorder_cases) (auto intro: less_trans)
qed simp

lemma map_of_update_entry:
  "ascending es \<Longrightarrow> map_of (update_entry f k es) = (map_of es)(k \<mapsto> f (map_of es k))"
proof (induction es)
  case (Cons e es)
  obtain k' v where e: "e = (k', v)" by (rule prod.exhaust)
  have "map_of (e # es) k = None" if "k < k'" using that Cons.prems e by (auto simp: map_of_eq_None_iff)
  then show ?case using Cons e by (cases k k' rule: linorder_cases) (auto simp: fun_eq_iff)
qed simp

section \<open>Facts about the aggregation\<close>

text \<open>The samples of a pair in a row, and of the rows; the seconds and the rates of a second.\<close>

definition row_samples :: "string \<Rightarrow> string \<Rightarrow> raw_row \<Rightarrow> peer_metrics list \<Rightarrow> sample list" where
  "row_samples src dst row peers =
     (if rr_server row = src \<and> dst \<noteq> src \<and> MIN_WINDOW_NS \<le> rr_duration_ns row
      then map (\<lambda>p. (pm_bytes_sent p, rr_duration_ns row)) (filter (\<lambda>p. pm_peer p = dst \<and> pm_bytes_sent p \<noteq> 0) peers)
      else [])"

definition counted :: "raw_row \<Rightarrow> bool" where
  "counted row \<longleftrightarrow> MIN_WINDOW_NS \<le> rr_duration_ns row \<and> 0 < rr_bytes_sent row"

definition second_rates :: "u64 \<Rightarrow> raw_row list \<Rightarrow> f64 list" where
  "second_rates sec rows = map rr_send_bps (filter (\<lambda>r. counted r \<and> rr_wall_start_ns r div 1000000000 = sec) rows)"

definition pair_samples_of :: "(string \<Rightarrow> peer_metrics list option) \<Rightarrow> string \<Rightarrow> string \<Rightarrow> raw_row list \<Rightarrow> sample list" where
  "pair_samples_of pj src dst rows =
     concat (map (\<lambda>row. row_samples src dst row (case pj (rr_peers_json row) of Some ps \<Rightarrow> ps | None \<Rightarrow> [])) rows)"

definition samples_at :: "string \<times> string \<Rightarrow> tables \<Rightarrow> sample list" where
  "samples_at k ts = (case map_of (pair_samples ts) k of Some xs \<Rightarrow> xs | None \<Rightarrow> [])"

text \<open>The tables hold no empty list, and their keys ascend.\<close>

definition tables_ok :: "tables \<Rightarrow> bool" where
  "tables_ok ts \<longleftrightarrow>
     ascending (pair_samples ts) \<and> ascending (bucket_bps ts) \<and> (\<forall>(k, xs)\<in>set (pair_samples ts). xs \<noteq> [])"

lemma add_peer_fields [simp]:
  "bucket_bps (add_peer row p ts) = bucket_bps ts" "total_samples (add_peer row p ts) = total_samples ts"
  by (simp_all add: add_peer_def)

lemma fold_add_peer_fields [simp]:
  "bucket_bps (fold (add_peer row) ps ts) = bucket_bps ts" "total_samples (fold (add_peer row) ps ts) = total_samples ts"
  by (induction ps arbitrary: ts) simp_all

lemma push_sample_values:
  assumes "\<forall>(k, xs)\<in>set es. xs \<noteq> []"
  shows "\<forall>(k, xs)\<in>set (push_sample k x es). xs \<noteq> []"
  using assms unfolding push_sample_def by (induction es) (auto split: if_splits)

lemma add_peer_ok: "tables_ok ts \<Longrightarrow> tables_ok (add_peer row p ts)"
  unfolding tables_ok_def add_peer_def
  by (auto simp: push_sample_def update_entry_ascending dest: push_sample_values [unfolded push_sample_def])

lemma add_peer_samples:
  assumes "tables_ok ts"
  shows "samples_at (src, dst) (add_peer row p ts) = samples_at (src, dst) ts @ row_samples src dst row [p]"
  using assms
  by (auto simp: samples_at_def add_peer_def row_samples_def push_sample_def tables_ok_def map_of_update_entry not_less
      split: option.splits)

lemma row_samples_Cons: "row_samples src dst row (p # ps) = row_samples src dst row [p] @ row_samples src dst row ps"
  by (simp add: row_samples_def)

lemma fold_add_peer:
  "tables_ok ts \<Longrightarrow> tables_ok (fold (add_peer row) ps ts)
    \<and> samples_at (src, dst) (fold (add_peer row) ps ts) = samples_at (src, dst) ts @ row_samples src dst row ps"
proof (induction ps arbitrary: ts)
  case Nil
  then show ?case by (simp add: row_samples_def)
next
  case (Cons p ps)
  then show ?case using Cons.IH [OF add_peer_ok] row_samples_Cons [of src dst row p ps] by (simp add: add_peer_samples)
qed

definition rate_at :: "u64 \<Rightarrow> tables \<Rightarrow> f64 option" where
  "rate_at sec ts = map_of (bucket_bps ts) sec"

definition add_rates :: "f64 option \<Rightarrow> f64 list \<Rightarrow> f64 option" where
  "add_rates r xs = (if xs = [] then r else Some (foldl fadd (case r of Some y \<Rightarrow> y | None \<Rightarrow> Fin 0) xs))"

lemma add_rates_append: "add_rates (add_rates r xs) ys = add_rates r (xs @ ys)"
  by (simp add: add_rates_def)

lemma add_row_facts:
  assumes "tables_ok ts"
  shows "tables_ok (add_row row peers ts)"
    "samples_at (src, dst) (add_row row peers ts) = samples_at (src, dst) ts @ row_samples src dst row peers"
    "rate_at sec (add_row row peers ts) = add_rates (rate_at sec ts) (second_rates sec [row])"
    "total_samples (add_row row peers ts) = total_samples ts @ (if counted row then [(rr_bytes_sent row, rr_duration_ns row)] else [])"
proof -
  note * = fold_add_peer [OF assms, of row peers src dst]
  show "tables_ok (add_row row peers ts)"
    using * by (auto simp: add_row_def Let_def tables_ok_def add_rate_def update_entry_ascending)
  show "samples_at (src, dst) (add_row row peers ts) = samples_at (src, dst) ts @ row_samples src dst row peers"
    using * by (simp add: add_row_def Let_def samples_at_def)
  show "rate_at sec (add_row row peers ts) = add_rates (rate_at sec ts) (second_rates sec [row])"
    using assms by (auto simp: add_row_def Let_def rate_at_def add_rates_def second_rates_def counted_def add_rate_def
        tables_ok_def map_of_update_entry)
  show "total_samples (add_row row peers ts) = total_samples ts @ (if counted row then [(rr_bytes_sent row, rr_duration_ns row)] else [])"
    by (simp add: add_row_def Let_def counted_def)
qed

lemma add_rows_facts:
  assumes "add_rows pj rows ts = Inr ts'" "tables_ok ts"
  shows "tables_ok ts' \<and> samples_at (src, dst) ts' = samples_at (src, dst) ts @ pair_samples_of pj src dst rows
    \<and> rate_at sec ts' = add_rates (rate_at sec ts) (second_rates sec rows)
    \<and> total_samples ts' = total_samples ts @ map (\<lambda>r. (rr_bytes_sent r, rr_duration_ns r)) (filter counted rows)"
  using assms
proof (induction rows arbitrary: ts)
  case Nil
  then show ?case by (simp add: pair_samples_of_def add_rates_def second_rates_def)
next
  case (Cons row rows)
  then obtain peers where p: "pj (rr_peers_json row) = Some peers" "add_rows pj rows (add_row row peers ts) = Inr ts'"
    by (auto split: option.splits)
  have "second_rates sec (row # rows) = second_rates sec [row] @ second_rates sec rows" by (simp add: second_rates_def)
  then show ?case
    using Cons.IH [OF p(2) add_row_facts(1) [OF Cons.prems(2)]] add_row_facts(2-4) [OF Cons.prems(2)] p(1)
    by (simp add: pair_samples_of_def add_rates_append)
qed

section \<open>Facts about statistics\<close>

text \<open>The four values that the loop of \<open>from_samples\<close> keeps.\<close>

definition sample_step :: "sample \<Rightarrow> f64 \<times> f64 \<times> u64 \<times> 128 word \<Rightarrow> f64 \<times> f64 \<times> u64 \<times> 128 word" where
  "sample_step = (\<lambda>(b, d) (lo, hi, bytes, duration_ns).
     let r = bps b d in
     (if flt r lo then r else lo, if flt hi r then r else hi, saturating_add bytes b,
      saturating_add duration_ns (ucast d :: 128 word)))"

definition samples_summed :: "sample list \<Rightarrow> f64 \<times> f64 \<times> u64 \<times> 128 word \<Rightarrow> bool" where
  "samples_summed samples st =
     (case st of (lo, hi, bytes, duration_ns) \<Rightarrow>
        (if samples = [] then lo = PInf else \<exists>(b, d)\<in>set samples. lo = bps b d)
        \<and> (\<forall>(b, d)\<in>set samples. fle lo (bps b d) \<and> fle (bps b d) hi)
        \<and> (hi = Fin 0 \<or> (\<exists>(b, d)\<in>set samples. hi = bps b d))
        \<and> unat bytes = min (sum_list (map (unat \<circ> fst) samples)) (2 ^ 64 - 1)
        \<and> unat duration_ns = min (sum_list (map (unat \<circ> snd) samples)) (2 ^ 128 - 1))"

lemma fle_trans: "fle a b \<Longrightarrow> fle b c \<Longrightarrow> fle a c"
  by (cases a; cases b; cases c) (auto simp: fle_def)

lemma fle_linear: "a \<noteq> NaN \<Longrightarrow> b \<noteq> NaN \<Longrightarrow> \<not> flt a b \<longleftrightarrow> fle b a"
  by (cases a; cases b) (auto simp: fle_def)

lemma flt_fle: "flt a b \<Longrightarrow> fle a b"
  by (simp add: fle_def)

lemma saturating_sum: "min (min s m + n) m = min (s + n) m" for s m n :: nat
  by (simp add: min_def)

lemma samples_summed_step:
  assumes "samples_summed samples (lo, hi, bytes, duration_ns)"
  shows "samples_summed (samples @ [(b, d)]) (sample_step (b, d) (lo, hi, bytes, duration_ns))"
proof -
  obtain r where r: "bps b d = Fin r" "0 \<le> r" by (rule bps_finite)
  have lo0: "if samples = [] then lo = PInf else \<exists>(b, d)\<in>set samples. lo = bps b d"
    and bounds: "\<forall>(b, d)\<in>set samples. fle lo (bps b d) \<and> fle (bps b d) hi"
    and hi0: "hi = Fin 0 \<or> (\<exists>(b, d)\<in>set samples. hi = bps b d)"
    and sums: "unat bytes = min (sum_list (map (unat \<circ> fst) samples)) (2 ^ 64 - 1)"
      "unat duration_ns = min (sum_list (map (unat \<circ> snd) samples)) (2 ^ 128 - 1)"
    using assms by (simp_all add: samples_summed_def)
  have not_nan: "bps b' d' \<noteq> NaN" for b' d' by (metis bps_finite f64.distinct(5))
  have lo: "lo \<noteq> NaN" using lo0 not_nan by (auto split: if_splits)
  have hi: "hi \<noteq> NaN" using hi0 not_nan [symmetric] by auto
  let ?lo = "if flt (Fin r) lo then Fin r else lo" and ?hi = "if flt hi (Fin r) then Fin r else hi"
  have le: "fle ?lo lo" "fle ?lo (Fin r)" "fle hi ?hi" "fle (Fin r) ?hi"
    using lo hi fle_linear [of "Fin r" lo] fle_linear [of hi "Fin r"] by (auto simp: fle_def)
  have "\<exists>(b', d')\<in>set (samples @ [(b, d)]). ?lo = bps b' d'"
  proof (cases "samples = []")
    case True
    then show ?thesis using lo0 r by simp
  next
    case False
    then show ?thesis using lo0 r by auto
  qed
  moreover have "fle ?lo (bps b' d') \<and> fle (bps b' d') ?hi" if "(b', d') \<in> set (samples @ [(b, d)])" for b' d'
  proof (cases "(b', d') \<in> set samples")
    case True
    then have "fle lo (bps b' d')" "fle (bps b' d') hi" using bounds by auto
    then show ?thesis using fle_trans [OF le(1)] fle_trans [OF _ le(3)] by blast
  next
    case False
    then show ?thesis using that le(2,4) r(1) by simp
  qed
  then have "\<forall>(b', d')\<in>set (samples @ [(b, d)]). fle ?lo (bps b' d') \<and> fle (bps b' d') ?hi" by blast
  moreover have "?hi = Fin 0 \<or> (\<exists>(b', d')\<in>set (samples @ [(b, d)]). ?hi = bps b' d')" using hi0 r(1) by auto
  moreover have "unat (saturating_add bytes b) = min (sum_list (map (unat \<circ> fst) (samples @ [(b, d)]))) (2 ^ 64 - 1)"
    using sums(1) saturating_sum [of _ "2 ^ 64 - 1"] by (simp add: unat_saturating_add)
  moreover have "unat (saturating_add duration_ns (ucast d :: 128 word))
      = min (sum_list (map (unat \<circ> snd) (samples @ [(b, d)]))) (2 ^ 128 - 1)"
  proof -
    have "unat d < 2 ^ 64" using unsigned_less [of d] by simp
    then have "unat (ucast d :: 128 word) = unat d" by (simp add: unsigned_ucast_eq take_bit_nat_eq_self_iff)
    then show ?thesis using sums(2) saturating_sum [of _ "2 ^ 128 - 1"] by (simp add: unat_saturating_add)
  qed
  ultimately show ?thesis
    by (simp only: samples_summed_def sample_step_def Let_def prod.case r(1) append_is_Nil_conv list.distinct simp_thms if_False)
qed

lemma from_samples_fold:
  assumes "from_samples samples = Some st"
  obtains lo hi bytes duration_ns where "samples_summed samples (lo, hi, bytes, duration_ns)" "samples \<noteq> []"
    "st = \<lparr>min_bps = lo, max_bps = hi,
       avg_bps = (if duration_ns = 0 then Fin 0
                  else fdiv (fmul (fmul (f64_of_u64 bytes) (Fin 8)) (Fin 1000000000)) (f64_of_u128 duration_ns)),
       windows = length samples\<rparr>"
proof -
  have "samples_summed xs (fold sample_step xs (PInf, Fin 0, 0, 0))" for xs
  proof (induction xs rule: rev_induct)
    case Nil
    then show ?case by (simp add: samples_summed_def)
  next
    case (snoc x xs)
    then show ?case by (cases x; cases "fold sample_step xs (PInf, Fin 0, 0, 0)") (simp add: samples_summed_step)
  qed
  moreover obtain lo hi bytes duration_ns where f: "fold sample_step samples (PInf, Fin 0, 0, 0) = (lo, hi, bytes, duration_ns)"
    by (rule prod_cases4)
  ultimately have "samples_summed samples (lo, hi, bytes, duration_ns)" by metis
  moreover have "samples \<noteq> []" using assms by (auto simp: from_samples_def)
  moreover from this have "from_samples samples = Some \<lparr>min_bps = lo, max_bps = hi,
      avg_bps = (if duration_ns = 0 then Fin 0
                 else fdiv (fmul (fmul (f64_of_u64 bytes) (Fin 8)) (Fin 1000000000)) (f64_of_u128 duration_ns)),
      windows = length samples\<rparr>"
    using f [unfolded sample_step_def] by (simp add: from_samples_def)
  ultimately show thesis using assms by (intro that) simp_all
qed

text \<open>The statistics do not depend on the order of the samples.\<close>

lemma saturating_add_commutes: "saturating_add (saturating_add s a) b = saturating_add (saturating_add s b) a"
proof (rule word_unat_eq_iff [THEN iffD2])
  show "unat (saturating_add (saturating_add s a) b) = unat (saturating_add (saturating_add s b) a)"
    by (simp only: unat_saturating_add saturating_sum add.assoc add.commute [of "unat a"])
qed

lemma pick_commutes:
  assumes "a \<noteq> NaN" "b \<noteq> NaN"
  shows "(let lo = (if flt a lo then a else lo) in if flt b lo then b else lo)
      = (let lo = (if flt b lo then b else lo) in if flt a lo then a else lo)"
    "(let hi = (if flt hi a then a else hi) in if flt hi b then b else hi)
      = (let hi = (if flt hi b then b else hi) in if flt hi a then a else hi)"
  using assms by (cases a; cases b; cases lo; cases hi; simp add: Let_def)+

lemma sample_step_commutes: "sample_step x \<circ> sample_step y = sample_step y \<circ> sample_step x"
proof
  fix st :: "f64 \<times> f64 \<times> u64 \<times> 128 word"
  obtain b d where x: "x = (b, d)" by (rule prod.exhaust)
  obtain b' d' where y: "y = (b', d')" by (rule prod.exhaust)
  obtain lo hi bytes dur where st: "st = (lo, hi, bytes, dur)" by (rule prod_cases4)
  have "bps b d \<noteq> NaN" "bps b' d' \<noteq> NaN" by (metis bps_finite f64.distinct(5))+
  from pick_commutes [OF this] show "(sample_step x \<circ> sample_step y) st = (sample_step y \<circ> sample_step x) st"
    by (simp add: x y st sample_step_def saturating_add_commutes [of bytes] saturating_add_commutes [of dur] Let_def)
qed

lemma from_samples_mset:
  assumes "mset xs = mset ys"
  shows "from_samples xs = from_samples ys"
proof -
  have "fold sample_step xs = fold sample_step ys"
    using assms sample_step_commutes by (intro fold_multiset_equiv) auto
  moreover have "length xs = length ys" "xs = [] \<longleftrightarrow> ys = []" using assms by (auto dest: mset_eq_length)
  ultimately show ?thesis unfolding from_samples_def sample_step_def by simp
qed

text \<open>The average rate is finite, and within five roundings of the total bits over the total time.\<close>

lemma u128_rval:
  assumes "w \<noteq> 0"
  shows "f64_of_u128 w = Fin (rval (of_int (uint w)))" "(1 :: rat) \<le> of_int (uint w)" "(of_int (uint w) :: rat) \<le> pow2 128"
proof -
  have "uint w \<le> 2 ^ 128" using uint_lt2p [of w] by simp
  then have "rat_of_int (uint w) \<le> of_int (2 ^ 128)" by (simp only: of_int_le_iff)
  then show le: "(of_int (uint w) :: rat) \<le> pow2 128" by simp
  have "uint w \<noteq> 0" using assms by (simp add: uint_0_iff)
  then have "1 \<le> uint w" using uint_ge_0 [of w] by linarith
  then show ge: "(1 :: rat) \<le> of_int (uint w)" by (simp only: of_int_1_le_iff)
  show "f64_of_u128 w = Fin (rval (of_int (uint w)))"
    unfolding f64_of_u128_def by (rule rnd_finite) (use ge le pow2_mono [of 128 1023] in \<open>auto intro: order_trans\<close>)
qed

lemma average_value:
  assumes "w \<noteq> 0"
  shows "fdiv (fmul (fmul (f64_of_u64 b) (Fin 8)) (Fin 1000000000)) (f64_of_u128 w)
    = Fin (rate_value (of_int (uint b)) (of_int (uint w)))"
proof -
  have "1 \<le> rval (of_int (uint w))" using u128_rval(2) [OF assms] by (rule rval_ge_1)
  from rate_quotient [OF u64_real_bounds this, of b] show ?thesis
    by (simp only: rate_numerator u128_rval(1) [OF assms] rate_value_def)
qed

definition finite_stats :: "rate_stats \<Rightarrow> bool" where
  "finite_stats st \<longleftrightarrow> (\<exists>x y. avg_bps st = Fin x \<and> min_bps st = Fin y)"

lemma from_samples_finite:
  assumes "from_samples samples = Some st"
  shows "finite_stats st"
proof -
  obtain lo hi bytes duration_ns where f: "samples_summed samples (lo, hi, bytes, duration_ns)" "samples \<noteq> []"
    "st = \<lparr>min_bps = lo, max_bps = hi,
       avg_bps = (if duration_ns = 0 then Fin 0
                  else fdiv (fmul (fmul (f64_of_u64 bytes) (Fin 8)) (Fin 1000000000)) (f64_of_u128 duration_ns)),
       windows = length samples\<rparr>"
    using assms by (rule from_samples_fold)
  obtain b d where "lo = bps b d" using f(1,2) by (auto simp: samples_summed_def)
  then obtain y where "lo = Fin y" by (metis bps_finite)
  then show ?thesis using f(3) average_value by (auto simp: finite_stats_def)
qed

section \<open>Facts about sorting\<close>

locale total_preorder =
  fixes A :: "'a set" and le :: "'a \<Rightarrow> 'a \<Rightarrow> bool"
  assumes total: "x \<in> A \<Longrightarrow> y \<in> A \<Longrightarrow> le x y \<or> le y x"
    and trans: "x \<in> A \<Longrightarrow> y \<in> A \<Longrightarrow> z \<in> A \<Longrightarrow> le x y \<Longrightarrow> le y z \<Longrightarrow> le x z"
begin

lemma mset_insort: "mset (insort_by le x ys) = add_mset x (mset ys)"
  by (induction ys) auto

lemma mset_sort: "mset (sort_by le xs) = mset xs"
  by (induction xs) (auto simp: sort_by_def mset_insort)

lemma set_insort: "set (insort_by le x ys) = insert x (set ys)"
  by (metis mset_insort set_mset_add_mset_insert set_mset_mset)

lemma sorted_insort:
  "sorted_wrt le ys \<Longrightarrow> insert x (set ys) \<subseteq> A \<Longrightarrow> sorted_wrt le (insort_by le x ys)"
proof (induction ys)
  case (Cons y ys)
  have "le x z" if "le x y" "z \<in> set ys" for z
    using that Cons.prems trans [of x y z] by auto
  moreover have "le y x" if "\<not> le x y" using that Cons.prems total [of x y] by auto
  ultimately show ?case using Cons by (auto simp: set_insort)
qed simp

lemma sorted_sort: "set xs \<subseteq> A \<Longrightarrow> sorted_wrt le (sort_by le xs)"
proof (induction xs)
  case (Cons x xs)
  have "set (sort_by le xs) = set xs" using mset_sort by (metis set_mset_mset)
  then show ?case using Cons sorted_insort [of "sort_by le xs" x] by (simp add: sort_by_def)
qed (simp add: sort_by_def)

text \<open>The first \<open>n\<close> of a sorted list, against the rest.\<close>

lemma take_sort:
  assumes "set xs \<subseteq> A"
  shows "\<exists>rest. mset (take n (sort_by le xs) @ rest) = mset xs \<and> sorted_wrt le (take n (sort_by le xs))
    \<and> (\<forall>x\<in>set (take n (sort_by le xs)). \<forall>y\<in>set rest. le x y)"
proof -
  let ?s = "sort_by le xs"
  have s: "sorted_wrt le (take n ?s @ drop n ?s)" using sorted_sort [OF assms] by simp
  have "mset (take n ?s @ drop n ?s) = mset xs" using mset_sort by simp
  with s show ?thesis unfolding sorted_wrt_append by blast
qed

end

interpretation worst_first: total_preorder "{p. finite_stats (ps_stats p)}" worse_or_equal
  by unfold_locales (auto simp: worse_or_equal_def finite_stats_def Let_def split: if_splits)

text \<open>The rates themselves: the average of \<open>p\<close> is below that of \<open>q\<close>, or equal and the minimum not above.\<close>

definition slower :: "pair_stats \<Rightarrow> pair_stats \<Rightarrow> bool" where
  "slower p q \<longleftrightarrow> (\<exists>avg_p avg_q min_p min_q.
     avg_bps (ps_stats p) = Fin avg_p \<and> avg_bps (ps_stats q) = Fin avg_q
     \<and> min_bps (ps_stats p) = Fin min_p \<and> min_bps (ps_stats q) = Fin min_q
     \<and> (avg_p < avg_q \<or> avg_p = avg_q \<and> min_p \<le> min_q))"

lemma worse_or_equal_slower:
  "finite_stats (ps_stats p) \<Longrightarrow> finite_stats (ps_stats q) \<Longrightarrow> worse_or_equal p q \<Longrightarrow> slower p q"
  by (auto simp: worse_or_equal_def finite_stats_def slower_def Let_def split: if_splits)

section \<open>Facts about the arguments\<close>

text \<open>One way to name the database: \<open>--db=path\<close> (the flag) or \<open>--db path\<close>.\<close>

fun flag_args :: "bool \<times> string \<Rightarrow> string list" where
  "flag_args (True, p) = [''--db='' @ p]"
| "flag_args (False, p) = [''--db'', p]"

definition flag_ok :: "bool \<times> string \<Rightarrow> bool" where
  "flag_ok f \<longleftrightarrow> \<not> (fst f \<and> snd f = [])"

definition last_path :: "string option \<Rightarrow> (bool \<times> string) list \<Rightarrow> string option" where
  "last_path db fs = (if fs = [] then db else Some (snd (last fs)))"

lemma strip_db_eq: "strip_prefix ''--db='' a = Some path \<longleftrightarrow> a = ''--db='' @ path"
  by (auto simp: strip_prefix_def prefix_def)

lemma parse_flag: "flag_ok f \<Longrightarrow> parse_from db (flag_args f @ args) = parse_from (Some (snd f)) args"
  by (cases f rule: flag_args.cases) (auto simp: flag_ok_def strip_prefix_def)

lemma parse_flags:
  "\<forall>f\<in>set fs. flag_ok f \<Longrightarrow> parse_from db (concat (map flag_args fs)) = (case last_path db fs of Some p \<Rightarrow> Inr p | None \<Rightarrow> Inl Missing_db)"
  by (induction fs arbitrary: db) (auto simp: last_path_def parse_flag)

lemma parsed_flags:
  "parse_from db args = Inr p \<Longrightarrow>
    \<exists>fs. args = concat (map flag_args fs) \<and> (\<forall>f\<in>set fs. flag_ok f) \<and> last_path db fs = Some p"
proof (induction db args rule: parse_from.induct)
  case (1 db)
  then show ?case by (intro exI [of _ "[]"]) (auto simp: last_path_def split: option.splits)
next
  case (2 db a args)
  have extend: ?case
    if "parse_from (Some q) rest = Inr p" "flag_ok (eq, q)" "a # args = flag_args (eq, q) @ rest"
      "parse_from (Some q) rest = Inr p \<Longrightarrow>
         \<exists>fs. rest = concat (map flag_args fs) \<and> (\<forall>f\<in>set fs. flag_ok f) \<and> last_path (Some q) fs = Some p"
    for q eq rest
  proof -
    note flag = that
    obtain fs where "rest = concat (map flag_args fs)" "\<forall>f\<in>set fs. flag_ok f" "last_path (Some q) fs = Some p"
      using flag(4) [OF flag(1)] by blast
    then show ?thesis using flag(2,3) by (intro exI [of _ "(eq, q) # fs"]) (auto simp: last_path_def)
  qed
  show ?case
  proof (cases "a = ''--db''")
    case True
    then obtain path rest where "args = path # rest" "parse_from (Some path) rest = Inr p"
      using 2(3) by (auto split: list.splits)
    then show ?thesis using True 2(1) by (intro extend [of path rest False]) (auto simp: flag_ok_def)
  next
    case False
    then obtain path where "strip_prefix ''--db='' a = Some path" "path \<noteq> []" "parse_from (Some path) args = Inr p"
      using 2(3) by (auto split: option.splits if_splits)
    then show ?thesis using False 2(2) by (intro extend [of path args True]) (auto simp: flag_ok_def strip_db_eq)
  qed
qed

text \<open>The pairs of the report.\<close>

lemma pair_list_facts:
  assumes "add_rows peers_of_json rows no_tables = Inr ts"
  shows "distinct (map (\<lambda>p. (ps_src p, ps_dst p)) (pair_list ts))
    \<and> (p \<in> set (pair_list ts) \<longleftrightarrow> from_samples (pair_samples_of peers_of_json (ps_src p) (ps_dst p) rows) = Some (ps_stats p))"
proof -
  have "tables_ok no_tables" by (simp add: tables_ok_def no_tables_def)
  note facts = add_rows_facts [OF assms this]
  have ok: "tables_ok ts" using facts by blast
  have at: "samples_at (src, dst) ts = pair_samples_of peers_of_json src dst rows" for src dst
    using facts [of src dst] by (simp add: samples_at_def no_tables_def)
  have keys: "distinct (map fst (pair_samples ts))"
    using ok by (simp add: tables_ok_def strict_sorted_iff flip: sorted_wrt_map)
  have some: "\<exists>st. from_samples xs = Some st" if "xs \<noteq> []" for xs
    using that by (auto simp: from_samples_def Let_def split: prod.split)
  have "map (\<lambda>p. (ps_src p, ps_dst p)) (pair_list ts) = map fst (pair_samples ts)"
  proof -
    have "\<forall>(k, xs)\<in>set es. xs \<noteq> [] \<Longrightarrow> map (\<lambda>p. (ps_src p, ps_dst p)) (List.map_filter (\<lambda>((src, dst), samples).
        map_option (\<lambda>st. \<lparr>ps_src = src, ps_dst = dst, ps_stats = st\<rparr>) (from_samples samples)) es) = map fst es" for es
      by (induction es) (auto simp: List.map_filter_simps dest!: some)
    then show ?thesis using ok unfolding pair_list_def tables_ok_def by blast
  qed
  moreover have "p \<in> set (pair_list ts) \<longleftrightarrow> from_samples (samples_at (ps_src p, ps_dst p) ts) = Some (ps_stats p)"
  proof -
    have "p \<in> set (pair_list ts) \<longleftrightarrow>
        (\<exists>xs. ((ps_src p, ps_dst p), xs) \<in> set (pair_samples ts) \<and> from_samples xs = Some (ps_stats p))"
      unfolding pair_list_def List.map_filter_def by (cases p) (force simp: image_iff)
    also have "\<dots> \<longleftrightarrow> from_samples (samples_at (ps_src p, ps_dst p) ts) = Some (ps_stats p)"
      by (auto simp: samples_at_def from_samples_def [of "[]"] simp flip: map_of_eq_Some_iff [OF keys] split: option.split)
    finally show ?thesis .
  qed
  ultimately show ?thesis using keys at by simp
qed

lemma total_stats_None: "total_stats ts = None \<longleftrightarrow> total_samples ts = []"
  by (auto simp: total_stats_def from_samples_def Let_def split: prod.splits)

section \<open>Properties\<close>

text \<open>C20: the pairs reported are exactly those with at least one sample, each once, and the statistics of a
  pair come from exactly its samples: one per window of the sender that lasted long enough and lists
  the receiver with bytes sent, in the order of the rows.\<close>

theorem pairs_reported:
  assumes "add_rows peers_of_json rows no_tables = Inr ts"
  shows "distinct (map (\<lambda>p. (ps_src p, ps_dst p)) (pair_list ts))
    \<and> (p \<in> set (pair_list ts) \<longleftrightarrow> from_samples (pair_samples_of peers_of_json (ps_src p) (ps_dst p) rows) = Some (ps_stats p))"
  by (rule pair_list_facts [OF assms])

text \<open>Two windows of a and one of b, the second of a too short to count; each peer list is its own text.\<close>

definition sample_peers :: "string \<Rightarrow> peer_metrics list option" where
  "sample_peers s =
     Some [\<lparr>pm_peer = s, pm_bytes_sent = 1000, pm_bytes_recv = 0, pm_packets_sent = 0, pm_packets_recv = 0, pm_packets_dropped = 0\<rparr>]"

definition sample_row :: "string \<Rightarrow> string \<Rightarrow> u64 \<Rightarrow> u64 \<Rightarrow> raw_row" where
  "sample_row src dst start duration =
     \<lparr>rr_server = src, rr_wall_start_ns = start, rr_duration_ns = duration, rr_bytes_sent = 1000,
      rr_send_bps = bps 1000 duration, rr_peers_json = dst\<rparr>"

definition sample_rows :: "raw_row list" where
  "sample_rows = [sample_row ''a'' ''b'' 0 1000000000, sample_row ''b'' ''a'' 5 1000000000, sample_row ''a'' ''b'' 1000000000 20000000]"

lemma sample_tables: "\<exists>ts. add_rows sample_peers sample_rows no_tables = Inr ts"
  by (simp add: sample_rows_def sample_peers_def)

theorem pairs_reported_witness:
  "\<exists>ts. add_rows sample_peers sample_rows no_tables = Inr ts
    \<and> (\<exists>st. \<lparr>ps_src = ''a'', ps_dst = ''b'', ps_stats = st\<rparr> \<in> set (pair_list ts) \<and> windows st = 1)"
proof -
  obtain ts where ts: "add_rows sample_peers sample_rows no_tables = Inr ts" using sample_tables by blast
  have "pair_samples_of sample_peers ''a'' ''b'' sample_rows = [(1000, 1000000000)]"
    by (simp add: pair_samples_of_def row_samples_def sample_rows_def sample_row_def sample_peers_def MIN_WINDOW_NS_def)
  moreover obtain st where "from_samples [(1000, 1000000000)] = Some st" "windows st = 1"
    by (auto simp: from_samples_def Let_def)
  ultimately show ?thesis
    using pairs_reported [OF ts, of "\<lparr>ps_src = ''a'', ps_dst = ''b'', ps_stats = st\<rparr>"] ts by auto
qed

text \<open>The rate of a second of the whole system is the sum, in the order of the rows, of the send rates of
  the windows that start in that second, bytes sent and long enough; a second without such a window has no
  rate.\<close>

theorem rate_of_a_second:
  assumes "add_rows peers_of_json rows no_tables = Inr ts"
  shows "map_of (bucket_bps ts) sec
    = (if second_rates sec rows = [] then None else Some (foldl fadd (Fin 0) (second_rates sec rows)))"
proof -
  have "tables_ok no_tables" by (simp add: tables_ok_def no_tables_def)
  from add_rows_facts [OF assms this, where sec = sec] show ?thesis
    by (simp add: rate_at_def add_rates_def no_tables_def)
qed

theorem rate_of_a_second_witness:
  "\<exists>ts. add_rows sample_peers sample_rows no_tables = Inr ts \<and> map_of (bucket_bps ts) 1 = None"
proof -
  obtain ts where ts: "add_rows sample_peers sample_rows no_tables = Inr ts" using sample_tables by blast
  have "second_rates 1 sample_rows = []"
    by (simp add: second_rates_def sample_rows_def sample_row_def counted_def MIN_WINDOW_NS_def)
  then show ?thesis using rate_of_a_second [OF ts, of 1] ts by simp
qed

text \<open>C29: the worst pairs are the worst: they are five of the reported pairs, or all where there are fewer, in
  the ascending order of their average rates and, between equal averages, of their minima; and a pair left
  out has a higher average than every pair listed, or the same and a minimum that is not lower. All these
  rates are finite.\<close>

theorem worst_pairs_are_worst:
  "\<exists>rest. mset (worst_pairs (pair_list ts) @ rest) = mset (pair_list ts)
    \<and> length (worst_pairs (pair_list ts)) = min 5 (length (pair_list ts))
    \<and> sorted_wrt slower (worst_pairs (pair_list ts))
    \<and> (\<forall>p\<in>set (worst_pairs (pair_list ts)). \<forall>q\<in>set rest. slower p q)"
proof -
  let ?worst = "worst_pairs (pair_list ts)"
  have fin: "set (pair_list ts) \<subseteq> {p. finite_stats (ps_stats p)}"
    unfolding pair_list_def List.map_filter_def by (auto dest: from_samples_finite)
  have "length (sort_by worse_or_equal (pair_list ts)) = length (pair_list ts)"
    by (metis worst_first.mset_sort size_mset)
  then obtain rest where rest: "mset (?worst @ rest) = mset (pair_list ts)" "length ?worst = min 5 (length (pair_list ts))"
    "sorted_wrt worse_or_equal ?worst" "\<forall>p\<in>set ?worst. \<forall>q\<in>set rest. worse_or_equal p q"
    using worst_first.take_sort [OF fin, of 5] unfolding worst_pairs_def by auto
  have sub: "set ?worst \<union> set rest \<subseteq> {p. finite_stats (ps_stats p)}"
    using fin rest(1) by (metis set_append set_mset_mset)
  then have "sorted_wrt slower ?worst"
    using rest(3) by (auto elim!: sorted_wrt_mono_rel [rotated] intro: worse_or_equal_slower)
  moreover have "\<forall>p\<in>set ?worst. \<forall>q\<in>set rest. slower p q"
    using rest(4) sub by (blast intro: worse_or_equal_slower)
  ultimately show ?thesis using rest(1,2) by blast
qed

theorem worst_pairs_are_worst_witness:
  "\<exists>ts. add_rows sample_peers sample_rows no_tables = Inr ts
    \<and> length (worst_pairs (pair_list ts)) = min 5 (length (pair_list ts)) \<and> sorted_wrt slower (worst_pairs (pair_list ts))"
proof -
  obtain ts where "add_rows sample_peers sample_rows no_tables = Inr ts" using sample_tables by blast
  then show ?thesis using worst_pairs_are_worst [of ts] by blast
qed

text \<open>C28: the minimum and maximum of a pair are those of its windows: both bound every window's rate, and the
  minimum is the rate of one of them; the average is the total over the total time, within five roundings,
  while the sums fit.\<close>

theorem statistics_of_samples:
  assumes "from_samples samples = Some st" "sum_list (map (unat \<circ> fst) samples) < 2 ^ 64"
    "sum_list (map (unat \<circ> snd) samples) < 2 ^ 128" "\<exists>(b, d)\<in>set samples. d \<noteq> 0"
  shows "(\<exists>(b, d)\<in>set samples. min_bps st = bps b d)
    \<and> (\<forall>(b, d)\<in>set samples. fle (min_bps st) (bps b d) \<and> fle (bps b d) (max_bps st))
    \<and> windows st = length samples
    \<and> (\<exists>x. avg_bps st = Fin x \<and> near unit_roundoff 5
         (of_nat (sum_list (map (unat \<circ> fst) samples)) * 8 * 1000000000 / of_nat (sum_list (map (unat \<circ> snd) samples))) x)"
proof -
  obtain lo hi bytes duration_ns where f: "samples_summed samples (lo, hi, bytes, duration_ns)" "samples \<noteq> []"
    "st = \<lparr>min_bps = lo, max_bps = hi,
       avg_bps = (if duration_ns = 0 then Fin 0
                  else fdiv (fmul (fmul (f64_of_u64 bytes) (Fin 8)) (Fin 1000000000)) (f64_of_u128 duration_ns)),
       windows = length samples\<rparr>"
    using assms(1) by (rule from_samples_fold)
  let ?b = "sum_list (map (unat \<circ> fst) samples)" and ?d = "sum_list (map (unat \<circ> snd) samples)"
  have sums: "unat bytes = ?b" "unat duration_ns = ?d" using f(1) assms(2,3) by (simp_all add: samples_summed_def min_def)
  obtain b d where "(b, d) \<in> set samples" "d \<noteq> 0" using assms(4) by blast
  then have "0 < unat d" "unat d \<le> ?d"
    using member_le_sum_list [of "unat d" "map (unat \<circ> snd) samples"] by (force simp: unat_gt_0)+
  then have "0 < ?d" by linarith
  then have d: "duration_ns \<noteq> 0" unfolding sums(2) [symmetric] by (simp add: unat_gt_0)
  have rats: "(of_int (uint bytes) :: rat) = of_nat ?b" "(of_int (uint duration_ns) :: rat) = of_nat ?d"
    using sums by (simp_all only: uint_nat of_int_of_nat_eq)
  have "of_int (uint bytes) = (0 :: rat) \<or> 1 \<le> (of_int (uint bytes) :: rat)"
    using uint_pos_rat [of bytes] by (cases "bytes = 0") (simp_all only: unsigned_0 of_int_0 simp_thms)
  from rate_value_near [OF u64_real_bounds(1) this u128_rval(2,3) [OF d]]
  have "\<exists>x. avg_bps st = Fin x \<and> near unit_roundoff 5 (of_nat ?b * 8 * 1000000000 / of_nat ?d) x"
    using f(3) d average_value [OF d, of bytes] by (simp only: rats) simp
  then show ?thesis using f by (simp add: samples_summed_def)
qed

theorem statistics_of_samples_witness:
  "\<exists>st. from_samples [(1250000000, 1000000000), (11250000000, 3000000000)] = Some st \<and> windows st = 2
    \<and> fle (min_bps st) (bps 11250000000 3000000000)"
proof -
  let ?xs = "[(1250000000, 1000000000), (11250000000, 3000000000)] :: sample list"
  obtain st where st: "from_samples ?xs = Some st" by (auto simp: from_samples_def Let_def)
  have "sum_list (map (unat \<circ> fst) ?xs) < 2 ^ 64" "sum_list (map (unat \<circ> snd) ?xs) < 2 ^ 128" "\<exists>(b, d)\<in>set ?xs. d \<noteq> 0"
    by simp_all
  from statistics_of_samples [OF st this] st show ?thesis by auto
qed

text \<open>The arguments are accepted exactly when they are a sequence of \<open>--db path\<close> and \<open>--db=path\<close> with a
  non-empty path after the equals sign, and the last one gives the database.\<close>

theorem parse_args_exact:
  "parse_args args = Inr p \<longleftrightarrow>
    (\<exists>fs. fs \<noteq> [] \<and> args = concat (map flag_args fs) \<and> (\<forall>f\<in>set fs. flag_ok f) \<and> snd (last fs) = p)"
proof
  assume "parse_args args = Inr p"
  then have "parse_from None args = Inr p" by (simp add: parse_args_def)
  from parsed_flags [OF this] show "\<exists>fs. fs \<noteq> [] \<and> args = concat (map flag_args fs) \<and> (\<forall>f\<in>set fs. flag_ok f) \<and> snd (last fs) = p"
    by (auto simp: last_path_def split: if_splits)
next
  assume "\<exists>fs. fs \<noteq> [] \<and> args = concat (map flag_args fs) \<and> (\<forall>f\<in>set fs. flag_ok f) \<and> snd (last fs) = p"
  then obtain fs where fs: "fs \<noteq> []" "args = concat (map flag_args fs)" "\<forall>f\<in>set fs. flag_ok f" "snd (last fs) = p" by blast
  then have "last_path None fs = Some p" by (simp add: last_path_def)
  then show "parse_args args = Inr p" using parse_flags [OF fs(3), of None] fs(2) by (simp add: parse_args_def)
qed

theorem parse_args_exact_witness:
  "parse_args [''--db'', ''a.db'', ''--db=b.db''] = Inr ''b.db''"
  by (rule parse_args_exact [THEN iffD2], rule exI [of _ "[(False, ''a.db''), (True, ''b.db'')]"]) (simp add: flag_ok_def)

section \<open>Labels\<close>

text \<open>The width of the pair column counts four characters besides the two names, a label has five: with
  ASCII names the longest label is one wider than its column.\<close>

lemma char_count_append [simp]: "char_count (s @ t) = char_count s + char_count t"
  by (simp add: char_count_def)

lemma char_count_label: "char_count (pair_label p) = char_count (ps_src p) + char_count (ps_dst p) + 5"
  by (simp add: pair_label_def) (simp add: char_count_def ARROW_def)

lemma longest_label_overflows:
  assumes "ps \<noteq> []" "\<forall>p\<in>set ps. char_count (ps_src p) = length (ps_src p) \<and> char_count (ps_dst p) = length (ps_dst p)"
  shows "\<exists>p\<in>set ps. char_count (pair_label p) = Suc (label_width ps)"
proof -
  let ?w = "\<lambda>p. length (ps_src p) + length (ps_dst p) + 4"
  have "Max (set (map ?w ps)) \<in> set (map ?w ps)" using assms(1) by (intro Max_in) simp_all
  then obtain p where "p \<in> set ps" "?w p = Max (set (map ?w ps))" by auto
  then show ?thesis using assms by (intro bexI [of _ p]) (auto simp: label_width_def char_count_label)
qed

text \<open>The average of the whole system is the mean of the rates of the seconds, whatever the lengths of the
  windows.\<close>

lemma total_average_is_mean_of_seconds:
  assumes "total_stats ts = Some st" "bucket_bps ts \<noteq> []"
  shows "avg_bps st = fdiv (fold (\<lambda>x a. fadd a x) (map snd (bucket_bps ts)) (Fin 0)) (f64_of_u64 (of_nat (length (bucket_bps ts))))
    \<and> windows st = length (bucket_bps ts)"
  using assms by (auto simp: total_stats_def Let_def)

section \<open>From the stored rows\<close>

text \<open>What is read from a stored row is what was inserted.\<close>

lemma raw_row_of_row:
  assumes "storable js w"
  shows "raw_row_of (row_of js tg w) =
    \<lparr>rr_server = mw_server w, rr_wall_start_ns = mw_wall_start_ns w, rr_duration_ns = mw_duration_ns w,
     rr_bytes_sent = mw_bytes_sent w, rr_send_bps = mw_send_bps w, rr_peers_json = the (js (mw_peers w))\<rparr>"
  using assms by (auto simp: storable_def raw_row_of_def row_of_def insert_metric_def stored_real_def)

lemma mset_select: "mset (select_metrics d) = image_mset raw_row_of (mset (db_metrics d))"
  by (simp add: select_metrics_def)

end
