(* ===== verification/Command.thy ===== *)
theory Command
  imports Server Collect Analyze
begin

text \<open>
  \<open>src/src/main.rs\<close>: the command line, which loads the configuration that its command needs. Reading a
  file, testing for one and parsing TOML are parameters. The client and the server it starts are those of
  theories Collect and Server.
\<close>

section \<open>Loading\<close>

datatype load_config_error = Cannot_read string | Bad_config_file config_error

text \<open>\<open>Config::load\<close>\<close>

definition load_config ::
  "(string \<Rightarrow> string option) \<Rightarrow> (string \<Rightarrow> (string \<Rightarrow> toml_value option) option) \<Rightarrow> string \<Rightarrow> load_config_error + config" where
  "load_config read_file toml path =
     (case read_file path of None \<Rightarrow> Inl (Cannot_read path)
      | Some txt \<Rightarrow> map_sum Bad_config_file id (from_toml toml txt))"

definition load_client_addr ::
  "(string \<Rightarrow> string option) \<Rightarrow> (string \<Rightarrow> bool) \<Rightarrow> (string \<Rightarrow> (string \<Rightarrow> toml_value option) option) \<Rightarrow> string option
   \<Rightarrow> load_config_error + string" where
  "load_client_addr read_file file_exists toml explicit =
     (case explicit of
        Some path \<Rightarrow> map_sum id client_addr (load_config read_file toml path)
      | None \<Rightarrow>
          if file_exists ''tperf.toml'' then map_sum id client_addr (load_config read_file toml ''tperf.toml'')
          else Inr DEFAULT_CLIENT_ADDR)"

section \<open>Commands\<close>

datatype command_action = Run_client config | Run_server string | Run_analyze string | Usage_shown

datatype command_error = Config_not_loaded load_config_error | Bad_analyze_args args_error | Unknown_command string

text \<open>The arguments after the program's name; a missing command is the empty one. Arguments that a command
  does not use are ignored, except by \<open>analyze\<close>.\<close>

definition run_command ::
  "(string \<Rightarrow> string option) \<Rightarrow> (string \<Rightarrow> bool) \<Rightarrow> (string \<Rightarrow> (string \<Rightarrow> toml_value option) option) \<Rightarrow> string list
   \<Rightarrow> command_error + command_action" where
  "run_command read_file file_exists toml args =
     (let cmd = (case args of a # _ \<Rightarrow> a | [] \<Rightarrow> []);
          rest = tl args;
          path = (case rest of p # _ \<Rightarrow> Some p | [] \<Rightarrow> None) in
      if cmd = ''client'' then
        map_sum Config_not_loaded Run_client
          (load_config read_file toml (case path of Some p \<Rightarrow> p | None \<Rightarrow> ''tperf.toml''))
      else if cmd = ''server'' then
        map_sum Config_not_loaded Run_server (load_client_addr read_file file_exists toml path)
      else if cmd = ''analyze'' then map_sum Bad_analyze_args Run_analyze (parse_args rest)
      else if cmd = ''help'' \<or> cmd = [] then Inr Usage_shown
      else Inl (Unknown_command cmd))"

text \<open>The usage text, and whether a command prints it before it returns.\<close>

definition eprint_usage :: "string list" where
  "eprint_usage =
     [''usage: tperf <client|server> [config.toml]'',
      ''       tperf analyze --db <file>'',
      [],
      ''client   load config, write <tag>.db in the working directory, drive the test'',
      ''server   bind the control socket (client_addr) and wait for start/stop'',
      ''analyze  summarize pair and total throughput from a sqlite database file'']"

definition usage_lines :: "command_error + command_action \<Rightarrow> string list" where
  "usage_lines r =
     (case r of Inr Usage_shown \<Rightarrow> eprint_usage | Inl (Unknown_command _) \<Rightarrow> eprint_usage | _ \<Rightarrow> [])"

text \<open>The exit status.\<close>

definition exit_code :: "'e + 'a \<Rightarrow> nat" where
  "exit_code r = (case r of Inl _ \<Rightarrow> 1 | Inr _ \<Rightarrow> 0)"

section \<open>Facts\<close>

lemma load_config_Inr: "load_config read_file toml path = Inr cfg \<Longrightarrow> \<exists>txt. from_toml toml txt = Inr cfg"
  by (auto simp: load_config_def map_sum_def split: option.splits sum.splits)

text \<open>The usage is printed when the first argument is none of the three commands, and only then.\<close>

lemma usage_iff:
  "usage_lines (run_command read_file file_exists toml args) = eprint_usage \<longleftrightarrow>
    args = [] \<or> hd args \<notin> {''client'', ''server'', ''analyze''}"
  by (cases args)
    (auto simp: usage_lines_def run_command_def eprint_usage_def map_sum_def Let_def split: sum.splits)

section \<open>Properties\<close>

text \<open>C27: the client runs, and a server started from a configuration listens, only with a validated
  configuration: the client's hosts are distinct and at least two, its ports are not zero, and the server
  is given an address with a port that is not zero.\<close>

theorem commands_run_valid_configurations:
  assumes "run_command read_file file_exists toml args = Inr action"
  shows "(\<forall>cfg. action = Run_client cfg \<longrightarrow>
        validate cfg = Inr () \<and> distinct (hostlist cfg) \<and> 2 \<le> length (hostlist cfg)
        \<and> (\<exists>p. test_port cfg = Inr p \<and> p \<noteq> 0) \<and> (\<exists>p. control_port cfg = Inr p \<and> p \<noteq> 0))
    \<and> (\<forall>addr. action = Run_server addr \<longrightarrow> (\<exists>host port. parse_host_port addr = Inr (host, port) \<and> port \<noteq> 0))"
proof -
  have valid: "validate cfg = Inr () \<and> distinct (hostlist cfg) \<and> 2 \<le> length (hostlist cfg)
      \<and> (\<exists>p. test_port cfg = Inr p \<and> p \<noteq> 0) \<and> (\<exists>p. control_port cfg = Inr p \<and> p \<noteq> 0)"
    if "load_config read_file toml path = Inr cfg" for path cfg
    using load_config_Inr [OF that] from_toml_facts validate_Inr by blast
  have "\<exists>host port. parse_host_port (client_addr cfg) = Inr (host, port) \<and> port \<noteq> 0"
    if "load_config read_file toml path = Inr cfg" for path cfg
    using valid [OF that] validate_Inr by blast
  moreover have "parse_host_port DEFAULT_CLIENT_ADDR = Inr (''0.0.0.0'', 7777)" by code_simp
  ultimately have server: "\<exists>host port. parse_host_port addr = Inr (host, port) \<and> port \<noteq> 0"
    if "load_client_addr read_file file_exists toml explicit = Inr addr" for explicit addr
    using that by (fastforce simp: load_client_addr_def map_sum_Inr_iff split: option.splits if_splits)
  show ?thesis
    using assms valid server by (auto simp: run_command_def Let_def map_sum_Inr_iff split: if_splits)
qed

theorem commands_run_valid_configurations_witness:
  "run_command (\<lambda>_. None) (\<lambda>_. False) (\<lambda>_. None) [''server''] = Inr (Run_server ''0.0.0.0:7777'')
    \<and> (\<exists>host port. parse_host_port ''0.0.0.0:7777'' = Inr (host, port) \<and> port \<noteq> 0)"
proof -
  have run: "run_command (\<lambda>_. None) (\<lambda>_. False) (\<lambda>_. None) [''server''] = Inr (Run_server ''0.0.0.0:7777'')"
    by code_simp
  from commands_run_valid_configurations [OF run] run show ?thesis by blast
qed

end
