(* ===== verification/Serve.thy ===== *)
theory Serve
  imports Server
begin

text \<open>
  The accept loop of \<open>src/src/server.rs\<close>: \<open>run\<close> serves one control connection after the other, each to
  its end. What follows from the sessions: the tests of all connections never overlap, and
  the handler answers every command after a bounded number of its own steps.
\<close>

section \<open>One connection after the other\<close>

datatype server_state = Accepting | Serving session | Server_failed

datatype server_label =
    Accepted "byte list" writer
  | Accept_failed
  | In_session session_label
  | Session_over "frame_error option"

inductive server_step :: "server_ctx \<Rightarrow> server_state \<Rightarrow> server_label \<Rightarrow> server_state \<Rightarrow> bool" for ctx where
  accepted: "server_step ctx Accepting (Accepted inp out) (Serving (session_new inp out))"
| accept_failed: "server_step ctx Accepting Accept_failed Server_failed"
| in_session: "server_step ctx (Serving s) (In_session l) (Serving s')" if "session_step ctx s l s'"
| session_over: "server_step ctx (Serving s) (Session_over e) Accepting" if "ss_pc s = Ended_with e"

inductive_cases server_stepE: "server_step ctx st l st'"

section \<open>The tests of all connections\<close>

fun running :: "server_state \<Rightarrow> nat list" where
  "running (Serving s) = map lt_id (ss_live s)"
| "running _ = []"

fun tests_begun :: "server_label \<Rightarrow> nat list" where
  "tests_begun (In_session (Test_started t _)) = [t]"
| "tests_begun _ = []"

fun tests_over :: "server_label \<Rightarrow> nat list" where
  "tests_over (In_session (Test_stopped t)) = [t]"
| "tests_over (In_session (Test_cut t _)) = [t]"
| "tests_over _ = []"

fun server_inv :: "server_state \<Rightarrow> bool" where
  "server_inv (Serving s) = session_inv s"
| "server_inv _ = True"

lemma server_inv_step: "server_step ctx st l st' \<Longrightarrow> server_inv st \<Longrightarrow> server_inv st'"
  by (cases rule: server_step.cases) (auto intro: session_inv_step)

lemma stopping_live: "session_inv s \<Longrightarrow> ss_pc s = Stopping t k \<Longrightarrow> map lt_id (ss_live s) = [t]"
  by (simp add: session_inv_def holder_def)

lemma end_test_live: "map lt_id (ss_live s) = [t] \<Longrightarrow> ss_live (end_test t s) = []"
  by (auto simp: end_test_def filter_empty_conv map_eq_Cons_conv)

lemma session_tests:
  assumes "session_step ctx s l s'" "session_inv s"
  shows "map lt_id (ss_live s) @ tests_begun (In_session l) = tests_over (In_session l) @ map lt_id (ss_live s')"
  using assms(1)
proof (cases rule: session_step.cases)
  case (stopped t k)
  then show ?thesis using stopping_live [OF assms(2)] by (simp add: end_test_live)
next
  case (cut t k)
  then show ?thesis using stopping_live [OF assms(2)] by (simp add: end_test_live)
next
  case (recv_other m)
  then show ?thesis by (cases m) simp_all
qed simp_all

lemma server_tests:
  assumes "server_step ctx st l st'" "server_inv st"
  shows "running st @ tests_begun l = tests_over l @ running st'"
  using assms
proof (cases rule: server_step.cases)
  case (in_session s k s')
  then show ?thesis using session_tests [of ctx s k s'] assms(2) by simp
next
  case (session_over s e)
  then show ?thesis using assms(2) by (simp add: session_inv_def holder_def)
qed (simp_all add: session_new_def)

interpretation tests: step_account "server_step ctx" server_inv running tests_begun tests_over "(=)" for ctx
proof unfold_locales
  fix st l st' assume s: "server_step ctx st l st'" and inv: "server_inv st"
  show "server_inv st'" by (rule server_inv_step [OF s inv])
  show "\<exists>cs. running st @ tests_begun l = cs @ running st' \<and> list_all2 (=) cs (tests_over l)"
    using server_tests [OF s inv] by (intro exI [of _ "tests_over l"]) (simp add: list.rel_eq)
qed

lemma running_le_1: "server_inv st \<Longrightarrow> length (running st) \<le> 1"
  by (cases st) (auto simp: session_inv_def split: option.splits dest: arg_cong [of _ _ length])

lemma serve_session:
  "run (session_step ctx) s tr s' \<Longrightarrow> run (server_step ctx) (Serving s) (map In_session tr) (Serving s')"
  by (induction rule: run.induct) (auto intro: run_Nil run_Cons in_session)

section \<open>The steps of the handler\<close>

text \<open>The steps of \<open>handle_conn\<close>, as against those of the metrics tasks, and the messages it takes in.\<close>

fun is_handler :: "session_label \<Rightarrow> bool" where
  "is_handler (Window_sent _ _ _) = False"
| "is_handler (Sampler_ended _) = False"
| "is_handler _ = True"

fun takes_input :: "session_label \<Rightarrow> bool" where
  "takes_input (Received _) = True"
| "takes_input (Disconnected _) = True"
| "takes_input _ = False"

text \<open>How many handler steps can follow before it reads again.\<close>

fun steps_left :: "session_pc \<Rightarrow> nat" where
  "steps_left (Stopping _ k) = (case k of Then_start _ _ \<Rightarrow> 4 | Then_ack_stop \<Rightarrow> 2 | Then_end _ \<Rightarrow> 1)"
| "steps_left (Starting _ _) = 3"
| "steps_left (Acking_start _) = 2"
| "steps_left (Reporting _) = 1"
| "steps_left Acking_stop = 1"
| "steps_left Reading = 0"
| "steps_left (Ended_with _) = 0"

lemma steps_left_resume: "steps_left (Stopping t k) = Suc (steps_left (resume k))"
  by (cases k) simp_all

lemma steps_left_le: "steps_left pc \<le> 4"
  by (cases pc) (simp_all split: after_stop.split)

lemma session_spends:
  assumes "session_step ctx s l s'"
  shows "(if is_handler l then Suc (steps_left (ss_pc s')) else steps_left (ss_pc s'))
    \<le> steps_left (ss_pc s) + (if takes_input l then 5 else 0)"
  using assms
  by (cases rule: session_step.cases) (simp_all add: steps_left_resume steps_left_le del: steps_left.simps(1))

interpretation handler: step_budget "session_step ctx" is_handler "\<lambda>s. steps_left (ss_pc s)" "\<lambda>l. if takes_input l then 5 else 0" for ctx
  by unfold_locales (rule session_spends)

definition reading_of :: "test_io \<Rightarrow> reading" where
  "reading_of io = \<lparr>rd_mono = 0, rd_wall = 0, rd_counters = io_counters io, rd_proc = None, rd_cancelled = False\<rparr>"

lemma reads_reading_of [simp]: "reads_test io (reading_of io)"
  by (simp add: reads_test_def reading_of_def)

text \<open>A handler that neither waits for a command nor has ended can go on.\<close>

lemma handler_goes_on:
  assumes "steps_left (ss_pc s) \<noteq> 0" "\<forall>(cfg, asg)\<in>set_option (start_due (ss_pc s)). start_test env cfg asg \<noteq> None"
  obtains l s' where "session_step ctx s l s'" "is_handler l" "\<not> takes_input l"
    "\<forall>(cfg, asg)\<in>set_option (start_due (ss_pc s')). start_test env cfg asg \<noteq> None"
proof (cases "ss_pc s")
  case (Stopping t k)
  show thesis by (rule that [OF stopped [OF Stopping]]) (use assms(2) Stopping in \<open>cases k; simp\<close>)+
next
  case (Starting cfg asg)
  with assms(2) obtain r where r: "start_test env cfg asg = Some r" by auto
  show thesis
  proof (cases r)
    case (Inl e)
    then show thesis using that [OF refused [OF Starting]] r by simp
  next
    case (Inr io)
    then show thesis using that [OF started [OF Starting _ reads_reading_of]] r by simp
  qed
next
  case (Acking_start t)
  obtain r out where w: "write_frame (sc_to_vec ctx) (Ack ''start'') (ss_out s) = (r, out)" by (rule prod.exhaust)
  show thesis
  proof (cases r)
    case (Inl e)
    then show thesis using that [OF start_ack_failed [OF Acking_start]] w by simp
  next
    case (Inr u)
    then show thesis using that [OF start_acked [OF Acking_start]] w by simp
  qed
next
  case (Reporting e)
  obtain r out where w: "write_frame (sc_to_vec ctx) (Error (sc_text ctx e)) (ss_out s) = (r, out)" by (rule prod.exhaust)
  then show thesis using that [OF reported [OF Reporting]] by simp
next
  case Acking_stop
  obtain r out where w: "write_frame (sc_to_vec ctx) (Ack ''stop'') (ss_out s) = (r, out)" by (rule prod.exhaust)
  show thesis
  proof (cases r)
    case (Inl e)
    then show thesis using that [OF stop_ack_failed [OF Acking_stop]] w by simp
  next
    case (Inr u)
    then show thesis using that [OF stop_acked [OF Acking_stop]] w by simp
  qed
qed (use assms(1) in simp_all)

lemma handler_finishes:
  assumes "\<forall>(cfg, asg)\<in>set_option (start_due (ss_pc s)). start_test env cfg asg \<noteq> None"
  shows "\<exists>tr s'. run (session_step ctx) s tr s' \<and> list_all is_handler tr \<and> list_all (Not \<circ> takes_input) tr
    \<and> steps_left (ss_pc s') = 0"
  using assms
proof (induction "steps_left (ss_pc s)" arbitrary: s rule: less_induct)
  case less
  show ?case
  proof (cases "steps_left (ss_pc s) = 0")
    case True
    then show ?thesis by (intro exI [of _ "[]"] exI [of _ s]) simp
  next
    case False
    obtain l s' where l: "session_step ctx s l s'" "is_handler l" "\<not> takes_input l"
        "\<forall>(cfg, asg)\<in>set_option (start_due (ss_pc s')). start_test env cfg asg \<noteq> None"
      using handler_goes_on [OF False less.prems] by metis
    have "steps_left (ss_pc s') < steps_left (ss_pc s)" using session_spends [OF l(1)] l(2,3) by simp
    from less.hyps [OF this l(4)] obtain tr s'' where "run (session_step ctx) s' tr s''" "list_all is_handler tr"
        "list_all (Not \<circ> takes_input) tr" "steps_left (ss_pc s'') = 0"
      by blast
    then show ?thesis using l by (intro exI [of _ "l # tr"] exI [of _ s'']) (simp add: run_Cons)
  qed
qed

lemma commands_none: "list_all (Not \<circ> takes_input) tr \<Longrightarrow> concat (map commands tr) = []"
proof (induction tr)
  case (Cons l tr)
  then show ?case by (cases l) simp_all
qed simp

lemma owed_none: "steps_left pc = 0 \<Longrightarrow> owed_at pc = []"
  by (cases pc) (simp_all split: after_stop.splits)

section \<open>What a session has read\<close>

definition received :: "session_label \<Rightarrow> msg list" where
  "received l = (case l of Received m \<Rightarrow> [m] | _ \<Rightarrow> [])"

lemma session_reads:
  assumes "session_step ctx s l s'"
  shows "read_frames (sc_from_slice ctx) (ss_in s) = received l @ read_frames (sc_from_slice ctx) (ss_in s')"
  using assms
  by (cases rule: session_step.cases) (simp_all add: received_def take_test_def read_frames.simps [of _ "ss_in s"])

lemma session_run_reads:
  "run (session_step ctx) s tr s' \<Longrightarrow>
    read_frames (sc_from_slice ctx) (ss_in s) = concat (map received tr) @ read_frames (sc_from_slice ctx) (ss_in s')"
  by (induction rule: run.induct) (simp_all add: session_reads)

lemma commands_received: "commands l = concat (map (\<lambda>m. commands (Received m)) (received l))"
  by (cases l) (simp_all add: received_def)

lemma commands_of_received: "concat (map commands tr) = concat (map (\<lambda>m. commands (Received m)) (concat (map received tr)))"
  by (induction tr) (simp_all add: commands_received [of "hd _"] flip: commands_received)

definition armed :: "session \<Rightarrow> bool" where
  "armed s \<longleftrightarrow>
     (case ss_pc s of
        Reading \<Rightarrow> ss_test s \<noteq> None
      | Stopping _ k \<Rightarrow> (case k of Then_start _ _ \<Rightarrow> True | _ \<Rightarrow> False)
      | Starting _ _ \<Rightarrow> True | Acking_start _ \<Rightarrow> True | _ \<Rightarrow> False)"

lemma armed_resume: "ss_pc s = resume k \<Longrightarrow> armed s \<longleftrightarrow> (case k of Then_start _ _ \<Rightarrow> True | _ \<Rightarrow> False)"
  by (cases k) (simp_all add: armed_def)

lemma armed_take_test: "armed (take_test k s) \<longleftrightarrow> (case k of Then_start _ _ \<Rightarrow> True | _ \<Rightarrow> False)"
  by (cases k) (simp_all add: armed_def take_test_def split: option.splits)

lemma armed_update:
  "armed (s\<lparr>ss_live := ls\<rparr>) = armed s" "armed (s\<lparr>ss_out := out\<rparr>) = armed s"
  by (cases "ss_pc s"; simp add: armed_def)+

lemma armed_step:
  assumes "session_step ctx s l s'" "session_inv s" "armed s'"
  shows "commands l = [Start_command] \<or> commands l = [] \<and> armed s"
  using assms(1)
proof (cases rule: session_step.cases)
  case (recv_other m rest)
  then show ?thesis using assms(3) by (cases m) (simp_all add: armed_def)
next
  case (stopped t k)
  then show ?thesis using assms(3) armed_resume [of s' k] by (simp add: armed_def)
next
  case (cut t k)
  then show ?thesis using assms(3) armed_resume [of s' k] by (simp add: armed_def)
next
  case (recv_stop rest)
  then show ?thesis using assms(3) by (simp add: armed_take_test)
next
  case recv_failed
  then show ?thesis using assms(3) by (simp add: armed_take_test)
next
  case (window ls l ks)
  then show ?thesis using assms(3) by (simp add: armed_update)
next
  case (sampler_ended ls l ks)
  then show ?thesis using assms(3) by (simp add: armed_update)
qed (use assms(2,3) in \<open>auto simp: armed_def session_inv_def\<close>)

lemma armed_run:
  assumes "run (session_step ctx) s tr s'" "session_inv s" "\<not> armed s" "armed s'"
  shows "\<exists>cs. concat (map commands tr) = cs @ [Start_command]"
  using assms(1,4)
proof (induction tr arbitrary: s' rule: rev_induct)
  case Nil
  then show ?case using assms(3) by simp
next
  case (snoc l tr)
  then obtain t where t: "run (session_step ctx) s tr t" "session_step ctx t l s'" by (auto simp: run_append_iff run_Cons_iff)
  have "session_inv t" by (rule one_test.along [OF t(1) assms(2)])
  from armed_step [OF t(2) this snoc.prems(2)] show ?case using snoc.IH [OF t(1)] by auto
qed

lemma idle_after_stop:
  assumes "run (session_step ctx) (session_new inp out) tr s" "ss_pc s = Reading" "concat (map commands tr) = cs @ [Stop_command]"
  shows "ss_live s = []"
proof -
  have "session_inv s" by (rule one_test.along [OF assms(1)]) simp
  moreover have "\<not> armed (session_new inp out)" by (simp add: armed_def session_new_def)
  then have "\<not> armed s" using armed_run [OF assms(1)] assms(3) by auto
  ultimately show ?thesis using assms(2) by (simp add: armed_def session_inv_def holder_def)
qed

section \<open>Properties\<close>

text \<open>C7: over all the connections of a server, the tests never overlap: the tests that are begun are over, with
  the tasks of their \<open>JoinSet\<close> joined, in the same order, at most the last one is still running, and none is
  when the server waits for the next connection.\<close>

theorem tests_never_overlap:
  assumes "run (server_step ctx) Accepting tr st"
  shows "concat (map tests_begun tr) = concat (map tests_over tr) @ running st \<and> length (running st) \<le> 1"
proof -
  have "server_inv st" by (rule tests.along [OF assms]) simp
  then have "length (running st) \<le> 1" by (rule running_le_1)
  moreover have "concat (map tests_begun tr) = concat (map tests_over tr) @ running st"
    using tests.run_balance [OF assms] by (auto simp: list.rel_eq)
  ultimately show ?thesis by blast
qed

theorem tests_never_overlap_witness:
  "\<exists>io w s. run (server_step (sample_server w)) Accepting
      (Accepted sample_input \<lparr>written = [], room = None\<rparr> # map In_session (sample_labels io w)) (Serving s) \<and> ss_live s = []"
proof -
  obtain io w s where "run (session_step (sample_server w)) (session_new sample_input \<lparr>written = [], room = None\<rparr>) (sample_labels io w) s"
    by (rule sample_session)
  from run_Cons [where step = "server_step (sample_server w)", OF accepted serve_session [OF this]]
  have r: "run (server_step (sample_server w)) Accepting
      (Accepted sample_input \<lparr>written = [], room = None\<rparr> # map In_session (sample_labels io w)) (Serving s)" .
  from tests_never_overlap [OF this] have "ss_live s = []" by (simp add: sample_labels_def)
  with r show ?thesis by blast
qed

text \<open>C11: every command is answered, after at most four steps of the handler: whatever the metrics tasks do
  meanwhile, the handler takes at most four steps before it reads again, and it can take them, replying to
  all it owes, whenever the start that is due returns.\<close>

theorem every_command_answered:
  assumes "\<forall>(cfg, asg)\<in>set_option (start_due (ss_pc s)). start_test env cfg asg \<noteq> None"
  shows "(\<forall>tr s'. run (session_step ctx) s tr s' \<longrightarrow> list_all (Not \<circ> takes_input) tr \<longrightarrow> length (filter is_handler tr) \<le> 4)
    \<and> (\<exists>tr s'. run (session_step ctx) s tr s' \<and> list_all (Not \<circ> takes_input) tr \<and> owed_at (ss_pc s') = []
        \<and> list_all2 answers (owed_at (ss_pc s)) (concat (map replies tr)))"
proof (intro conjI allI impI)
  fix tr s' assume r: "run (session_step ctx) s tr s'" and n: "list_all (Not \<circ> takes_input) tr"
  have "sum_list (map (\<lambda>l. if takes_input l then 5 else 0 :: nat) tr) = 0" using n by (induction tr) auto
  with handler.run_budget [OF r] steps_left_le [of "ss_pc s"] show "length (filter is_handler tr) \<le> 4" by linarith
next
  obtain tr s' where r: "run (session_step ctx) s tr s'" "list_all (Not \<circ> takes_input) tr" "steps_left (ss_pc s') = 0"
    using handler_finishes [OF assms] by blast
  from replies.run_balance [OF r(1) TrueI] commands_none [OF r(2)] owed_none [OF r(3)]
  have "list_all2 answers (owed_at (ss_pc s)) (concat (map replies tr))" by auto
  then show "\<exists>tr s'. run (session_step ctx) s tr s' \<and> list_all (Not \<circ> takes_input) tr \<and> owed_at (ss_pc s') = []
        \<and> list_all2 answers (owed_at (ss_pc s)) (concat (map replies tr))"
    using r(1,2) owed_none [OF r(3)] by blast
qed

theorem every_command_answered_witness:
  "\<exists>w tr s'. run (session_step (sample_server w)) (sample_state [] (Stopping 0 (Then_start sample_config sample_assignment)) None [] 1 []) tr s'
    \<and> list_all2 answers [Start_command] (concat (map replies tr))"
proof -
  let ?s = "sample_state [] (Stopping 0 (Then_start sample_config sample_assignment)) None [] 1 []"
  have "start_test sample_start_env sample_config sample_assignment \<noteq> None" using sample_starts by auto
  then have "\<forall>(cfg, asg)\<in>set_option (start_due (ss_pc ?s)). start_test sample_start_env cfg asg \<noteq> None"
    by (simp add: sample_state_def)
  from every_command_answered [OF this, of "sample_server undefined"] show ?thesis by (simp add: sample_state_def) blast
qed

end
