(* ===== verification/Whole_Run.thy ===== *)
theory Whole_Run
  imports Command Serve
begin

text \<open>
  What spans the client, the servers, the database and the analyzer in one run: the windows that a session
  sends are received by the client's pump and stored; the report of the stored rows is that of the windows the
  servers sent; after the Stop that ends a run the servers are idle.
\<close>

section \<open>From a server to the report\<close>

text \<open>The windows that a session sends, and the samples of a pair in a window.\<close>

definition windows_sent :: "session_label list \<Rightarrow> metric_window list" where
  "windows_sent tr = concat (map (\<lambda>l. case l of Window_sent _ w _ \<Rightarrow> [w] | _ \<Rightarrow> []) tr)"

definition window_samples :: "string \<Rightarrow> string \<Rightarrow> metric_window \<Rightarrow> sample list" where
  "window_samples src dst w =
     (if mw_server w = src \<and> dst \<noteq> src \<and> MIN_WINDOW_NS \<le> mw_duration_ns w
      then map (\<lambda>p. (pm_bytes_sent p, mw_duration_ns w)) (filter (\<lambda>p. pm_peer p = dst \<and> pm_bytes_sent p \<noteq> 0) (mw_peers w))
      else [])"

lemma reply_not_window:
  assumes "run (session_step ctx) (session_new inp out) tr s" "Replied m r \<in> set tr"
  shows "window_in (Inr m) = []"
proof -
  obtain s1 s2 where "session_step ctx s1 (Replied m r) s2"
    by (rule one_test.at_label [OF assms(1) _ assms(2)]) simp
  then show ?thesis by (rule session_reply_cases) (simp_all add: window_in_def)
qed

lemma windows_of_messages:
  assumes "run (session_step ctx) (session_new inp out) tr s" "set ls \<subseteq> set tr"
  shows "concat (map window_in (map Inr (concat (map messages ls)))) = windows_sent ls"
  using assms(2)
proof (induction ls)
  case (Cons l ls)
  have "concat (map window_in (map Inr (messages l))) = windows_sent [l]"
    using Cons.prems reply_not_window [OF assms(1)]
    by (cases l rule: messages.cases) (auto simp: windows_sent_def window_in_def [of "Inr (Metrics _)"])
  then show ?case using Cons by (simp add: windows_sent_def)
qed (simp add: windows_sent_def)

lemma window_sent_storable:
  assumes "run (session_step ctx) (session_new inp out) tr s" "w \<in> set (windows_sent tr)" "js (mw_peers w) \<noteq> None"
  shows "storable js w"
proof -
  obtain t r where "Window_sent t w r \<in> set tr"
    using assms(2) by (auto simp: windows_sent_def split: session_label.splits)
  from window_numbers [OF assms(1) this] assms(3) show ?thesis by (simp add: storable_def)
qed

text \<open>A session over an intact connection up to the acknowledgement of the Stop that ends it, with no error
  before the first acknowledged Start.\<close>

definition session_completed :: "server_ctx \<Rightarrow> byte list \<Rightarrow> session_label list \<Rightarrow> session \<Rightarrow> bool" where
  "session_completed ctx inp tr s \<longleftrightarrow>
     run (session_step ctx) (session_new inp \<lparr>written = [], room = None\<rparr>) tr s \<and> (\<forall>l\<in>set tr. \<not> is_cut l)
     \<and> (\<forall>l\<in>set tr. \<forall>m\<in>set (messages l). json_ok (sc_to_vec ctx) (sc_from_slice ctx) m)
     \<and> (\<exists>before after. tr = before @ Replied (Ack ''stop'') (Inr ()) # after \<and> (\<forall>l\<in>set after. \<not> starts_test l)
          \<and> pump_safe False (map Inr (concat (map messages before))))"

definition stream_of :: "server_ctx \<Rightarrow> session \<Rightarrow> (frame_error + msg) list" where
  "stream_of ctx s = map Inr (read_frames (sc_from_slice ctx) (written (ss_out s)))"

lemma session_pump:
  assumes "session_completed ctx inp tr s"
  shows "pu_status (pump_server (stream_of ctx s @ rest)) = Pump_done"
    "pu_windows (pump_server (stream_of ctx s @ rest)) = windows_sent tr"
proof -
  let ?stop = "Inr (Ack ''stop'') :: frame_error + msg"
  obtain before after where r: "run (session_step ctx) (session_new inp \<lparr>written = [], room = None\<rparr>) tr s"
      "\<forall>l\<in>set tr. \<not> is_cut l" "\<forall>l\<in>set tr. \<forall>m\<in>set (messages l). json_ok (sc_to_vec ctx) (sc_from_slice ctx) m"
    and tr: "tr = before @ Replied (Ack ''stop'') (Inr ()) # after" "\<forall>l\<in>set after. \<not> starts_test l"
      "pump_safe False (map Inr (concat (map messages before)))"
    using assms by (auto simp: session_completed_def)
  have split: "stream_of ctx s @ rest
      = map Inr (concat (map messages before)) @ ?stop # map Inr (concat (map messages after)) @ rest"
    using session_stream [OF r] by (simp add: tr(1) stream_of_def)
  show "pu_status (pump_server (stream_of ctx s @ rest)) = Pump_done"
    using pump_server_safe [OF tr(3), of ?stop] unfolding split by (simp add: ends_pump_def)
  have "\<forall>l\<in>set after. \<not> sends_window l" using stop_ack_idle_run [OF r(1) [unfolded tr(1)] tr(2)] .
  then have "windows_sent after = []" by (auto simp: windows_sent_def split: session_label.split)
  then have "windows_sent tr = windows_sent before" by (simp add: tr(1) windows_sent_def)
  moreover have "set before \<subseteq> set tr" by (auto simp: tr(1))
  ultimately show "pu_windows (pump_server (stream_of ctx s @ rest)) = windows_sent tr"
    using windows_of_messages [OF r(1), of before] pump_server_safe [OF tr(3), of ?stop] unfolding split
    by (simp add: ends_pump_def)
qed

text \<open>What a run has in its database when every session is completed.\<close>

lemma run_rows:
  assumes "client_run to_vec env cfg turns during draining = Some (Inr d, conns)"
    "\<forall>i<length (hostlist cfg). session_completed ctx (inp i) (tr i) (s i)"
    "\<forall>i<length (hostlist cfg). items_for i (during @ map snd draining) = stream_of ctx (s i)"
    "\<forall>(t, ev)\<in>set draining. t < DRAIN_NS"
  shows "\<exists>stored. db_metrics d = map (row_of (js_peers (ce_json env)) (tag cfg) \<circ> snd) stored
    \<and> fst ` set stored \<subseteq> {..<length (hostlist cfg)}
    \<and> (\<forall>i<length (hostlist cfg). map snd (filter (\<lambda>p. fst p = i) stored) = windows_sent (tr i))
    \<and> (\<forall>p\<in>set stored. storable (js_peers (ce_json env)) (snd p))
    \<and> cr_tag (db_config d) = tag cfg \<and> js_strings (ce_json env) (hostlist cfg) = Some (cr_hostlist (db_config d))"
proof -
  obtain taken rest stored where t: "draining = taken @ rest"
      "db_metrics d = map (row_of (js_peers (ce_json env)) (tag cfg) \<circ> snd) stored"
      "fst ` set stored \<subseteq> {..<length (hostlist cfg)}"
      "\<forall>i<length (hostlist cfg). map snd (filter (\<lambda>p. fst p = i) stored)
        = pu_windows (pump_server (items_for i (during @ map snd taken)))"
      "(\<forall>i<length (hostlist cfg). pu_status (pump_server (items_for i (during @ map snd taken))) \<noteq> Pumping)
        \<or> (\<exists>t ev rest'. rest = (t, ev) # rest' \<and> DRAIN_NS \<le> t)"
    and stored: "\<forall>p\<in>set stored. storable (js_peers (ce_json env)) (snd p)"
      "cr_tag (db_config d) = tag cfg" "js_strings (ce_json env) (hostlist cfg) = Some (cr_hostlist (db_config d))"
    using client_run_db [OF assms(1)] by blast
  have "pu_windows (pump_server (items_for i (during @ map snd taken))) = windows_sent (tr i)" if i: "i < length (hostlist cfg)" for i
  proof -
    have "pu_status (pump_server (items_for i (during @ map snd taken))) \<noteq> Pumping"
      using t(1,5) assms(4) i by auto
    then have "pump_server (items_for i (during @ map snd taken) @ items_for i (map snd rest))
        = pump_server (items_for i (during @ map snd taken))"
      by (simp add: pump_server_def pump_ended)
    moreover have "items_for i (during @ map snd taken) @ items_for i (map snd rest) = stream_of ctx (s i) @ []"
      using assms(3) i by (simp add: t(1))
    ultimately have eq: "pump_server (items_for i (during @ map snd taken)) = pump_server (stream_of ctx (s i) @ [])" by metis
    have "session_completed ctx (inp i) (tr i) (s i)" using assms(2) i by blast
    then show ?thesis unfolding eq by (rule session_pump(2))
  qed
  then show ?thesis using t stored by (intro exI [of _ stored]) simp
qed

text \<open>C4: no window is lost between the servers and the database, whatever the interleaving of their messages: if
  every session has answered the Stop and its messages reach the client within five seconds, a run that
  ends well has stored, in rows interleaved over the servers, every window that each server sent, once and in
  order.\<close>

theorem run_stores_every_window:
  assumes "client_run to_vec env cfg turns during draining = Some (Inr d, conns)"
    "\<forall>i<length (hostlist cfg). session_completed ctx (inp i) (tr i) (s i)"
    "\<forall>i<length (hostlist cfg). items_for i (during @ map snd draining) = stream_of ctx (s i)"
    "\<forall>(t, ev)\<in>set draining. t < DRAIN_NS"
  shows "\<exists>stored. db_metrics d = map (row_of (js_peers (ce_json env)) (tag cfg) \<circ> snd) stored
    \<and> fst ` set stored \<subseteq> {..<length (hostlist cfg)}
    \<and> (\<forall>i<length (hostlist cfg). map snd (filter (\<lambda>p. fst p = i) stored) = windows_sent (tr i))"
  using run_rows [OF assms] by blast

lemma sample_session_completed:
  obtains io w s where "session_completed (sample_server w) sample_input (sample_labels io w) s"
    "stream_of (sample_server w) s = map Inr [Ack ''start'', Metrics w, Ack ''stop'']" "storable (\<lambda>_. Some []) w"
    "sends_sample w"
proof -
  obtain io w s where r: "run (session_step (sample_server w)) (session_new sample_input \<lparr>written = [], room = None\<rparr>) (sample_labels io w) s"
      "ss_pc s = Reading" "sends_sample w"
    by (rule sample_session)
  have tr: "sample_labels io w = take 6 (sample_labels io w) @ Replied (Ack ''stop'') (Inr ()) # []"
    by (simp add: sample_labels_def)
  have ok: "\<forall>l\<in>set (sample_labels io w). \<not> is_cut l"
      "\<forall>l\<in>set (sample_labels io w). \<forall>m\<in>set (messages l). json_ok (sc_to_vec (sample_server w)) (sc_from_slice (sample_server w)) m"
    by (simp_all add: sample_labels_def sample_json_ok_replies)
  moreover have "pump_safe False (map Inr (concat (map messages (take 6 (sample_labels io w)))))"
    by (simp add: sample_labels_def ends_pump_def)
  ultimately have "session_completed (sample_server w) sample_input (sample_labels io w) s"
    using r(1) tr unfolding session_completed_def by (metis empty_iff list.set(1))
  moreover have "stream_of (sample_server w) s = map Inr [Ack ''start'', Metrics w, Ack ''stop'']"
    using session_stream [OF r(1) ok] by (simp add: stream_of_def sample_labels_def)
  moreover have "storable (\<lambda>_. Some []) w"
    by (rule window_sent_storable [OF r(1)]) (simp_all add: windows_sent_def sample_labels_def)
  ultimately show thesis using r(3) by (rule that)
qed

lemma sample_whole_run:
  obtains io w s during d conns where
    "client_run (\<lambda>_. Some [1]) sample_client_env sample_config [sample_cancelled] during [] = Some (Inr d, conns)"
    "\<forall>i<length (hostlist sample_config). session_completed (sample_server w) sample_input (sample_labels io w) s"
    "\<forall>i<length (hostlist sample_config). items_for i (during @ map snd ([] :: (nat \<times> collect_event) list)) = stream_of (sample_server w) s"
    "windows_sent (sample_labels io w) = [w]" "sends_sample w"
proof -
  obtain io w s where s: "session_completed (sample_server w) sample_input (sample_labels io w) s"
      "stream_of (sample_server w) s = map Inr [Ack ''start'', Metrics w, Ack ''stop'']" "storable (\<lambda>_. Some []) w"
      "sends_sample w"
    by (rule sample_session_completed)
  let ?L = "[Ack ''start'', Metrics w, Ack ''stop'']"
  let ?during = "map (Arrives 0 \<circ> Inr) ?L @ map (Arrives 1 \<circ> Inr) ?L"
  let ?c = "fold collect_step ?during (collect_new 2)"
  have items: "items_for 0 ?during = stream_of (sample_server w) s" "items_for 1 ?during = stream_of (sample_server w) s"
    by (simp_all add: s(2))
  have over: "pu_status (pump_server (stream_of (sample_server w) s)) \<noteq> Pumping" using session_pump(1) [OF s(1), of "[]"] by simp
  have "pu_status (co_pumps ?c ! i) \<noteq> Pumping" if "i < 2" for i
  proof -
    have "items_for i ?during = stream_of (sample_server w) s" using that items by (auto simp only: less_2_cases_iff One_nat_def)
    then show ?thesis using collect_new_run(2) [OF that, of ?during] over by simp
  qed
  then have "all_joined ?c" by (simp only: all_joined_def list_all_length collect_new_run(1)) blast
  then have dr: "drain [] ?c = Some (Drained, ?c)" by (simp only: drain.simps if_True)
  have sent: "co_sent ?c = map Metric [w, w]"
    unfolding collect_new_run(3) by (simp add: pump_gains_def pump_step_def pump_new_def numeral_2_eq_2)
  have "\<forall>w'\<in>set [w, w]. storable (\<lambda>_. Some []) w'" using s(3) by simp
  with sample_client_run [OF dr sent] obtain d conns where run:
      "client_run (\<lambda>_. Some [1]) sample_client_env sample_config [sample_cancelled] ?during [] = Some (Inr d, conns)"
    by blast
  have n: "length (hostlist sample_config) = 2" by (simp add: sample_config_def)
  have "\<forall>i<length (hostlist sample_config). items_for i (?during @ map snd ([] :: (nat \<times> collect_event) list)) = stream_of (sample_server w) s"
    unfolding n using items by (auto simp: less_2_cases_iff simp flip: One_nat_def simp del: items_for.simps list.map(2))
  moreover have "windows_sent (sample_labels io w) = [w]" by (simp add: windows_sent_def sample_labels_def)
  ultimately show thesis using that [OF run] s(1,4) by blast
qed

lemma sample_run_names:
  "js_peers (ce_json sample_client_env) = (\<lambda>_. Some [])" "tag sample_config = ''t''" "length (hostlist sample_config) = 2"
  by (simp_all add: sample_client_env_def sample_config_def)

theorem run_stores_every_window_witness:
  "\<exists>w during d conns stored. client_run (\<lambda>_. Some [1]) sample_client_env sample_config [sample_cancelled] during [] = Some (Inr d, conns)
    \<and> db_metrics d = map (row_of (\<lambda>_. Some []) ''t'' \<circ> snd) stored
    \<and> map snd (filter (\<lambda>p. fst p = 0) stored) = [w] \<and> map snd (filter (\<lambda>p. fst p = (1 :: nat)) stored) = [w]"
proof -
  obtain io w s during d conns where
      run: "client_run (\<lambda>_. Some [1]) sample_client_env sample_config [sample_cancelled] during [] = Some (Inr d, conns)"
    and all: "\<forall>i<length (hostlist sample_config). session_completed (sample_server w) sample_input (sample_labels io w) s"
      "\<forall>i<length (hostlist sample_config). items_for i (during @ map snd ([] :: (nat \<times> collect_event) list)) = stream_of (sample_server w) s"
    and w: "windows_sent (sample_labels io w) = [w]"
    by (rule sample_whole_run)
  obtain stored where "db_metrics d = map (row_of (\<lambda>_. Some []) ''t'' \<circ> snd) stored"
      "\<forall>i<2 :: nat. map snd (filter (\<lambda>p. fst p = i) stored) = [w]"
    using run_stores_every_window [OF run, of "sample_server w" "\<lambda>_. sample_input" "\<lambda>_. sample_labels io w" "\<lambda>_. s",
        unfolded sample_run_names w] all [unfolded sample_run_names]
    by auto
  with run show ?thesis by (intro exI [of _ w] exI [of _ during] exI [of _ d] exI [of _ conns] exI [of _ stored] conjI) simp_all
qed

lemma mset_concat_map: "mset xs = mset ys \<Longrightarrow> mset (concat (map f xs)) = mset (concat (map f ys))"
  by (simp add: mset_concat) (metis mset_map sum_mset_sum_list)

lemma add_rows_total: "\<forall>r\<in>set rows. pj (rr_peers_json r) \<noteq> None \<Longrightarrow> \<exists>ts. add_rows pj rows ts0 = Inr ts"
  by (induction rows arbitrary: ts0) auto

text \<open>The report is computed from exactly what was stored: reading back the rows of the stored windows never
  fails, and the samples of every pair are those of the windows, each counted once.\<close>

theorem analysis_sees_stored_windows:
  assumes "db_metrics d = map (row_of js tg) ws" "\<forall>w\<in>set ws. storable js w" "\<forall>w\<in>set ws. \<forall>s. js (mw_peers w) = Some s \<longrightarrow> pj s = Some (mw_peers w)"
  shows "\<exists>ts. add_rows pj (select_metrics d) no_tables = Inr ts
    \<and> mset (samples_at (src, dst) ts) = mset (concat (map (window_samples src dst) ws))"
proof -
  let ?rows = "select_metrics d" and ?f = "\<lambda>row. row_samples src dst row (case pj (rr_peers_json row) of Some ps \<Rightarrow> ps | None \<Rightarrow> [])"
  have rows: "mset ?rows = mset (map (\<lambda>w. raw_row_of (row_of js tg w)) ws)"
    by (simp add: mset_select assms(1) image_mset.compositionality comp_def)
  have json: "pj (the (js (mw_peers w))) = Some (mw_peers w)" if "w \<in> set ws" for w
    using that assms(2,3) by (auto simp: storable_def)
  have "set ?rows = (\<lambda>w. raw_row_of (row_of js tg w)) ` set ws" using rows by (metis list.set_map mset_eq_setD)
  then have "\<forall>r\<in>set ?rows. pj (rr_peers_json r) \<noteq> None"
    using json assms(2) by (auto simp: raw_row_of_row)
  then obtain ts where ts: "add_rows pj ?rows no_tables = Inr ts" using add_rows_total by blast
  have "tables_ok no_tables" by (simp add: tables_ok_def no_tables_def)
  from add_rows_facts [OF ts this, of src dst]
  have "samples_at (src, dst) ts = concat (map ?f ?rows)"
    by (simp add: samples_at_def no_tables_def pair_samples_of_def)
  then have "mset (samples_at (src, dst) ts) = mset (concat (map ?f (map (\<lambda>w. raw_row_of (row_of js tg w)) ws)))"
    using mset_concat_map [OF rows] by simp
  also have "map ?f (map (\<lambda>w. raw_row_of (row_of js tg w)) ws) = map (window_samples src dst) ws"
    using json assms(2) by (simp add: raw_row_of_row row_samples_def window_samples_def)
  finally show ?thesis using ts by blast
qed

definition sample_traffic :: metric_window where
  "sample_traffic = (sample_window 5)\<lparr>mw_bytes_sent := 1000,
     mw_peers := [\<lparr>pm_peer = ''b'', pm_bytes_sent = 1000, pm_bytes_recv = 0, pm_packets_sent = 0, pm_packets_recv = 0, pm_packets_dropped = 0\<rparr>]\<rparr>"

definition sample_js :: "peer_metrics list \<Rightarrow> string option" where
  "sample_js ps = (if ps = mw_peers sample_traffic then Some ''x'' else None)"

theorem analysis_sees_stored_windows_witness:
  "\<exists>ts. add_rows (\<lambda>_. Some (mw_peers sample_traffic))
      (select_metrics (sample_db\<lparr>db_metrics := [row_of sample_js [] sample_traffic]\<rparr>)) no_tables = Inr ts
    \<and> samples_at (''a'', ''b'') ts = [(1000, 1000000000)]"
proof -
  let ?d = "sample_db\<lparr>db_metrics := [row_of sample_js [] sample_traffic]\<rparr>"
  have "\<exists>ts. add_rows (\<lambda>_. Some (mw_peers sample_traffic)) (select_metrics ?d) no_tables = Inr ts
      \<and> mset (samples_at (''a'', ''b'') ts) = mset (concat (map (window_samples ''a'' ''b'') [sample_traffic]))"
  proof (rule analysis_sees_stored_windows)
    show "db_metrics ?d = map (row_of sample_js []) [sample_traffic]" by simp
    show "\<forall>w\<in>set [sample_traffic]. storable sample_js w"
      by (simp add: storable_def sample_js_def sample_traffic_def sample_window_def build_window_def bps_value)
    show "\<forall>w\<in>set [sample_traffic]. \<forall>s. sample_js (mw_peers w) = Some s \<longrightarrow> Some (mw_peers sample_traffic) = Some (mw_peers w)" by simp
  qed
  moreover have "concat (map (window_samples ''a'' ''b'') [sample_traffic]) = [(1000, 1000000000)]"
    by (simp add: window_samples_def sample_traffic_def sample_window_def build_window_def MIN_WINDOW_NS_def)
  ultimately show ?thesis by auto
qed

section \<open>From the servers to the report\<close>

text \<open>All windows of a run, of one server after the other; rows that interleave them hold the same windows.\<close>

definition run_windows :: "nat \<Rightarrow> (nat \<Rightarrow> session_label list) \<Rightarrow> metric_window list" where
  "run_windows n tr = concat (map (\<lambda>i. windows_sent (tr i)) [0..<n])"

lemma mset_by_owner:
  assumes "fst ` set stored \<subseteq> {..<n}"
  shows "mset (map snd stored) = mset (concat (map (\<lambda>i. map snd (filter (\<lambda>p. fst p = i) stored)) [0..<n]))"
proof -
  have "mset (map snd stored) = (\<Sum>i<n. mset (map snd (filter (\<lambda>p. fst p = i) stored)))"
    using assms
  proof (induction stored)
    case (Cons p stored)
    have "(\<Sum>i<n. mset (map snd (filter (\<lambda>p. fst p = i) (p # stored))))
        = (\<Sum>i<n. (if i = fst p then {#snd p#} else {#}) + mset (map snd (filter (\<lambda>p. fst p = i) stored)))"
      by (intro sum.cong) auto
    also have "\<dots> = {#snd p#} + (\<Sum>i<n. mset (map snd (filter (\<lambda>p. fst p = i) stored)))"
      using Cons.prems by (simp add: sum.distrib)
    finally show ?case using Cons by simp
  qed simp
  then show ?thesis by (simp add: mset_concat comp_def interv_sum_list_conv_sum_set_nat atLeast0LessThan)
qed

definition traffic :: "metric_window \<Rightarrow> bool" where
  "traffic w \<longleftrightarrow> MIN_WINDOW_NS \<le> mw_duration_ns w \<and> 0 < mw_bytes_sent w"

lemma total_of_stored:
  assumes "add_rows pj (select_metrics d) no_tables = Inr ts" "db_metrics d = map (row_of js tg) ws" "\<forall>w\<in>set ws. storable js w"
  shows "total_stats ts = None \<longleftrightarrow> (\<forall>w\<in>set ws. \<not> traffic w)"
proof -
  have "tables_ok no_tables" by (simp add: tables_ok_def no_tables_def)
  from add_rows_facts [OF assms(1) this]
  have "total_stats ts = None \<longleftrightarrow> (\<forall>r\<in>set (select_metrics d). \<not> counted r)"
    by (simp add: total_stats_None no_tables_def filter_empty_conv)
  also have "set (select_metrics d) = (\<lambda>w. raw_row_of (row_of js tg w)) ` set ws"
    using mset_select [of d] by (metis assms(2) list.set_map set_mset_mset set_image_mset image_image)
  finally show ?thesis using assms(3) by (simp add: raw_row_of_row counted_def traffic_def)
qed

text \<open>From the servers to the report: a run whose sessions were completed in time, analyzed afterwards, gives a
  report of its own tag and hosts whose pairs are exactly the pairs with traffic in the windows that the servers
  sent, each with the statistics of exactly those windows; there is no report only if no server sent a byte in a window
  long enough to count.\<close>

theorem report_of_a_run:
  assumes "client_run to_vec env cfg turns during draining = Some (Inr d, conns)"
    "\<forall>i<length (hostlist cfg). session_completed ctx (inp i) (tr i) (s i)"
    "\<forall>i<length (hostlist cfg). items_for i (during @ map snd draining) = stream_of ctx (s i)"
    "\<forall>(t, ev)\<in>set draining. t < DRAIN_NS"
    "\<forall>w\<in>set (run_windows (length (hostlist cfg)) tr). \<forall>t. js_peers (ce_json env) (mw_peers w) = Some t \<longrightarrow> pj t = Some (mw_peers w)"
    "\<forall>t. js_strings (ce_json env) (hostlist cfg) = Some t \<longrightarrow> sj t = Some (hostlist cfg)"
    "require_db_file kind path = Inr ()" "open_db path = d"
  shows "case load kind sj pj display open_db path of
      Inl e \<Rightarrow> e = No_metrics path \<and> (\<forall>w\<in>set (run_windows (length (hostlist cfg)) tr). \<not> traffic w)
    | Inr rp \<Rightarrow> (\<exists>w\<in>set (run_windows (length (hostlist cfg)) tr). traffic w)
        \<and> rp_tag rp = tag cfg \<and> rp_hosts rp = hostlist cfg \<and> distinct (map (\<lambda>p. (ps_src p, ps_dst p)) (rp_pairs rp))
        \<and> (\<forall>p. p \<in> set (rp_pairs rp) \<longleftrightarrow>
            from_samples (concat (map (window_samples (ps_src p) (ps_dst p)) (run_windows (length (hostlist cfg)) tr))) = Some (ps_stats p))"
proof -
  let ?js = "js_peers (ce_json env)" and ?all = "run_windows (length (hostlist cfg)) tr"
  obtain stored where st: "db_metrics d = map (row_of ?js (tag cfg)) (map snd stored)" "fst ` set stored \<subseteq> {..<length (hostlist cfg)}"
      "\<forall>i<length (hostlist cfg). map snd (filter (\<lambda>p. fst p = i) stored) = windows_sent (tr i)"
    and ok: "\<forall>w\<in>set (map snd stored). storable ?js w"
    and cr: "cr_tag (db_config d) = tag cfg" "js_strings (ce_json env) (hostlist cfg) = Some (cr_hostlist (db_config d))"
    using run_rows [OF assms(1-4)] by auto
  have "map (\<lambda>i. map snd (filter (\<lambda>p. fst p = i) stored)) [0..<length (hostlist cfg)]
      = map (\<lambda>i. windows_sent (tr i)) [0..<length (hostlist cfg)]"
    using st(3) by simp
  then have all: "mset (map snd stored) = mset ?all" using mset_by_owner [OF st(2)] by (simp only: run_windows_def)
  then have sent: "set (map snd stored) = set ?all" by (rule mset_eq_setD)
  have read: "\<exists>ts. add_rows pj (select_metrics d) no_tables = Inr ts
      \<and> mset (samples_at (src, dst) ts) = mset (concat (map (window_samples src dst) (map snd stored)))" for src dst
    using assms(5) by (intro analysis_sees_stored_windows [OF st(1) ok]) (simp only: sent)
  then obtain ts where rows: "add_rows pj (select_metrics d) no_tables = Inr ts" by blast
  have ts: "mset (samples_at (src, dst) ts) = mset (concat (map (window_samples src dst) (map snd stored)))" for src dst
    using read [of src dst] by (simp only: rows sum.inject ex_simps simp_thms)
  have "from_samples (pair_samples_of pj src dst (select_metrics d)) = from_samples (concat (map (window_samples src dst) ?all))" for src dst
  proof (rule from_samples_mset)
    have "tables_ok no_tables" by (simp add: tables_ok_def no_tables_def)
    from add_rows_facts [OF rows this, of src dst]
    have "samples_at (src, dst) ts = pair_samples_of pj src dst (select_metrics d)" by (simp add: samples_at_def no_tables_def)
    then show "mset (pair_samples_of pj src dst (select_metrics d)) = mset (concat (map (window_samples src dst) ?all))"
      using ts [of src dst] mset_concat_map [OF all, of "window_samples src dst"] by simp
  qed
  then have pairs: "distinct (map (\<lambda>p. (ps_src p, ps_dst p)) (pair_list ts))"
      "\<And>p. p \<in> set (pair_list ts) \<longleftrightarrow> from_samples (concat (map (window_samples (ps_src p) (ps_dst p)) ?all)) = Some (ps_stats p)"
    using pair_list_facts [OF rows] by simp_all
  have total: "total_stats ts = None \<longleftrightarrow> (\<forall>w\<in>set ?all. \<not> traffic w)"
    using total_of_stored [OF rows st(1) ok] by (simp only: sent)
  have "sj (cr_hostlist (db_config d)) = Some (hostlist cfg)" using assms(6) cr(2) by blast
  then show ?thesis
    using total pairs assms(7,8) cr(1) rows by (cases "total_stats ts") (auto simp: load_def Let_def)
qed

theorem report_of_a_run_witness:
  "\<exists>during d conns pj rp st. client_run (\<lambda>_. Some [1]) sample_client_env sample_config [sample_cancelled] during [] = Some (Inr d, conns)
    \<and> load (\<lambda>_. Regular_file) (\<lambda>_. Some [''a'', ''b'']) pj id (\<lambda>_. d) ''t.db'' = Inr rp \<and> rp_tag rp = ''t''
    \<and> \<lparr>ps_src = ''a'', ps_dst = ''b'', ps_stats = st\<rparr> \<in> set (rp_pairs rp) \<and> windows st = 2"
proof -
  obtain io w s during d conns where
      run: "client_run (\<lambda>_. Some [1]) sample_client_env sample_config [sample_cancelled] during [] = Some (Inr d, conns)"
    and all: "\<forall>i<length (hostlist sample_config). session_completed (sample_server w) sample_input (sample_labels io w) s"
      "\<forall>i<length (hostlist sample_config). items_for i (during @ map snd ([] :: (nat \<times> collect_event) list)) = stream_of (sample_server w) s"
    and w: "windows_sent (sample_labels io w) = [w]" "sends_sample w"
    by (rule sample_whole_run)
  have ww: "run_windows (length (hostlist sample_config)) (\<lambda>_. sample_labels io w) = [w, w]"
    by (simp add: run_windows_def sample_run_names w(1) numeral_2_eq_2)
  have traffic: "traffic w" and samples: "window_samples ''a'' ''b'' w = [(1000, 1000000000)]"
    using w(2) by (simp_all add: sends_sample_def traffic_def window_samples_def MIN_WINDOW_NS_def)
  let ?load = "load (\<lambda>_. Regular_file) (\<lambda>_. Some [''a'', ''b'']) (\<lambda>_. Some (mw_peers w)) id (\<lambda>_. d) ''t.db''"
  note rep = report_of_a_run [OF run, of "sample_server w" "\<lambda>_. sample_input" "\<lambda>_. sample_labels io w" "\<lambda>_. s" "\<lambda>_. Some (mw_peers w)"
      "\<lambda>_. Some [''a'', ''b'']" "\<lambda>_. Regular_file" "''t.db''" "\<lambda>_. d" id, OF all, unfolded ww]
  have "case ?load of Inl e \<Rightarrow> False
      | Inr rp \<Rightarrow> rp_tag rp = ''t'' \<and> (\<forall>p. p \<in> set (rp_pairs rp) \<longleftrightarrow>
          from_samples (concat (map (window_samples (ps_src p) (ps_dst p)) [w, w])) = Some (ps_stats p))"
    using rep traffic by (simp add: require_db_file_def sample_config_def split: sum.splits)
  then obtain rp where rp: "?load = Inr rp" "rp_tag rp = ''t''"
      "\<forall>p. p \<in> set (rp_pairs rp) \<longleftrightarrow>
          from_samples (concat (map (window_samples (ps_src p) (ps_dst p)) [w, w])) = Some (ps_stats p)"
    by (auto split: sum.splits)
  obtain st where "from_samples [(1000, 1000000000), (1000, 1000000000)] = Some st" "windows st = 2"
    by (auto simp: from_samples_def Let_def)
  then have "\<lparr>ps_src = ''a'', ps_dst = ''b'', ps_stats = st\<rparr> \<in> set (rp_pairs rp)" "windows st = 2"
    using rp(3) by (simp_all add: samples)
  with run rp(1,2) show ?thesis by blast
qed

section \<open>The sessions of a run\<close>

text \<open>A session that has read all its input and waits again, over an intact connection, and reported no error.\<close>

definition session_served :: "server_ctx \<Rightarrow> byte list \<Rightarrow> session_label list \<Rightarrow> session \<Rightarrow> bool" where
  "session_served ctx inp tr s \<longleftrightarrow>
     run (session_step ctx) (session_new inp \<lparr>written = [], room = None\<rparr>) tr s \<and> ss_pc s = Reading \<and> ss_in s = []
     \<and> (\<forall>l\<in>set tr. \<not> is_cut l) \<and> (\<forall>l\<in>set tr. \<forall>m\<in>set (messages l). json_ok (sc_to_vec ctx) (sc_from_slice ctx) m)
     \<and> (\<forall>m\<in>set (concat (map replies tr)). \<forall>t. m \<noteq> Error t)"

lemma no_start_step:
  assumes "session_step ctx s l s'" "start_due (ss_pc s) = None" "commands l = []"
  shows "start_due (ss_pc s') = None \<and> \<not> starts_test l"
  using assms
proof (cases rule: session_step.cases)
  case (stopped t k)
  then show ?thesis using assms(2) by (cases k) simp_all
next
  case (cut t k)
  then show ?thesis using assms(2) by (cases k) simp_all
next
  case (recv_other m rest)
  then show ?thesis using assms(2) by (cases m) simp_all
qed (simp_all add: take_test_def split: option.split)

lemma no_start_run:
  "run (session_step ctx) s tr s' \<Longrightarrow> start_due (ss_pc s) = None \<Longrightarrow> concat (map commands tr) = [] \<Longrightarrow> \<forall>l\<in>set tr. \<not> starts_test l"
proof (induction rule: run.induct)
  case (run_Cons s l s1 tr s')
  then show ?case using no_start_step [OF run_Cons(1)] by simp
qed simp

lemma split_last_reply:
  assumes "concat (map replies tr) = rs @ [m]"
  obtains before r after where "tr = before @ Replied m r # after" "concat (map replies before) = rs" "concat (map replies after) = []"
  using assms
proof (induction tr arbitrary: thesis rule: rev_induct)
  case (snoc l tr)
  show ?case
  proof (cases "replies l")
    case Nil
    then obtain before r after where "tr = before @ Replied m r # after" "concat (map replies before) = rs" "concat (map replies after) = []"
      using snoc.IH snoc.prems(2) by auto
    then show ?thesis using Nil by (intro snoc.prems(1) [of before r "after @ [l]"]) simp_all
  next
    case (Cons x xs)
    then obtain r where "l = Replied x r" "xs = []" by (cases l) simp_all
    then show ?thesis using snoc.prems Cons by (intro snoc.prems(1) [of tr r "[]"]) simp_all
  qed
qed simp

lemma room_along:
  assumes "run (session_step ctx) s tr s'" "\<forall>l\<in>set tr. \<not> is_cut l" "room (ss_out s) = None"
    "\<forall>l\<in>set tr. \<forall>m\<in>set (messages l). json_ok (sc_to_vec ctx) (sc_from_slice ctx) m"
  shows "room (ss_out s') = None"
  using assms
proof (induction rule: run.induct)
  case (run_Cons s l s1 tr s')
  then show ?case using session_step_wire [OF run_Cons(1)] by simp
qed simp

lemma pump_safe_quiet: "\<forall>m\<in>set ms. m \<noteq> Ack ''stop'' \<and> (\<forall>t. m \<noteq> Error t) \<Longrightarrow> pump_safe got (map Inr ms)"
  by (induction ms arbitrary: got) (auto simp: ends_pump_def split: msg.split)

lemma messages_replies: "m \<in> set (concat (map messages tr)) \<Longrightarrow> m \<in> set (concat (map replies tr)) \<or> (\<exists>w. m = Metrics w)"
proof (induction tr)
  case (Cons l tr)
  then show ?case by (cases l) auto
qed simp

lemma all_answered:
  assumes "list_all2 answers (replicate n Start_command) rs" "\<forall>m\<in>set rs. \<forall>t. m \<noteq> Error t"
  shows "rs = replicate n (Ack ''start'')"
  using assms
proof (induction n arbitrary: rs)
  case (Suc n)
  then obtain m ms where "rs = m # ms" "answers Start_command m" "list_all2 answers (replicate n Start_command) ms"
    by (auto simp: list_all2_Cons1)
  with Suc show ?case by (auto simp: answers_def)
qed simp

text \<open>A session that was sent Starts and one Stop, and has served them, is completed.\<close>

lemma served_completed:
  assumes "session_served ctx inp tr s" "concat (map commands tr) = replicate n Start_command @ [Stop_command]"
  shows "session_completed ctx inp tr s"
proof -
  have r: "run (session_step ctx) (session_new inp \<lparr>written = [], room = None\<rparr>) tr s" "ss_pc s = Reading"
      "\<forall>l\<in>set tr. \<not> is_cut l" "\<forall>l\<in>set tr. \<forall>m\<in>set (messages l). json_ok (sc_to_vec ctx) (sc_from_slice ctx) m"
      "\<forall>m\<in>set (concat (map replies tr)). \<forall>t. m \<noteq> Error t"
    using assms(1) unfolding session_served_def by blast+
  have "list_all2 answers (replicate n Start_command @ [Stop_command]) (concat (map replies tr))"
    using replies.run_balance [OF r(1) TrueI] r(2) assms(2) by (auto simp: session_new_def)
  then obtain rs m where rs: "concat (map replies tr) = rs @ [m]" "list_all2 answers (replicate n Start_command) rs" "m = Ack ''stop''"
    by (auto simp: list_all2_append1 list_all2_Cons1 answers_def)
  have starts: "rs = replicate n (Ack ''start'')" by (rule all_answered [OF rs(2)]) (use r(5) rs(1) in auto)
  obtain before x after where tr: "tr = before @ Replied (Ack ''stop'') x # after" "concat (map replies before) = rs"
    by (rule split_last_reply [OF rs(1)]) (auto simp: rs(3))
  obtain s1 s2 where s: "run (session_step ctx) (session_new inp \<lparr>written = [], room = None\<rparr>) before s1"
      "session_step ctx s1 (Replied (Ack ''stop'') x) s2" "run (session_step ctx) s2 after s"
    using r(1) unfolding tr(1) by (auto simp: run_append_iff run_Cons_iff)
  have room: "room (ss_out s1) = None" by (rule room_along [OF s(1)]) (use r(3,4) in \<open>auto simp: tr(1) session_new_def\<close>)
  have json: "json_ok (sc_to_vec ctx) (sc_from_slice ctx) (Ack ''stop'')" using r(4) by (auto simp: tr(1))
  have x: "x = Inr () \<and> ss_pc s2 = Reading \<and> ss_pc s1 = Acking_stop"
    using s(2)
  proof (cases rule: session_step.cases)
    case (stop_ack_failed e)
    then show ?thesis using write_frame_json_ok [OF json, of "ss_out s1"] room by simp
  qed simp_all
  have "\<exists>cs. concat (map commands before) = cs @ [Stop_command] \<and> list_all2 answers cs rs"
    using replies.run_balance [OF s(1) TrueI] x tr(2) by (auto simp: session_new_def)
  then obtain cs where "concat (map commands before) = cs @ [Stop_command]" "length cs = n"
    by (auto dest: list_all2_lengthD simp: starts)
  moreover have "length (concat (map commands tr)) = Suc n" unfolding assms(2) by simp
  ultimately have "concat (map commands after) = []" by (simp add: tr(1))
  then have after: "\<forall>l\<in>set after. \<not> starts_test l" using no_start_run [OF s(3)] x by simp
  have "m \<noteq> Ack ''stop'' \<and> (\<forall>t. m \<noteq> Error t)" if "m \<in> set (concat (map messages before))" for m
    using messages_replies [OF that] by (auto simp: tr(2) starts)
  then have "pump_safe False (map Inr (concat (map messages before)))" by (intro pump_safe_quiet) blast
  then show ?thesis using r(1,3,4) tr(1) x after unfolding session_completed_def by blast
qed


section \<open>The connections of a run\<close>

lemma each_host_results:
  "each_host f err hs = Some (Inr xs) \<Longrightarrow> list_all2 (\<lambda>h x. f h = Some (Inr x)) hs xs"
  by (induction hs arbitrary: xs) (auto simp: map_sum_Inr_iff split: option.splits sum.splits)

text \<open>Connections that are new and without a limit.\<close>

definition opens_connections :: "client_env \<Rightarrow> bool" where
  "opens_connections env \<longleftrightarrow> (\<forall>n dest w. ce_connect env n dest = Some w \<longrightarrow> w = \<lparr>written = [], room = None\<rparr>)"

lemma connected_open:
  assumes "opens_connections env" "connect_tcp_retry fuel polls (ce_connect env) h port dl = Some (Inr w)"
  shows "w = \<lparr>written = [], room = None\<rparr>"
  using assms unfolding connect_tcp_retry_def connect_tcp_dest_def opens_connections_def
  by (auto dest!: retry_result split: option.splits)

lemma setup_opened:
  assumes "opens_connections env" "client_setup env cfg = Some (Inr (d, resolved, conns))"
  shows "conns = opened cfg"
proof -
  obtain f err ws where "each_host f err (hostlist cfg) = Some (Inr ws)" "conns = zip (hostlist cfg) ws"
      "\<And>h w. f h = Some (Inr w) \<Longrightarrow> w = \<lparr>written = [], room = None\<rparr>"
    using assms(2) connected_open [OF assms(1)]
    by (auto simp: client_setup_def map_sum_Inr_iff split: sum.splits option.splits)
  then have "list_all2 (\<lambda>h w. w = \<lparr>written = [], room = None\<rparr>) (hostlist cfg) ws" "conns = zip (hostlist cfg) ws"
    by (auto elim!: list_all2_mono dest: each_host_results)
  then show ?thesis
    unfolding opened_def by (induction arbitrary: conns rule: list_all2_induct) simp_all
qed

text \<open>What a server reads in a run: Starts for its own host and then a Stop.\<close>

lemma stopped_stream:
  assumes "distinct (hostlist cfg)" "length (hostlist cfg) \<le> 2 ^ 32" "length resolved = length (hostlist cfg)"
    "test_messages_ok to_vec (sc_from_slice ctx) cfg resolved"
    "client_test to_vec cfg resolved turns (opened cfg) = Some (r, ws)" "i < length (hostlist cfg)"
    "run (session_step ctx) (session_new (written (snd (stop_all to_vec ws ! i))) out) tr s" "ss_in s = []"
  shows "r = Inr () \<and> (\<exists>starts. concat (map received tr) = map (Start cfg) starts @ [Stop]
    \<and> (\<forall>a\<in>set starts. self_name a = hostlist cfg ! i \<and> unat (self_id a) = i)
    \<and> concat (map commands tr) = replicate (length starts) Start_command @ [Stop_command])"
proof -
  obtain starts where st: "r = Inr ()" "snd (ws ! i) = \<lparr>written = wire_of to_vec (map (Start cfg) starts), room = None\<rparr>"
      "length ws = length (hostlist cfg)" "\<forall>a\<in>set starts. json_ok to_vec (sc_from_slice ctx) (Start cfg a)"
      "\<forall>a\<in>set starts. self_name a = hostlist cfg ! i \<and> unat (self_id a) = i"
    using test_streams [OF assms(1-6)] by blast
  have "read_frames (sc_from_slice ctx) (written (snd (stop_all to_vec ws ! i))) = map (Start cfg) starts @ [Stop]"
    by (rule stop_all_stream [OF _ _ _ st(2)]) (use assms(4,6) st in \<open>auto simp: test_messages_ok_def\<close>)
  then have rcv: "concat (map received tr) = map (Start cfg) starts @ [Stop]"
    using session_run_reads [OF assms(7)] assms(8) by (simp add: session_new_def read_frames_Nil)
  moreover have "concat (map (\<lambda>x. [Start_command]) starts) = replicate (length starts) Start_command" by (induction starts) simp_all
  ultimately have "concat (map commands tr) = replicate (length starts) Start_command @ [Stop_command]"
    by (simp add: commands_of_received [of tr] comp_def)
  with rcv st(1,5) show ?thesis by blast
qed

text \<open>A run of the client against servers that serve what it writes.\<close>

lemma run_served:
  assumes "client_run (sc_to_vec ctx) env cfg turns during draining = Some (Inr d, conns)"
    "distinct (hostlist cfg)" "length (hostlist cfg) \<le> 2 ^ 32" "opens_connections env"
    "\<forall>d resolved conns. client_setup env cfg = Some (Inr (d, resolved, conns)) \<longrightarrow>
      test_messages_ok (sc_to_vec ctx) (sc_from_slice ctx) cfg resolved"
    "i < length (hostlist cfg)" "session_served ctx (written (snd (conns ! i))) tr s"
  shows "session_completed ctx (written (snd (conns ! i))) tr s \<and> ss_live s = []"
proof -
  obtain d0 resolved conns0 conns1 where su: "client_setup env cfg = Some (Inr (d0, resolved, conns0))"
    and test: "client_test (sc_to_vec ctx) cfg resolved turns conns0 = Some (Inr (), conns1)"
    and conns: "conns = stop_all (sc_to_vec ctx) conns1"
    using assms(1) by (auto simp: client_run_def Let_def split: option.splits sum.splits prod.splits)
  have served: "run (session_step ctx) (session_new (written (snd (stop_all (sc_to_vec ctx) conns1 ! i))) \<lparr>written = [], room = None\<rparr>) tr s"
      "ss_in s = []" "ss_pc s = Reading"
    using assms(7) by (simp_all add: session_served_def conns)
  have len: "length resolved = length (hostlist cfg)" using client_setup_facts [OF su] by simp
  have "test_messages_ok (sc_to_vec ctx) (sc_from_slice ctx) cfg resolved" using assms(5) su by blast
  from stopped_stream [OF assms(2,3) len this test [unfolded setup_opened [OF assms(4) su]] assms(6) served(1,2)]
  obtain n where cmds: "concat (map commands tr) = replicate n Start_command @ [Stop_command]" by blast
  show ?thesis using served_completed [OF assms(7) cmds] idle_after_stop [OF served(1,3) cmds] by blast
qed

section \<open>The end of a run\<close>

text \<open>C8: the end of a run: whenever the test of a client ends by cancellation, with servers that took everything
  it wrote, it has ended without an error or a panic, each server was sent Starts with its own assignment and
  one Stop, and a server that has read all of that and waits again has answered every Start and
  the Stop and has no test left running.\<close>

theorem stopped_servers_idle:
  assumes "distinct (hostlist cfg)" "length (hostlist cfg) \<le> 2 ^ 32" "length resolved = length (hostlist cfg)"
    "test_messages_ok to_vec (sc_from_slice ctx) cfg resolved"
    "client_test to_vec cfg resolved turns (opened cfg) = Some (r, ws)" "i < length (hostlist cfg)"
    "run (session_step ctx) (session_new (written (snd (stop_all to_vec ws ! i))) out) tr s" "ss_pc s = Reading" "ss_in s = []"
  shows "r = Inr () \<and> (\<exists>starts. concat (map received tr) = map (Start cfg) starts @ [Stop]
    \<and> (\<forall>a\<in>set starts. self_name a = hostlist cfg ! i \<and> unat (self_id a) = i)
    \<and> list_all2 answers (replicate (length starts) Start_command @ [Stop_command]) (concat (map replies tr)))
    \<and> ss_live s = []"
proof -
  obtain starts where st: "r = Inr ()" "concat (map received tr) = map (Start cfg) starts @ [Stop]"
      "\<forall>a\<in>set starts. self_name a = hostlist cfg ! i \<and> unat (self_id a) = i"
      "concat (map commands tr) = replicate (length starts) Start_command @ [Stop_command]"
    using stopped_stream [OF assms(1-7,9)] by blast
  have "list_all2 answers (concat (map commands tr)) (concat (map replies tr))"
    using replies.run_balance [OF assms(7) TrueI] assms(8) by (auto simp: session_new_def)
  then show ?thesis using idle_after_stop [OF assms(7,8) st(4)] st by auto
qed

definition plan_resolved :: "socket_addr list" where
  "plan_resolved = [SockV4 167772161 9100, SockV4 167772162 9100]"

lemma sample_plan: "mesh_plan sample_config plan_resolved = [sample_assignment, sample_peer]"
  by code_simp

lemma sample_plan_ok:
  "json_ok (sc_to_vec (sample_server w)) (sc_from_slice (sample_server w)) m"
  if "m \<in> {Start sample_config sample_assignment, Start sample_config sample_peer, Stop}"
  using that by (auto simp: json_ok_def sample_server_def MAX_FRAME_def sample_assignment_def sample_peer_def)

lemma sample_test:
  "client_test (sc_to_vec (sample_server w)) sample_config plan_resolved [sample_cancelled] (opened sample_config)
    = Some (Inr (), [(''a'', \<lparr>written = frame [1], room = None\<rparr>), (''b'', \<lparr>written = frame [7], room = None\<rparr>)])"
proof -
  have hosts: "hostlist sample_config = [''a'', ''b'']" and mesh: "cfg_type sample_config = Mesh" by (simp_all add: sample_config_def)
  have ids: "self_id sample_assignment = 0" "self_id sample_peer = 1" by (simp_all add: sample_assignment_def sample_peer_def)
  have "fill_resolved (assignments_mesh (hostlist sample_config)) plan_resolved = Some [sample_assignment, sample_peer]"
    by (rule mesh_plan_facts(1) [of sample_config plan_resolved, unfolded sample_plan]) (simp_all add: hosts plan_resolved_def)
  then show ?thesis
    using send_starts_open [of "[sample_assignment, sample_peer]" "sc_to_vec (sample_server w)" "sc_from_slice (sample_server w)"
        sample_config "opened sample_config"]
    by (simp add: client_test_def mesh start_mesh_def sample_plan_ok opened_def hosts wire_of_def sample_cancelled_def ids)
      (simp add: sample_server_def ids)
qed

lemma sample_stopped:
  "stop_all (sc_to_vec (sample_server w)) [(''a'', \<lparr>written = frame [1], room = None\<rparr>), (''b'', \<lparr>written = frame [7], room = None\<rparr>)]
    = [(''a'', \<lparr>written = sample_input, room = None\<rparr>), (''b'', \<lparr>written = frame [7] @ frame [2], room = None\<rparr>)]"
  using write_frame_open_json [OF sample_plan_ok [of Stop w]]
  by (simp add: stop_all_def wire_of_def sample_input_def) (simp add: sample_server_def)

lemma sample_messages_ok:
  "test_messages_ok (sc_to_vec (sample_server w)) (sc_from_slice (sample_server w)) sample_config plan_resolved"
  by (simp add: test_messages_ok_def sample_plan sample_plan_ok sample_config_def [THEN arg_cong [of _ _ cfg_type]])

theorem stopped_servers_idle_witness:
  "\<exists>io w s ws. client_test (sc_to_vec (sample_server w)) sample_config plan_resolved [sample_cancelled] (opened sample_config) = Some (Inr (), ws)
    \<and> run (session_step (sample_server w))
        (session_new (written (snd (stop_all (sc_to_vec (sample_server w)) ws ! 0))) \<lparr>written = [], room = None\<rparr>) (sample_labels io w) s
    \<and> ss_live s = []"
proof -
  obtain io w s where r: "run (session_step (sample_server w)) (session_new sample_input \<lparr>written = [], room = None\<rparr>) (sample_labels io w) s"
      "ss_pc s = Reading" "ss_in s = []"
    by (rule sample_session)
  have hosts: "hostlist sample_config = [''a'', ''b'']" by (simp add: sample_config_def)
  have "ss_live s = []"
    using stopped_servers_idle [OF _ _ _ sample_messages_ok sample_test, of 0] r by (simp add: hosts plan_resolved_def sample_stopped)
  with r(1) show ?thesis
    by (intro exI [of _ io] exI [of _ w] exI [of _ s] exI conjI) (rule sample_test, simp_all add: sample_stopped)
qed

end
