(* ===== verification/Frame_Lock.thy ===== *)
theory Frame_Lock
  imports Proto Transition
begin

text \<open>
  \<open>write_frame_locked\<close> of \<open>src/src/proto.rs\<close>: the handler of a control session and the metrics task write to
  the same connection, each frame under the lock of the writer. A task that has the lock writes its
  frame in as many pieces as the socket takes; the others wait. The session of theory Server writes whole
  frames in one step each; what is shown here is that the lock makes this right.
\<close>

section \<open>The lock\<close>

text \<open>The task that holds the lock with the bytes it has not yet written, and the bytes on the wire.\<close>

record locked_writer =
  lw_guard :: "(nat \<times> byte list) option"
  lw_out :: "byte list"

datatype lock_label =
    Locked nat msg
  | Not_sent nat msg frame_error
  | Wrote nat "byte list"
  | Unlocked nat
  | Let_go nat

text \<open>The last label is a task that drops its guard before its frame is complete: the connection fails or
  the task is aborted.\<close>

inductive write_frame_locked ::
  "(msg \<Rightarrow> byte list option) \<Rightarrow> locked_writer \<Rightarrow> lock_label \<Rightarrow> locked_writer \<Rightarrow> bool" for to_vec where
  locked: "write_frame_locked to_vec w (Locked i m) (w\<lparr>lw_guard := Some (i, written w')\<rparr>)"
    if "lw_guard w = None" "write_frame to_vec m \<lparr>written = [], room = None\<rparr> = (Inr (), w')"
| not_sent: "write_frame_locked to_vec w (Not_sent i m e) w"
    if "lw_guard w = None" "write_frame to_vec m \<lparr>written = [], room = None\<rparr> = (Inl e, w')"
| wrote: "write_frame_locked to_vec w (Wrote i bs) (w\<lparr>lw_guard := Some (i, rest), lw_out := lw_out w @ bs\<rparr>)"
    if "lw_guard w = Some (i, bs @ rest)" "bs \<noteq> []"
| unlocked: "write_frame_locked to_vec w (Unlocked i) (w\<lparr>lw_guard := None\<rparr>)"
    if "lw_guard w = Some (i, [])"
| let_go: "write_frame_locked to_vec w (Let_go i) (w\<lparr>lw_guard := None\<rparr>)"
    if "lw_guard w = Some (i, b # bs)"

inductive_cases write_frame_lockedE: "write_frame_locked to_vec w l w'"

section \<open>Facts\<close>

definition unwritten :: "locked_writer \<Rightarrow> byte list" where
  "unwritten w = (case lw_guard w of None \<Rightarrow> [] | Some (_, bs) \<Rightarrow> bs)"

fun entered :: "lock_label \<Rightarrow> msg list" where
  "entered (Locked _ m) = [m]"
| "entered _ = []"

fun lets_go :: "lock_label \<Rightarrow> bool" where
  "lets_go (Let_go _) = True"
| "lets_go _ = False"

lemma write_frame_whole:
  assumes "write_frame to_vec m \<lparr>written = [], room = None\<rparr> = (Inr (), w')"
  shows "written w' = wire_of to_vec [m]"
  using assms by (auto simp: write_frame_def write_all_def wire_of_def frame_def split: option.splits if_splits)

lemma lock_step_bytes:
  assumes "write_frame_locked to_vec w l w'" "\<not> lets_go l"
  shows "lw_out w' @ unwritten w' = lw_out w @ unwritten w @ wire_of to_vec (entered l)"
  using assms
proof (cases rule: write_frame_locked.cases)
  case (locked w'' i m)
  then show ?thesis using write_frame_whole by (simp add: unwritten_def)
qed (simp_all add: unwritten_def wire_of_def)

lemma wire_of_append: "wire_of to_vec (ms @ ms') = wire_of to_vec ms @ wire_of to_vec ms'"
  by (simp add: wire_of_def)

lemma lock_run_bytes:
  "run (write_frame_locked to_vec) w tr w' \<Longrightarrow> list_all (Not \<circ> lets_go) tr \<Longrightarrow>
    lw_out w' @ unwritten w' = lw_out w @ unwritten w @ wire_of to_vec (concat (map entered tr))"
proof (induction rule: run.induct)
  case (run_Cons w l w1 tr w2)
  then show ?case using lock_step_bytes [of to_vec w l w1] by (simp add: wire_of_append)
qed (simp add: wire_of_def)

text \<open>A beginning of a stream of frames reads as a beginning of its messages.\<close>

lemma read_frames_prefix:
  assumes "\<forall>m\<in>set ms. json_ok to_vec from_slice m" "prefix bs (wire_of to_vec ms)"
  shows "prefix (read_frames from_slice bs) ms"
  using assms
proof (induction ms arbitrary: bs)
  case Nil
  then show ?case by (simp add: wire_of_def read_frames_Nil)
next
  case (Cons m ms)
  then obtain data where d: "to_vec m = Some data" "data \<noteq> []" "length data \<le> MAX_FRAME" "from_slice data = Some m"
    by (auto simp: json_ok_def)
  have "prefix bs (frame data @ wire_of to_vec ms)" using Cons.prems(2) by (simp add: wire_of_def d(1))
  then consider k where "k < length (frame data)" "bs = take k (frame data)"
    | rest where "bs = frame data @ rest" "prefix rest (wire_of to_vec ms)"
    unfolding prefix_append
  proof (elim disjE exE conjE)
    assume pre: "prefix bs (frame data)"
    show thesis
    proof (cases "length bs < length (frame data)")
      case True
      then show thesis using pre by (intro that(1) [of "length bs"]) (auto simp: prefix_def)
    next
      case False
      then have "bs = frame data" using pre by (auto simp: prefix_def)
      then show thesis by (intro that(2) [of "[]"]) simp_all
    qed
  qed (rule that(2))
  then show ?case
  proof cases
    case (1 k)
    then show ?thesis using read_frame_cut [OF d(3) 1(1), of from_slice] read_frames_Inl by auto
  next
    case (2 rest)
    have "prefix (read_frames from_slice rest) ms" using Cons 2(2) by simp
    then show ?thesis
      using read_frame_frame [of data from_slice m rest, OF d(2-4)] by (subst read_frames.simps) (simp add: 2(1))
  qed
qed

lemma written_in_order:
  assumes "\<forall>m\<in>set ms. json_ok to_vec from_slice m"
  shows "written (write_frames to_vec ms \<lparr>written = [], room = None\<rparr>) = wire_of to_vec ms"
  using write_frames_written [OF assms, of "\<lparr>written = [], room = None\<rparr>"] by auto

lemma lock_run_in_order:
  assumes "run (write_frame_locked to_vec) \<lparr>lw_guard = None, lw_out = []\<rparr> tr w"
  shows "list_all (Not \<circ> lets_go) tr \<and> list_all (json_ok to_vec from_slice) (concat (map entered tr)) \<longrightarrow>
      prefix (lw_out w) (written (write_frames to_vec (concat (map entered tr)) \<lparr>written = [], room = None\<rparr>))
    \<and> prefix (read_frames from_slice (lw_out w)) (concat (map entered tr))
    \<and> (lw_guard w = None \<longrightarrow>
        lw_out w = written (write_frames to_vec (concat (map entered tr)) \<lparr>written = [], room = None\<rparr>)
        \<and> read_frames from_slice (lw_out w) = concat (map entered tr))"
proof (intro impI, elim conjE)
  let ?ms = "concat (map entered tr)"
  assume go: "list_all (Not \<circ> lets_go) tr" and "list_all (json_ok to_vec from_slice) ?ms"
  then have ok: "\<forall>m\<in>set ?ms. json_ok to_vec from_slice m" by (simp only: list_all_iff)
  have out: "lw_out w @ unwritten w = wire_of to_vec ?ms"
    using lock_run_bytes [OF assms go] by (simp add: unwritten_def)
  then have pre: "prefix (lw_out w) (wire_of to_vec ?ms)" by (metis prefixI)
  have free: "lw_out w = wire_of to_vec ?ms" if "lw_guard w = None" using out that by (simp add: unwritten_def)
  have all: "read_frames from_slice (wire_of to_vec ?ms) = ?ms"
    using read_frames_wire [OF ok, of "[]"] by (simp add: read_frames_Nil)
  show "prefix (lw_out w) (written (write_frames to_vec ?ms \<lparr>written = [], room = None\<rparr>))
    \<and> prefix (read_frames from_slice (lw_out w)) ?ms
    \<and> (lw_guard w = None \<longrightarrow>
        lw_out w = written (write_frames to_vec ?ms \<lparr>written = [], room = None\<rparr>) \<and> read_frames from_slice (lw_out w) = ?ms)"
    using read_frames_prefix [OF ok pre] pre free all by (simp add: written_in_order [OF ok])
qed

text \<open>The holdings of the lock as the labels tell them: the task and its message, the bytes it wrote while it
  had the lock, and whether it let go. A write of a task without the lock would belong to none.\<close>

record holding =
  hl_task :: nat
  hl_msg :: msg
  hl_bytes :: "byte list"
  hl_cut :: bool

definition on_last :: "nat \<Rightarrow> (holding \<Rightarrow> holding) \<Rightarrow> holding list \<Rightarrow> holding list" where
  "on_last i f hs = (if hs \<noteq> [] \<and> hl_task (last hs) = i then butlast hs @ [f (last hs)] else hs)"

definition hold :: "lock_label \<Rightarrow> holding list \<Rightarrow> holding list" where
  "hold l hs =
     (case l of
        Locked i m \<Rightarrow> hs @ [\<lparr>hl_task = i, hl_msg = m, hl_bytes = [], hl_cut = False\<rparr>]
      | Wrote i bs \<Rightarrow> on_last i (\<lambda>h. h\<lparr>hl_bytes := hl_bytes h @ bs\<rparr>) hs
      | Let_go i \<Rightarrow> on_last i (\<lambda>h. h\<lparr>hl_cut := True\<rparr>) hs
      | _ \<Rightarrow> hs)"

definition holdings :: "lock_label list \<Rightarrow> holding list" where
  "holdings tr = fold hold tr []"

lemma holdings_snoc: "holdings (tr @ [l]) = hold l (holdings tr)"
  by (simp add: holdings_def)

lemma holdings_entered: "map hl_msg (holdings tr) = concat (map entered tr)"
proof (induction tr rule: rev_induct)
  case (snoc l tr)
  have last: "map hl_msg (on_last i f hs) = map hl_msg hs" if "\<And>h. hl_msg (f h) = hl_msg h" for i f hs
    by (cases hs rule: rev_cases) (simp_all add: on_last_def that)
  show ?case using snoc by (cases l) (simp_all add: holdings_snoc hold_def last)
qed (simp add: holdings_def)

definition frame_of :: "(msg \<Rightarrow> byte list option) \<Rightarrow> msg \<Rightarrow> byte list" where
  "frame_of to_vec m = written (snd (write_frame to_vec m \<lparr>written = [], room = None\<rparr>))"

definition holding_over :: "(msg \<Rightarrow> byte list option) \<Rightarrow> holding \<Rightarrow> bool" where
  "holding_over to_vec h \<longleftrightarrow> prefix (hl_bytes h) (frame_of to_vec (hl_msg h)) \<and> (\<not> hl_cut h \<longrightarrow> hl_bytes h = frame_of to_vec (hl_msg h))"

definition holdings_ok :: "(msg \<Rightarrow> byte list option) \<Rightarrow> holding list \<Rightarrow> locked_writer \<Rightarrow> bool" where
  "holdings_ok to_vec hs w \<longleftrightarrow>
     lw_out w = concat (map hl_bytes hs)
   \<and> (case lw_guard w of
        None \<Rightarrow> \<forall>h\<in>set hs. holding_over to_vec h
      | Some (i, rest) \<Rightarrow> (\<exists>over h. hs = over @ [h] \<and> (\<forall>h\<in>set over. holding_over to_vec h)
          \<and> hl_task h = i \<and> hl_bytes h @ rest = frame_of to_vec (hl_msg h) \<and> \<not> hl_cut h))"

lemma hold_step:
  assumes "write_frame_locked to_vec w l w'" "holdings_ok to_vec hs w"
  shows "holdings_ok to_vec (hold l hs) w'"
proof -
  have out: "lw_out w = concat (map hl_bytes hs)" using assms(2) by (simp add: holdings_ok_def)
  have free: "\<forall>h\<in>set hs. holding_over to_vec h" if "lw_guard w = None"
    using assms(2) that by (simp add: holdings_ok_def)
  have held: "\<exists>over h. hs = over @ [h] \<and> (\<forall>h\<in>set over. holding_over to_vec h) \<and> hl_task h = i
      \<and> hl_bytes h @ rest = frame_of to_vec (hl_msg h) \<and> \<not> hl_cut h" if "lw_guard w = Some (i, rest)" for i rest
    using assms(2) that by (simp add: holdings_ok_def)
  from assms(1) show ?thesis
  proof (cases rule: write_frame_locked.cases)
    case (locked m w'' i)
    then have "frame_of to_vec m = written w''" by (simp add: frame_of_def)
    then show ?thesis using out free locked by (simp add: holdings_ok_def hold_def)
  next
    case (not_sent m e w'' i)
    then show ?thesis using assms(2) by (simp add: hold_def)
  next
    case (wrote i bs rest)
    from held [OF wrote(3)] obtain over h where h: "hs = over @ [h]" "\<forall>h\<in>set over. holding_over to_vec h" "hl_task h = i"
      "hl_bytes h @ bs @ rest = frame_of to_vec (hl_msg h)" "\<not> hl_cut h" by blast
    then show ?thesis using out wrote by (simp add: holdings_ok_def hold_def on_last_def)
  next
    case (unlocked i)
    from held [OF unlocked(3)] obtain over h where h: "hs = over @ [h]" "\<forall>h\<in>set over. holding_over to_vec h"
      "hl_bytes h @ [] = frame_of to_vec (hl_msg h)" by blast
    then show ?thesis using out unlocked by (simp add: holdings_ok_def hold_def holding_over_def)
  next
    case (let_go i b bs)
    from held [OF let_go(3)] obtain over h where h: "hs = over @ [h]" "\<forall>h\<in>set over. holding_over to_vec h" "hl_task h = i"
      "hl_bytes h @ b # bs = frame_of to_vec (hl_msg h)" by blast
    have "prefix (hl_bytes h) (frame_of to_vec (hl_msg h))" using prefixI [OF h(4) [symmetric]] .
    then show ?thesis using out let_go h(1-3) by (simp add: holdings_ok_def hold_def on_last_def holding_over_def)
  qed
qed

lemma hold_run:
  "run (write_frame_locked to_vec) \<lparr>lw_guard = None, lw_out = []\<rparr> tr w \<Longrightarrow> holdings_ok to_vec (holdings tr) w"
proof (induction tr arbitrary: w rule: rev_induct)
  case Nil
  then show ?case by (simp add: holdings_ok_def holdings_def)
next
  case (snoc l tr)
  then obtain w' where "run (write_frame_locked to_vec) \<lparr>lw_guard = None, lw_out = []\<rparr> tr w'" "write_frame_locked to_vec w' l w"
    by (auto simp: run_append_iff run_Cons_iff)
  then show ?case using snoc.IH hold_step by (metis holdings_snoc)
qed

lemma holdings_segments:
  assumes "holdings_ok to_vec hs w" "k < length hs"
  shows "prefix (hl_bytes (hs ! k)) (frame_of to_vec (hl_msg (hs ! k)))
    \<and> (\<not> hl_cut (hs ! k) \<and> (Suc k < length hs \<or> lw_guard w = None) \<longrightarrow> hl_bytes (hs ! k) = frame_of to_vec (hl_msg (hs ! k)))"
proof (cases "lw_guard w")
  case None
  then have "holding_over to_vec (hs ! k)" using assms by (simp add: holdings_ok_def)
  then show ?thesis by (simp add: holding_over_def)
next
  case (Some g)
  then obtain over h where hs: "hs = over @ [h]" "\<forall>h\<in>set over. holding_over to_vec h"
    "hl_bytes h @ snd g = frame_of to_vec (hl_msg h)"
    using assms(1) by (auto simp: holdings_ok_def split: prod.splits)
  show ?thesis
  proof (cases "k < length over")
    case True
    then have "holding_over to_vec (hs ! k)" using hs(1,2) by (simp add: nth_append)
    then show ?thesis by (simp add: holding_over_def)
  next
    case False
    then have "hs ! k = h" "\<not> Suc k < length hs" using assms(2) hs(1) by (simp_all add: nth_append)
    then show ?thesis using Some prefixI [OF hs(3) [symmetric]] by simp
  qed
qed

section \<open>Properties\<close>

text \<open>C18: frames of different tasks never interleave. However the tasks' writes are cut into pieces and
  interleaved, and wherever tasks let go, the wire is one segment per holding of the lock, in the order in
  which the tasks got it: the bytes that the holder wrote, a beginning of the frame of its message, and the whole
  frame unless it let go or still has the lock. As long as no task lets go inside a frame, what can be read
  are the messages in that order, all of them when the lock is free, when the wire is exactly what writing
  those messages one after the other gives.\<close>

theorem locked_frames_in_lock_order:
  assumes "run (write_frame_locked to_vec) \<lparr>lw_guard = None, lw_out = []\<rparr> tr w"
  shows "map hl_msg (holdings tr) = concat (map entered tr)
    \<and> lw_out w = concat (map hl_bytes (holdings tr))
    \<and> (\<forall>k<length (holdings tr). let h = holdings tr ! k; whole = written (snd (write_frame to_vec (hl_msg h) \<lparr>written = [], room = None\<rparr>)) in
         prefix (hl_bytes h) whole \<and> (\<not> hl_cut h \<and> (Suc k < length (holdings tr) \<or> lw_guard w = None) \<longrightarrow> hl_bytes h = whole))
    \<and> (list_all (Not \<circ> lets_go) tr \<and> list_all (json_ok to_vec from_slice) (concat (map entered tr)) \<longrightarrow>
         prefix (lw_out w) (written (write_frames to_vec (concat (map entered tr)) \<lparr>written = [], room = None\<rparr>))
       \<and> prefix (read_frames from_slice (lw_out w)) (concat (map entered tr))
       \<and> (lw_guard w = None \<longrightarrow>
           lw_out w = written (write_frames to_vec (concat (map entered tr)) \<lparr>written = [], room = None\<rparr>)
           \<and> read_frames from_slice (lw_out w) = concat (map entered tr)))"
proof -
  have segs: "holdings_ok to_vec (holdings tr) w" by (rule hold_run [OF assms])
  then have "lw_out w = concat (map hl_bytes (holdings tr))" by (simp add: holdings_ok_def)
  then show ?thesis
    using holdings_entered holdings_segments [OF segs, unfolded frame_of_def] lock_run_in_order [OF assms, of from_slice]
    unfolding Let_def by blast
qed

text \<open>A run in which one task lets go inside its frame, and another then writes its own.\<close>

theorem locked_frames_in_lock_order_witness:
  "run (write_frame_locked byte_to_vec) \<lparr>lw_guard = None, lw_out = []\<rparr>
     [Locked 0 Stop, Wrote 0 [0, 0], Let_go 0, Locked 1 (Ack []), Wrote 1 [0, 0, 0], Wrote 1 [1, 2], Unlocked 1]
     \<lparr>lw_guard = None, lw_out = [0, 0, 0, 0, 0, 1, 2]\<rparr>
   \<and> map hl_bytes (holdings [Locked 0 Stop, Wrote 0 [0, 0], Let_go 0, Locked 1 (Ack []), Wrote 1 [0, 0, 0], Wrote 1 [1, 2], Unlocked 1])
     = [[0, 0], frame_of byte_to_vec (Ack [])]
   \<and> prefix [0, 0] (frame_of byte_to_vec Stop)"
proof -
  let ?step = "write_frame_locked byte_to_vec"
  let ?tr = "[Locked 0 Stop, Wrote 0 [0, 0], Let_go 0, Locked 1 (Ack []), Wrote 1 [0, 0, 0], Wrote 1 [1, 2], Unlocked 1]"
  have frames: "write_frame byte_to_vec Stop \<lparr>written = [], room = None\<rparr> = (Inr (), \<lparr>written = [0, 0] @ [0, 1, 1], room = None\<rparr>)"
      "write_frame byte_to_vec (Ack []) \<lparr>written = [], room = None\<rparr> = (Inr (), \<lparr>written = [0, 0, 0] @ [1, 2], room = None\<rparr>)"
    by code_simp+
  let ?w = "\<lambda>g bs. \<lparr>lw_guard = g, lw_out = bs\<rparr>"
  have run: "run ?step (?w None []) ?tr (?w None [0, 0, 0, 0, 0, 1, 2])"
    using locked [of "?w None []", OF _ frames(1), of 0] wrote [of "?w (Some (0, [0, 0] @ [0, 1, 1])) []" 0 "[0, 0]" "[0, 1, 1]"]
      let_go [of "?w (Some (0, [0, 1, 1])) [0, 0]" 0 0 "[1, 1]"] locked [of "?w None [0, 0]", OF _ frames(2), of 1]
      wrote [of "?w (Some (1, [0, 0, 0] @ [1, 2])) [0, 0]" 1 "[0, 0, 0]" "[1, 2]"]
      wrote [of "?w (Some (1, [1, 2])) [0, 0, 0, 0, 0]" 1 "[1, 2]" "[]"]
      unlocked [of "?w (Some (1, [])) [0, 0, 0, 0, 0, 1, 2]" 1]
    by (intro run_Cons run_Nil) simp_all
  have holdings: "holdings ?tr = [\<lparr>hl_task = 0, hl_msg = Stop, hl_bytes = [0, 0], hl_cut = True\<rparr>,
      \<lparr>hl_task = 1, hl_msg = Ack [], hl_bytes = [0, 0, 0, 1, 2], hl_cut = False\<rparr>]"
    by (simp add: holdings_def hold_def on_last_def)
  from locked_frames_in_lock_order [OF run, THEN conjunct2, THEN conjunct2, THEN conjunct1]
  have "prefix [0, 0] (frame_of byte_to_vec Stop) \<and> [0, 0, 0, 1, 2] = frame_of byte_to_vec (Ack [])"
    unfolding holdings Let_def by (auto simp: frame_of_def dest: spec [of _ 0] spec [of _ 1])
  then show ?thesis using run holdings by simp
qed

end
