(* ===== verification/Unit_Tests.thy ===== *)
theory Unit_Tests
  imports Command Serve
begin

text \<open>
  The unit tests of the repository (the \<open>tests\<close> modules of \<open>src/src\<close>), each as the conjunction of its
  assertions over the model, and that it holds: what \<open>cargo test\<close> checks of the program by running it, the
  kernel checks of the definitions by evaluation. A test that looks for a word in the text of an error is
  about the constructor that stands for that error. A test of a double against a decimal constant allows the same
  difference as the code.
\<close>

text \<open>\<open>unwrap\<close> and what is then asserted; an error that satisfies a condition.\<close>

definition unwrap_ok :: "'e + 'a \<Rightarrow> ('a \<Rightarrow> bool) \<Rightarrow> bool" where
  "unwrap_ok r P = (case r of Inl _ \<Rightarrow> False | Inr x \<Rightarrow> P x)"

definition unwrap_err_ok :: "'e + 'a \<Rightarrow> ('e \<Rightarrow> bool) \<Rightarrow> bool" where
  "unwrap_err_ok r P = (case r of Inl e \<Rightarrow> P e | Inr _ \<Rightarrow> False)"

definition near :: "f64 \<Rightarrow> rat \<Rightarrow> bool" where
  "near x r = (case x of Fin q \<Rightarrow> \<bar>q - r\<bar> < 1 | _ \<Rightarrow> False)"

definition contains :: "string \<Rightarrow> string \<Rightarrow> bool" where
  "contains s t = list_ex (prefix t) (suffixes s)"

section \<open>Host patterns and sizes\<close>

definition expand_simple_test :: bool where
  "expand_simple_test \<longleftrightarrow>
     unwrap_ok (expand_pattern ''srv{1..3}.example.com'') (\<lambda>got. got = [''srv1.example.com'', ''srv2.example.com'', ''srv3.example.com''])"

lemma expand_simple: expand_simple_test
  by code_simp

definition expand_padded_test :: bool where
  "expand_padded_test \<longleftrightarrow>
     unwrap_ok (expand_pattern ''n{01..03}'') (\<lambda>got. got = [''n01'', ''n02'', ''n03''])"

lemma expand_padded: expand_padded_test
  by code_simp

definition expand_in_middle_test :: bool where
  "expand_in_middle_test \<longleftrightarrow>
     unwrap_ok (expand_pattern ''rack-a{8..10}-x'') (\<lambda>got. got = [''rack-a8-x'', ''rack-a9-x'', ''rack-a10-x''])"

lemma expand_in_middle: expand_in_middle_test
  by code_simp

definition expand_nested_ranges_test :: bool where
  "expand_nested_ranges_test \<longleftrightarrow>
     unwrap_ok (expand_pattern ''r{1..2}h{1..2}'') (\<lambda>got. got = [''r1h1'', ''r1h2'', ''r2h1'', ''r2h2''])"

lemma expand_nested_ranges: expand_nested_ranges_test
  by code_simp

definition expand_reverse_test :: bool where
  "expand_reverse_test \<longleftrightarrow>
     unwrap_ok (expand_pattern ''x{3..1}'') (\<lambda>got. got = [''x3'', ''x2'', ''x1''])"

lemma expand_reverse: expand_reverse_test
  by code_simp

definition expand_list_dedup_test :: bool where
  "expand_list_dedup_test \<longleftrightarrow>
     unwrap_err_ok (expand_hostlist [''a{1..2}'', ''a1'']) (\<lambda>err. case err of DuplicateHost _ \<Rightarrow> True | _ \<Rightarrow> False)"

lemma expand_list_dedup: expand_list_dedup_test
  by code_simp

definition parse_sizes_test :: bool where
  "parse_sizes_test \<longleftrightarrow>
     unwrap_ok (parse_size ''100'') (\<lambda>v. v = 100)
     \<and> unwrap_ok (parse_size ''100MiB'') (\<lambda>v. v = 100 * 1024 * 1024)
     \<and> unwrap_ok (parse_size ''1KiB'') (\<lambda>v. v = 1024)
     \<and> unwrap_ok (parse_size ''1.5KiB'') (\<lambda>v. v = 1536)
     \<and> unwrap_ok (parse_size ''2MB'') (\<lambda>v. v = 2000000)"

lemma parse_sizes: parse_sizes_test
  by code_simp

section \<open>Configurations\<close>

text \<open>The tests call \<open>from_toml\<close> on a text; here on the table that the text denotes.\<close>

definition from_table :: "(string \<times> toml_value) list \<Rightarrow> config_error + config" where
  "from_table table = from_toml (\<lambda>_. Some (map_of table)) []"

definition toml_roundtrip_defaults_test :: bool where
  "toml_roundtrip_defaults_test \<longleftrightarrow>
     unwrap_ok (from_table [(''test_addr'', TStr ''10.1.2.3:9100''), (''hostlist'', TArr [TStr ''srv{1..2}.lab'']), (''tag'', TStr ''run1'')]) (\<lambda>c.
       client_addr c = DEFAULT_CLIENT_ADDR \<and> cfg_network c = Tcp \<and> payload_size c = DEFAULT_PAYLOAD_SIZE
       \<and> workers c = DEFAULT_WORKERS \<and> cfg_type c = Pairs \<and> hostlist c = [''srv1.lab'', ''srv2.lab'']
       \<and> hostlist_raw c = [''srv{1..2}.lab''] \<and> tag c = ''run1'' \<and> db_path c = ''run1.db'')"

lemma toml_roundtrip_defaults: toml_roundtrip_defaults_test
  by code_simp

definition db_filename_adds_db_suffix_test :: bool where
  "db_filename_adds_db_suffix_test \<longleftrightarrow>
     db_filename ''live'' = ''live.db'' \<and> db_filename ''live.db'' = ''live.db'' \<and> db_filename ''run.sqlite'' = ''run.sqlite.db''"

lemma db_filename_adds_db_suffix: db_filename_adds_db_suffix_test
  by code_simp

definition toml_rejects_unspecified_test_addr_test :: bool where
  "toml_rejects_unspecified_test_addr_test \<longleftrightarrow>
     unwrap_err_ok (from_table [(''test_addr'', TStr ''0.0.0.0:9100''), (''hostlist'', TArr [TStr ''a'', TStr ''b'']), (''tag'', TStr ''x'')])
       (\<lambda>err. case err of UnspecifiedTestAddr \<Rightarrow> True | _ \<Rightarrow> False)"

lemma toml_rejects_unspecified_test_addr: toml_rejects_unspecified_test_addr_test
  by code_simp

definition toml_rejects_v6_unspecified_test_addr_test :: bool where
  "toml_rejects_v6_unspecified_test_addr_test \<longleftrightarrow>
     unwrap_err_ok (from_table [(''test_addr'', TStr ''[::]:9100''), (''hostlist'', TArr [TStr ''a'', TStr ''b'']), (''tag'', TStr ''x'')])
       (\<lambda>err. case err of UnspecifiedTestAddr \<Rightarrow> True | _ \<Rightarrow> False)"

lemma toml_rejects_v6_unspecified_test_addr: toml_rejects_v6_unspecified_test_addr_test
  by code_simp

definition toml_payload_string_and_type_test :: bool where
  "toml_payload_string_and_type_test \<longleftrightarrow>
     unwrap_ok (from_table [(''test_addr'', TStr ''host:9100''), (''network'', TStr ''udp''), (''payload_size'', TStr ''64KiB''), (''workers'', TInt 4), (''type'', TStr ''mesh''), (''hostlist'', TStr ''n{1..3},edge''), (''tag'', TStr ''t'')]) (\<lambda>c.
       cfg_network c = Udp \<and> payload_size c = 64 * 1024 \<and> cfg_type c = Mesh
       \<and> hostlist c = [''n1'', ''n2'', ''n3'', ''edge''])"

lemma toml_payload_string_and_type: toml_payload_string_and_type_test
  by code_simp

definition invalid_tag_test :: bool where
  "invalid_tag_test \<longleftrightarrow>
     isl (from_table [(''test_addr'', TStr ''h:1''), (''hostlist'', TArr [TStr ''a'', TStr ''b'']), (''tag'', TStr ''foo/bar'')])"

lemma invalid_tag: invalid_tag_test
  by code_simp

section \<open>Addresses\<close>

definition parse_v4_test :: bool where
  "parse_v4_test \<longleftrightarrow>
     unwrap_ok (parse_host_port ''10.1.2.3:9100'') (\<lambda>(h, p). h = ''10.1.2.3'' \<and> p = 9100)"

lemma parse_v4: parse_v4_test
  by code_simp

definition parse_v6_test :: bool where
  "parse_v6_test \<longleftrightarrow>
     unwrap_ok (parse_host_port ''[2001:db8::1]:9100'') (\<lambda>(h, p). h = ''2001:db8::1'' \<and> p = 9100)"

lemma parse_v6: parse_v6_test
  by code_simp

definition parse_hostname_test :: bool where
  "parse_hostname_test \<longleftrightarrow>
     unwrap_ok (parse_host_port ''srv1.lab:7777'') (\<lambda>(h, p). h = ''srv1.lab'' \<and> p = 7777)"

lemma parse_hostname: parse_hostname_test
  by code_simp

definition parse_rejects_bare_v6_test :: bool where
  "parse_rejects_bare_v6_test \<longleftrightarrow>
     isl (parse_host_port ''2001:db8::1:9100'')"

lemma parse_rejects_bare_v6: parse_rejects_bare_v6_test
  by code_simp

definition unspecified_detection_test :: bool where
  "unspecified_detection_test \<longleftrightarrow>
     is_unspecified_host ''0.0.0.0'' \<and> is_unspecified_host ''::'' \<and> is_unspecified_host ''::0''
     \<and> \<not> is_unspecified_host ''127.0.0.1'' \<and> \<not> is_unspecified_host ''::1'' \<and> \<not> is_unspecified_host ''srv1''"

lemma unspecified_detection: unspecified_detection_test
  by code_simp

definition join_v6_test :: bool where
  "join_v6_test \<longleftrightarrow>
     join_host_port ''2001:db8::1'' 9 = ''[2001:db8::1]:9'' \<and> join_host_port ''srv1'' 9 = ''srv1:9''"

lemma join_v6: join_v6_test
  by code_simp

text \<open>The loopback addresses of both families and 10.0.0.5, port 9.\<close>

definition pick_prefers_v4_when_unspecified_family_test :: bool where
  "pick_prefers_v4_when_unspecified_family_test \<longleftrightarrow>
     unwrap_ok (pick_addr [SockV6 1 9 0 0, SockV4 0x7F000001 9] None) sock_is_ipv4
     \<and> unwrap_ok (pick_addr [SockV6 1 9 0 0, SockV4 0x7F000001 9] (Some FamV6)) sock_is_ipv6"

lemma pick_prefers_v4_when_unspecified_family: pick_prefers_v4_when_unspecified_family_test
  by code_simp

definition pick_skips_loopback_when_real_v4_exists_test :: bool where
  "pick_skips_loopback_when_real_v4_exists_test \<longleftrightarrow>
     unwrap_ok (pick_addr [SockV4 0x7F000001 9, SockV4 0x0A000005 9, SockV6 1 9 0 0] None)
       (\<lambda>a. sock_ip a = IpV4 0x0A000005)"

lemma pick_skips_loopback_when_real_v4_exists: pick_skips_loopback_when_real_v4_exists_test
  by code_simp

definition loopback_host_detection_test :: bool where
  "loopback_host_detection_test \<longleftrightarrow>
     is_loopback_host ''localhost'' \<and> is_loopback_host ''127.0.0.1'' \<and> is_loopback_host ''::1'' \<and> \<not> is_loopback_host ''srv1''"

lemma loopback_host_detection: loopback_host_detection_test
  by code_simp

section \<open>Counters, rates and the line of a window\<close>

definition delta_and_bps_test :: bool where
  "delta_and_bps_test \<longleftrightarrow>
     (let a = (snapshot atom_stats_default)\<lparr>bytes_sent := 100, bytes_recv := 50\<rparr>;
          b = (snapshot atom_stats_default)\<lparr>bytes_sent := 1100, bytes_recv := 50\<rparr>;
          d = delta a b
      in bytes_sent d = 1000 \<and> bytes_recv d = 0)
     \<and> near (bps 125000000 1000000000) 1000000000"

lemma delta_and_bps: delta_and_bps_test
  by code_simp

definition parse_stat_sample_test :: bool where
  "parse_stat_sample_test \<longleftrightarrow>
     parse_stat_cpu ''1234 (foo bar) S 1 1 1 0 -1 0 0 0 0 0 10 20 0 0 20 0 1 0 0 0 0 0 0 0 0 0 0 0 0 0 0 0 0 0 0 0 0 0 0''
       = Some (10, 20)"

lemma parse_stat_sample: parse_stat_sample_test
  by code_simp

text \<open>The test of the clocks, over what the three calls of \<open>clock_gettime\<close> give: it holds when the monotonic
  clock does not go back and the wall clock is past the first twenty minutes of 1970.\<close>

definition clocks_move_test :: "int \<times> int \<Rightarrow> int \<times> int \<Rightarrow> int \<times> int \<Rightarrow> bool" where
  "clocks_move_test ts_a ts_b ts_r \<longleftrightarrow>
     (let a = monotonic_ns (Some ts_a); b = monotonic_ns (Some ts_b); r = realtime_ns (Some ts_r)
      in a \<le> b \<and> 1000000000000 < r)"

lemma clocks_move:
  assumes "timespec_ok a" "timespec_ok b" "timespec_ok r" "fst a < fst b \<or> fst a = fst b \<and> snd a \<le> snd b" "1000 < fst r"
  shows "clocks_move_test a b r"
proof -
  have "realtime_ns (Some r) = monotonic_ns (Some r)" by (simp add: realtime_ns_def monotonic_ns_def)
  moreover have "1000000000000 < fst r * 1000000000 + snd r" using assms(3,5) by (simp add: timespec_ok_def)
  ultimately have "uint (1000000000000 :: u64) < uint (realtime_ns (Some r))" using assms(3) by (simp add: uint_monotonic_ns)
  then have "1000000000000 < realtime_ns (Some r)" by (simp only: word_less_def)
  then show ?thesis using assms monotonic_ns_mono [of a b] by (simp add: clocks_move_test_def)
qed

definition test_window :: metric_window where
  "test_window = \<lparr>mw_server = ''srv1'', mw_wall_start_ns = 0, mw_wall_end_ns = 0, mw_duration_ns = 97927043,
     mw_bytes_sent = 0, mw_bytes_recv = 0, mw_send_bps = rnd 41134000000, mw_recv_bps = rnd 49197000000,
     mw_packets_sent = 7683, mw_packets_recv = 0, mw_packets_dropped = 4, mw_cpu_pct = rnd (2757 / 10),
     mw_memory_bytes = u64_of_f64 (fmul (fmul (rnd (543 / 100)) (Fin 1024)) (Fin 1024)),
     mw_peers = [\<lparr>pm_peer = ''srv2'', pm_bytes_sent = 1, pm_bytes_recv = 1, pm_packets_sent = 1, pm_packets_recv = 1,
        pm_packets_dropped = 0\<rparr>]\<rparr>"

lemma format_test_window:
  "format_window test_window =
     ''[srv1]       window=0.0979s   send= 41.134 Gbps   recv= 49.197 Gbps''
     @ ''   drop=4      pkts=7683/0             cpu=275.7%   rss=5.43 MiB''"
  by code_simp

definition format_window_one_line_truncates_duration_test :: bool where
  "format_window_one_line_truncates_duration_test \<longleftrightarrow>
     (let s = format_window test_window
      in newline \<notin> set s \<and> contains s ''window=0.0979s'' \<and> \<not> contains s ''0.09792'' \<and> \<not> contains s ''srv2''
        \<and> contains s ''send='' \<and> contains s ''recv='' \<and> contains s ''drop=4'' \<and> contains s ''pkts=7683/0''
        \<and> contains s ''cpu=275.7%'')"

lemma format_window_one_line_truncates_duration: format_window_one_line_truncates_duration_test
  unfolding format_window_one_line_truncates_duration_test_def Let_def format_test_window
  by (simp add: contains_def newline_def)

section \<open>The report\<close>

definition parse_db_flag_test :: bool where
  "parse_db_flag_test \<longleftrightarrow>
     unwrap_ok (parse_args [''--db'', ''/tmp/run1.db'']) (\<lambda>p. p = ''/tmp/run1.db'')
     \<and> unwrap_ok (parse_args [''--db=./out/mesh-tcp.db'']) (\<lambda>p. p = ''./out/mesh-tcp.db'')
     \<and> isl (parse_args [''--db'']) \<and> isl (parse_args []) \<and> isl (parse_args [''live''])"

lemma parse_db_flag: parse_db_flag_test
  by code_simp

definition require_db_file_rejects_directory_test :: bool where
  "require_db_file_rejects_directory_test \<longleftrightarrow>
     unwrap_err_ok (require_db_file (\<lambda>_. Directory) ''/tmp'') (\<lambda>err. case err of Is_directory _ \<Rightarrow> True | _ \<Rightarrow> False)"

lemma require_db_file_rejects_directory: require_db_file_rejects_directory_test
  by code_simp

definition require_db_file_rejects_missing_test :: bool where
  "require_db_file_rejects_missing_test \<longleftrightarrow>
     unwrap_err_ok (require_db_file (\<lambda>_. Absent) ''/no/such/tperf-analyze.db'')
       (\<lambda>err. case err of File_not_found _ \<Rightarrow> True | _ \<Rightarrow> False)"

lemma require_db_file_rejects_missing: require_db_file_rejects_missing_test
  by code_simp

definition zero_send_samples_are_not_a_zero_rate_test :: bool where
  "zero_send_samples_are_not_a_zero_rate_test \<longleftrightarrow>
     (case from_samples [(1250000000, 1000000000)] of None \<Rightarrow> False | Some s \<Rightarrow> near (min_bps s) 10000000000)
     \<and> from_samples [] = None"

lemma zero_send_samples_are_not_a_zero_rate: zero_send_samples_are_not_a_zero_rate_test
  by code_simp

definition weighted_avg_and_minmax_test :: bool where
  "weighted_avg_and_minmax_test \<longleftrightarrow>
     (case from_samples [(1250000000, 1000000000), (3750000000, 1000000000)] of None \<Rightarrow> False
      | Some s \<Rightarrow> windows s = 2 \<and> near (min_bps s) 10000000000 \<and> near (max_bps s) 30000000000
          \<and> near (avg_bps s) 20000000000)
     \<and> (case from_samples [(1250000000, 1000000000), (3750000000 * 3, 3000000000)] of None \<Rightarrow> False
        | Some s \<Rightarrow> near (avg_bps s) 25000000000)"

lemma weighted_avg_and_minmax: weighted_avg_and_minmax_test
  by code_simp

definition mk_pair :: "string \<Rightarrow> string \<Rightarrow> nat \<Rightarrow> pair_stats" where
  "mk_pair src dst gbps = \<lparr>ps_src = src, ps_dst = dst,
     ps_stats = \<lparr>min_bps = Fin (of_nat gbps * 500000000), max_bps = Fin (of_nat gbps * 1000000000),
       avg_bps = Fin (of_nat gbps * 1000000000), windows = 1\<rparr>\<rparr>"

text \<open>The test sorts its own list by the average alone and keeps the first five.\<close>

definition worst_five_are_lowest_avg_test :: bool where
  "worst_five_are_lowest_avg_test \<longleftrightarrow>
     map (\<lambda>p. (ps_src p, ps_dst p))
       (take 5 (sort_by (\<lambda>a b. \<not> flt (avg_bps (ps_stats b)) (avg_bps (ps_stats a)))
         [mk_pair ''a'' ''b'' 50, mk_pair ''a'' ''c'' 10, mk_pair ''b'' ''a'' 40, mk_pair ''b'' ''c'' 11,
          mk_pair ''c'' ''a'' 9, mk_pair ''c'' ''b'' 30]))
     = [(''c'', ''a''), (''a'', ''c''), (''b'', ''c''), (''c'', ''b''), (''b'', ''a'')]"

lemma worst_five_are_lowest_avg: worst_five_are_lowest_avg_test
  by code_simp

section \<open>Datagrams\<close>

definition hdr_roundtrip_test :: bool where
  "hdr_roundtrip_test \<longleftrightarrow>
     (case Option.bind (write_hdr (replicate UDP_HDR 0) 7 99 1234) read_hdr of None \<Rightarrow> False
      | Some (sender, seq, len) \<Rightarrow> sender = 7 \<and> seq = 99 \<and> len = 1234)"

lemma hdr_roundtrip: hdr_roundtrip_test
  by code_simp

definition seq_gaps_test :: bool where
  "seq_gaps_test \<longleftrightarrow>
     (let slot = None;
          (slot, d) = note_seq slot 0; ok0 = (d = 0);
          (slot, d) = note_seq slot 1; ok1 = (d = 0);
          (slot, d) = note_seq slot 5; ok2 = (d = 3);
          (slot, d) = note_seq slot 6; ok3 = (d = 0);
          (slot, d) = note_seq slot 3; ok4 = (d = 0)
      in ok0 \<and> ok1 \<and> ok2 \<and> ok3 \<and> ok4)"

lemma seq_gaps: seq_gaps_test
  by code_simp

section \<open>Schedules\<close>

definition srv_names :: "nat \<Rightarrow> string list" where
  "srv_names n = map (\<lambda>i. ''srv'' @ show_nat i) [1..<Suc n]"

text \<open>The undirected pairs of a round, each once, with the smaller name first.\<close>

definition ordered_pair :: "string \<times> string \<Rightarrow> string \<times> string" where
  "ordered_pair p = (case p of (a, b) \<Rightarrow> if a \<le> b then (a, b) else (b, a))"

definition undirected_pairs :: "(string \<times> string) list \<Rightarrow> (string \<times> string) list" where
  "undirected_pairs pairs = remdups (map ordered_pair pairs)"

definition four_hosts_match_user_example_test :: bool where
  "four_hosts_match_user_example_test \<longleftrightarrow>
     (let rounds = round_robin_rounds (srv_names 4) in
      length rounds = 3 \<and> list_all (\<lambda>r. length r = 2) rounds
      \<and> list_all (\<lambda>r. distinct (concat (map (\<lambda>(a, b). [a, b]) r)) \<and> list_all (\<lambda>(a, b). a \<noteq> b) r
          \<and> length (undirected_pairs r) = length r) rounds
      \<and> distinct (concat (map undirected_pairs rounds)) \<and> length (concat (map undirected_pairs rounds)) = 6)"

lemma four_hosts_match_user_example: four_hosts_match_user_example_test
  by code_simp

definition five_hosts_bye_each_round_test :: bool where
  "five_hosts_bye_each_round_test \<longleftrightarrow>
     (let rounds = round_robin_rounds (srv_names 5) in
      length rounds = 5 \<and> list_all (\<lambda>r. length r = 2) rounds
      \<and> list_all (\<lambda>r. distinct (concat (map (\<lambda>(a, b). [a, b]) r))) rounds
      \<and> distinct (concat (map undirected_pairs rounds)) \<and> length (concat (map undirected_pairs rounds)) = 10)"

lemma five_hosts_bye_each_round: five_hosts_bye_each_round_test
  by code_simp

lemma undirected_pairs_of_rounds:
  assumes "distinct hosts"
  shows "distinct (concat (map undirected_pairs (round_robin_rounds hosts)))
    \<and> length (concat (map undirected_pairs (round_robin_rounds hosts))) = length (concat (round_robin_rounds hosts))"
proof -
  let ?rs = "round_robin_rounds hosts"
  have "map undirected (concat ?rs) = map undirected (map ordered_pair (concat ?rs))"
    by (auto simp: undirected_def ordered_pair_def)
  with rounds_each_once [OF assms] have d: "distinct (map ordered_pair (concat ?rs))" by (metis distinct_map)
  have "undirected_pairs r = map ordered_pair r" if "r \<in> set ?rs" for r
  proof -
    have "distinct (map ordered_pair r)"
      using d that by (auto simp: map_concat distinct_concat_iff)
    then show ?thesis by (simp only: undirected_pairs_def distinct_remdups_id)
  qed
  then have "concat (map undirected_pairs ?rs) = map ordered_pair (concat ?rs)"
    by (simp add: map_concat cong: map_cong)
  with d show ?thesis by simp
qed

definition forty_hosts_full_cover_test :: bool where
  "forty_hosts_full_cover_test \<longleftrightarrow>
     (let rounds = round_robin_rounds (srv_names 40) in
      length rounds = 39 \<and> list_all (\<lambda>r. length r = 20) rounds
      \<and> length (remdups (concat (map undirected_pairs rounds))) = 40 * 39 div 2)"

lemma forty_hosts_full_cover: forty_hosts_full_cover_test
proof -
  let ?rs = "round_robin_rounds (srv_names 40)"
  have names: "distinct (srv_names 40)" by code_simp
  have "length (srv_names 40) = 40" by (simp add: srv_names_def)
  then have rs: "length ?rs = 39" "\<forall>r\<in>set ?rs. length r = 20" using rounds_counts [OF names] by simp_all
  then have "map length ?rs = replicate 39 20" by (intro replicate_eqI) auto
  then have "length (concat ?rs) = 40 * 39 div 2" by (simp add: length_concat sum_list_replicate)
  with rs undirected_pairs_of_rounds [OF names] show ?thesis
    by (simp only: forty_hosts_full_cover_test_def Let_def distinct_remdups_id list_all_iff)
qed

definition pair_assignment_is_bidirectional_test :: bool where
  "pair_assignment_is_bidirectional_test \<longleftrightarrow>
     (case assignments_for_pairs (srv_names 4) [(''srv1'', ''srv2''), (''srv3'', ''srv4'')] of None \<Rightarrow> False
      | Some asg \<Rightarrow> map (\<lambda>i. map tgt_name (take 1 (targets (asg ! i)))) [0, 1, 2, 3] = [[''srv2''], [''srv1''], [''srv4''], [''srv3'']])"

lemma pair_assignment_is_bidirectional: pair_assignment_is_bidirectional_test
  by code_simp

definition mesh_all_to_all_test :: bool where
  "mesh_all_to_all_test \<longleftrightarrow>
     (let asg = assignments_mesh (srv_names 3) in
      map (\<lambda>i. length (targets (asg ! i))) [0, 1, 2] = [2, 2, 2] \<and> map tgt_name (targets (asg ! 1)) = [''srv1'', ''srv3''])"

lemma mesh_all_to_all: mesh_all_to_all_test
  by code_simp

end
