(* ===== verification/Spec2Isabelle.thy ===== *)
theory Spec2Isabelle
  imports Whole_Run Frame_Lock Unit_Tests
begin

text \<open>
  A verification development for \<^emph>\<open>tperf\<close>, a network throughput tester in Rust. One binary runs as
  server on every host, as client, or as the analyzer of a recorded run. A server waits for a
  client, which sends it a configuration and an assignment (its own identity and the targets to send to),
  sends traffic over TCP or UDP to its targets and receives from its peers, and reports one window of
  counters per second. The client connects to all hosts, hands out assignments (once for a mesh, once per round
  of a round-robin tournament for pairs), collects the windows into an SQLite file, and stops the
  servers when it is cancelled. The analyzer reads the file and reports rates per pair and in total.

  \<^bold>\<open>Theories\<close> (sources under \<open>src/src\<close>; a function keeps its name in the source)

  \<^item> \<open>Prelude\<close>, \<open>Rust_Str\<close>, \<open>Net_Addr\<close>, \<open>F64\<close>, \<open>Bytes\<close>, \<open>Transition\<close>: what the program takes from Rust and its
    standard library (saturating integers, \<open>str\<close> functions and number syntax, IP and socket addresses with
    their text, binary64 with rounding to nearest even, big-endian encodings), and runs of transition
    relations with their contracts (invariant, account of obligations, budget of steps).
  \<^item> \<open>Config\<close> (\<open>config.rs\<close>): the configuration, sizes (\<open>parse_size\<close>), host patterns (\<open>expand_pattern\<close>, \<open>expand_hostlist\<close>),
    \<open>validate\<close>, \<open>from_toml\<close>, the database name.
  \<^item> \<open>Netutil\<close>, \<open>Sockets\<close> (\<open>netutil.rs\<close>): \<open>parse_host_port\<close> and \<open>join_host_port\<close>, the choice of an address (\<open>pick_addr\<close>),
    local addresses, resolving and connecting with retries; \<open>tcp_listen\<close> and \<open>udp_bind\<close> as sequences of system calls.
  \<^item> \<open>Testplan\<close> (\<open>testplan.rs\<close>): the schedule (\<open>round_robin_rounds\<close>) and the assignments, which \<open>Wire\<close> declares
    together with the other messages.
  \<^item> \<open>Proto\<close>, \<open>Frame_Lock\<close> (\<open>proto.rs\<close>): messages and frames, \<open>write_frame\<close> on a writer that may break after any
    number of bytes, \<open>read_frame\<close> on the bytes that arrive; \<open>write_frame_locked\<close> as a step relation of tasks that
    write pieces of their frames under a lock.
  \<^item> \<open>Metrics\<close>, \<open>Format\<close> (\<open>metrics.rs\<close>): counters, snapshots and their differences, process samples, rates, windows and
    the line printed for a window.
  \<^item> \<open>Udp\<close>, \<open>Udp_Send\<close>, \<open>Tcp\<close>, \<open>Dataplane\<close> (\<open>dataplane.rs\<close>): datagram headers, \<open>note_seq\<close> and the receive loop; the
    UDP senders as a step relation that interleaves their workers between any two accesses to the sequence
    numbers, the total, a peer's counters and the socket (one \<open>add_sent\<close> or \<open>add_drop\<close> is one access); accept, receive and send of TCP; spawning a test.
  \<^item> \<open>Sampler\<close>, \<open>Server\<close>, \<open>Serve\<close> (\<open>server.rs\<close>): the metrics task (\<open>wait_until_mono\<close>, \<open>emit_window\<close>, \<open>metrics_loop\<close>), the session
    as a step relation of \<open>handle_conn\<close> and the metrics tasks over one connection, with \<open>RunningTest::stop\<close> and
    its abort, and the accept loop.
  \<^item> \<open>Client\<close>, \<open>Collect\<close> (\<open>client.rs\<close>): set-up, \<open>send_starts\<close>, \<open>wait_round\<close>, \<open>run_pair_rounds\<close>, the pump of a server; the pumps of
    all servers side by side with their shared counter and channel, the draining and the end of a run.
  \<^item> \<open>Db\<close> (\<open>db.rs\<close>): removal of old files, rows, the writer thread, \<open>Db::create\<close>, \<open>shutdown\<close>.
  \<^item> \<open>Analyze\<close> (\<open>analyze.rs\<close>): arguments, aggregation of rows, statistics, the worst pairs, the printed report.
  \<^item> \<open>Command\<close> (\<open>main.rs\<close>): the commands and the configuration each loads.
  \<^item> \<open>Unit_Tests\<close>: the unit tests of the repository as conjunctions of their assertions, evaluated on the model.
  \<^item> \<open>Whole_Run\<close> and this theory: properties that span the client, the servers and the analyzer.

  \<^bold>\<open>How the model corresponds to the code\<close>

  Integers are words of the width the code gives them, wrapping, saturating or panicking as it does; \<open>f64\<close> is
  the type of rationals on the binary64 grid with infinities and NaN (no signed zero: the program never
  distinguishes it). A string is its list of UTF-8 bytes. An error is a value of a datatype with a constructor for
  each \<open>bail!\<close> or \<open>context\<close>, in the left part of a sum; a panic, or a loop that has not returned yet, is \<open>None\<close>. What
  a task meets at an \<open>await\<close> (clock readings, cancellation, socket results, name lookups) is an argument, a list with one
  entry per turn, so that a theorem quantifies over all behaviours of the environment. Concurrency is a step
  relation: \<open>udp_step\<close> for the workers of a UDP test, \<open>session_step\<close> for the handler and the metrics task,
  \<open>write_frame_locked\<close> for the writers of a connection; the pumps of the client take the messages of an arbitrary
  interleaving of their connections. Counters are shared through the state of the relation.

  \<^bold>\<open>Parameters\<close>, with what is assumed of them where a theorem needs it: \<open>serde_json\<close> (\<open>json_ok\<close>: a message that
  is serialized is read back, and is not larger than a frame), the TOML parser (a table of fields), SQLite (a
  list of rows in insertion order, integers as \<open>i64\<close>), name lookup, the clocks, \<open>/proc\<close> and \<open>sysconf\<close>, the text of an error.

  \<^bold>\<open>What is shown\<close>

  \<^item> Schedule and plan: in one tournament each pair of hosts meets once, in rounds of disjoint pairs; the Starts
    that a host receives name every other host exactly once; the IPv4 addresses resolved by the client are
    those that the servers bind and send to, in the mesh and in every round, over UDP and TCP.
  \<^item> Server: the tests of all connections never overlap; every command is answered, once, in order, after at most
    four steps of the handler; no window follows the acknowledgement of a Stop; the windows of a session carry
    the name and the hosts of the Start they belong to and follow each other without a gap; those of the metrics loop
    account for all the traffic between its readings and are never ahead of their marks.
  \<^item> Connection: frames round-trip; a broken connection delivers a beginning of the messages; the client decodes
    exactly what a session sent unless a frame was cut; frames written under the lock never interleave, and only
    a task that lets go inside its frame leaves a part of one.
  \<^item> Runs: every window that the servers send is received once, in order, and stored, if the servers answer the
    Stop in time, and the report of that run gives for each pair the statistics of exactly the windows sent
    (\<open>system_run\<close> puts the client, the servers, the database and the analyzer together); otherwise what arrived
    before the deadline is stored; after a cancelled run the stopped servers are idle; a socket is handed out
    exactly when every call that counts succeeds.
  \<^item> UDP: under every interleaving no worker panics, no number is used twice, the counters never exceed what the
    socket took and the totals are the sums over the peers; the drop counter is the number of sequence
    numbers that did not arrive in turn, which with one worker and a network that keeps the order is the loss.
  \<^item> Test set-up: a test starts exactly the senders of its targets, to their assigned or resolved addresses.
  \<^item> TCP: bytes are attributed to the test and to the last host that resolves to the peer's address; senders count
    completed writes and a write that fails before cancellation.
  \<^item> Configuration: host patterns expand until no range is left, sizes are exact up to \<open>2^53\<close>, only
    validated configurations run, and their database is created unless the tag is \<open>.db\<close>; retries and waits are bounded
    and end with the outcome that the turn they end at calls for.
  \<^item> Analysis: rows round-trip; the report lists exactly the pairs with samples, with the statistics of exactly
    those samples; rates are within five roundings of the exact quotient; the worst pairs are the worst.

  Each interface is a locale, interpreted on the definitions of the code: \<open>fixed_codec\<close> (32- and 64-bit
  encodings), \<open>rounding\<close> (binary64), \<open>pair_schedule\<close> (the round robin), \<open>gap_detector\<close> (\<open>note_seq\<close>), \<open>addr_selector\<close>
  (\<open>pick_addr\<close>), \<open>total_preorder\<close> (the order of the worst pairs), and \<open>step_invariant\<close>, \<open>step_account\<close>, \<open>step_budget\<close> (sessions and
  the accept loop).

  \<^bold>\<open>Bounds.\<close> A retry loop runs on fuel and adds up the time of its attempts, its pauses and what they oversleep; the
  pauses grow to a bound, and for a deadline of at most 30 seconds 80 attempts are shown to be enough. The turns of an endless loop (metrics, rounds, receive) are a list, and the theorems
  hold for every list. A frame is at most \<open>MAX_FRAME\<close>, host ids are below \<open>2^32\<close>.

  \<^bold>\<open>Not modelled\<close>: the signal handler (the cancellation token it sets is in the environment of each loop),
  progress messages and the words of errors (an error is its constructor), and the scripts and packaging. The
  receive loops of accepted TCP connections run outside the \<open>JoinSet\<close> of their test, so that a test is over here does not
  say that they have read the cancelled token.
\<close>

section \<open>From the plan to the servers\<close>

lemma parse_show_v4: "sock_is_ipv4 a \<Longrightarrow> parse_sock (show_sock a) = Some a"
  by (cases a) (simp_all add: parse_sock_v4 del: show_sock.simps)

lemma show_v4_nonempty: "sock_is_ipv4 a \<Longrightarrow> show_sock a \<noteq> []"
  by (cases a) simp_all

text \<open>The plans of the client: the mesh, or the pairs of a round.\<close>

definition planned :: "string list \<Rightarrow> assignment list \<Rightarrow> bool" where
  "planned hosts plan \<longleftrightarrow>
     plan = assignments_mesh hosts \<or> (\<exists>r\<in>set (round_robin_rounds hosts). assignments_for_pairs hosts r = Some plan)"

lemma planned_ids:
  assumes "planned hosts plan" "distinct hosts" "length hosts \<le> 2 ^ 32"
  shows "length plan = length hosts
    \<and> (\<forall>i<length hosts. self_name (plan ! i) = hosts ! i \<and> unat (self_id (plan ! i)) = i
        \<and> (\<forall>t\<in>set (targets (plan ! i)). unat (tgt_id t) < length hosts \<and> hosts ! unat (tgt_id t) = tgt_name t))"
  using assms(1) unfolding planned_def
proof
  assume "plan = assignments_mesh hosts"
  then show ?thesis
    using assms(3) by (auto simp: assignments_mesh_def nth_enumerate_eq in_set_enumerate_eq unat_of_nat_small)
next
  assume "\<exists>r\<in>set (round_robin_rounds hosts). assignments_for_pairs hosts r = Some plan"
  then obtain r where r: "r \<in> set (round_robin_rounds hosts)" "assignments_for_pairs hosts r = Some plan" by blast
  have sub: "set (pair_hosts r) \<subseteq> set hosts" using rr.disjoint [OF assms(2) r(1)] by blast
  have plan: "plan = map (\<lambda>i. \<lparr>self_name = hosts ! i, self_id = of_nat i, asg_bind = [],
      targets = map (target_for hosts) (partners (hosts ! i) r)\<rparr>) [0..<length hosts]"
    using r(2) assignments_for_pairs_eq [OF assms(2) sub] by simp
  have "unat (tgt_id (target_for hosts n)) < length hosts \<and> hosts ! unat (tgt_id (target_for hosts n)) = tgt_name (target_for hosts n)"
    if "n \<in> set (partners h r)" for n h
    using that rr.partner_in_hosts [OF assms(2) r(1)] target_for_id [OF _ assms(2,3)] by (auto simp: target_for_def)
  then show ?thesis using assms(3) by (simp add: plan unat_of_nat_small)
qed

text \<open>C15: the client's plan arrives at the servers unchanged. Over IPv4, after the resolved addresses are
  filled into the assignments of the mesh or of any round of the pairs, every server binds the address
  resolved for its own host; and every sender goes to the address resolved for its target, over UDP and, at
  every attempt to connect, over TCP, without another name lookup.\<close>

theorem plan_reaches_servers:
  assumes "distinct hosts" "length hosts \<le> 2 ^ 32" "length resolved = length hosts" "\<forall>a\<in>set resolved. sock_is_ipv4 a"
    and "plan = assignments_mesh hosts \<or> (\<exists>r\<in>set (round_robin_rounds hosts). assignments_for_pairs hosts r = Some plan)"
  shows "\<exists>asg. fill_resolved plan resolved = Some asg \<and> length asg = length hosts
    \<and> (\<forall>i<length hosts. self_name (asg ! i) = hosts ! i \<and> map tgt_name (targets (asg ! i)) = map tgt_name (targets (plan ! i))
        \<and> resolve_bind env (asg ! i) port family = Some (Inr (resolved ! i))
        \<and> (\<forall>t\<in>set (targets (asg ! i)). unat (tgt_id t) < length hosts \<and> hosts ! unat (tgt_id t) = tgt_name t
            \<and> udp_dest env_of port family t = Some (Inr (resolved ! unat (tgt_id t)))
            \<and> tcp_connect env connect (tgt_name t) port (tgt_addr t)
                = connect_tcp_dest (ne_fuel env) (ne_polls env) connect (show_sock (resolved ! unat (tgt_id t))) CONNECT_DEADLINE))"
proof -
  let ?t = "\<lambda>t. t\<lparr>tgt_addr := show_sock (resolved ! unat (tgt_id t))\<rparr>"
  let ?a = "\<lambda>a. a\<lparr>asg_bind := show_sock (resolved ! unat (self_id a)), targets := map ?t (targets a)\<rparr>"
  have ids: "length plan = length hosts"
      "\<And>i. i < length hosts \<Longrightarrow> self_name (plan ! i) = hosts ! i \<and> unat (self_id (plan ! i)) = i
        \<and> (\<forall>t\<in>set (targets (plan ! i)). unat (tgt_id t) < length hosts \<and> hosts ! unat (tgt_id t) = tgt_name t)"
    using planned_ids [OF _ assms(1,2), of plan] assms(5) by (auto simp: planned_def)
  have v4: "parse_sock (show_sock (resolved ! k)) = Some (resolved ! k) \<and> show_sock (resolved ! k) \<noteq> []" if "k < length hosts" for k
    using that assms(3,4) by (simp add: parse_show_v4 show_v4_nonempty)
  have "\<forall>a\<in>set plan. unat (self_id a) < length resolved \<and> (\<forall>t\<in>set (targets a). unat (tgt_id t) < length resolved)"
  proof
    fix a assume "a \<in> set plan"
    then obtain i where "i < length hosts" "a = plan ! i" using ids(1) by (auto simp: in_set_conv_nth)
    then show "unat (self_id a) < length resolved \<and> (\<forall>t\<in>set (targets a). unat (tgt_id t) < length resolved)"
      using ids(2) assms(3) by simp
  qed
  then have fill: "fill_resolved plan resolved = Some (map ?a plan)" by (rule fill_resolved_eq)
  have bind: "resolve_bind env (map ?a plan ! i) port family = Some (Inr (resolved ! i))" if "i < length hosts" for i
    using that ids v4 [OF that] by (simp add: resolve_bind_def)
  have sender: "unat (tgt_id t) < length hosts \<and> hosts ! unat (tgt_id t) = tgt_name t
      \<and> udp_dest env_of port family t = Some (Inr (resolved ! unat (tgt_id t)))
      \<and> tcp_connect env connect (tgt_name t) port (tgt_addr t)
          = connect_tcp_dest (ne_fuel env) (ne_polls env) connect (show_sock (resolved ! unat (tgt_id t))) CONNECT_DEADLINE"
    if i: "i < length hosts" and t: "t \<in> set (targets (map ?a plan ! i))" for i t
  proof -
    obtain u where u: "u \<in> set (targets (plan ! i))" "t = ?t u" using i t ids(1) by auto
    then have "unat (tgt_id u) < length hosts" "hosts ! unat (tgt_id u) = tgt_name u" using ids(2) [OF i] by auto
    then show ?thesis
      using u(2) v4 by (simp add: udp_dest_def tcp_connect_def connect_tcp_addr_retry_def)
  qed
  show ?thesis
    using fill bind sender ids by (intro exI [of _ "map ?a plan"]) (simp add: comp_def)
qed

theorem plan_reaches_servers_witness:
  "\<exists>plan asg. assignments_for_pairs [''a'', ''b''] [(''a'', ''b'')] = Some plan
    \<and> fill_resolved plan [SockV4 1 9, SockV4 2 9] = Some asg
    \<and> resolve_bind sample_env (asg ! 0) 9 None = Some (Inr (SockV4 1 9))
    \<and> (\<forall>t\<in>set (targets (asg ! 0)). udp_dest (\<lambda>_. sample_env) 9 None t = Some (Inr (SockV4 2 9)))
    \<and> map tgt_name (targets (asg ! 0)) = [''b'']"
proof -
  have round: "[(''a'', ''b'')] \<in> set (round_robin_rounds [''a'', ''b''])" by code_simp
  have "case assignments_for_pairs [''a'', ''b''] [(''a'', ''b'')] of Some plan \<Rightarrow> map tgt_name (targets (plan ! 0)) = [''b''] | None \<Rightarrow> False"
    by code_simp
  then obtain plan where plan: "assignments_for_pairs [''a'', ''b''] [(''a'', ''b'')] = Some plan" "map tgt_name (targets (plan ! 0)) = [''b'']"
    by (auto split: option.splits)
  let ?connect = "\<lambda>(_ :: nat) (_ :: string). None :: unit option"
  have "\<exists>asg. fill_resolved plan [SockV4 1 9, SockV4 2 9] = Some asg \<and> length asg = length [''a'', ''b'']
    \<and> (\<forall>i<length [''a'', ''b'']. self_name (asg ! i) = [''a'', ''b''] ! i \<and> map tgt_name (targets (asg ! i)) = map tgt_name (targets (plan ! i))
        \<and> resolve_bind sample_env (asg ! i) 9 None = Some (Inr ([SockV4 1 9, SockV4 2 9] ! i))
        \<and> (\<forall>t\<in>set (targets (asg ! i)). unat (tgt_id t) < length [''a'', ''b''] \<and> [''a'', ''b''] ! unat (tgt_id t) = tgt_name t
            \<and> udp_dest (\<lambda>_. sample_env) 9 None t = Some (Inr ([SockV4 1 9, SockV4 2 9] ! unat (tgt_id t)))
            \<and> tcp_connect sample_env ?connect (tgt_name t) 9 (tgt_addr t)
                = connect_tcp_dest (ne_fuel sample_env) (ne_polls sample_env) ?connect (show_sock ([SockV4 1 9, SockV4 2 9] ! unat (tgt_id t))) CONNECT_DEADLINE))"
    using round plan(1) by (intro plan_reaches_servers) auto
  then obtain asg where asg: "fill_resolved plan [SockV4 1 9, SockV4 2 9] = Some asg"
      "map tgt_name (targets (asg ! 0)) = [''b'']" "resolve_bind sample_env (asg ! 0) 9 None = Some (Inr (SockV4 1 9))"
      "\<forall>t\<in>set (targets (asg ! 0)). unat (tgt_id t) < 2 \<and> [''a'', ''b''] ! unat (tgt_id t) = tgt_name t
        \<and> udp_dest (\<lambda>_. sample_env) 9 None t = Some (Inr ([SockV4 1 9, SockV4 2 9] ! unat (tgt_id t)))"
    using plan(2) by (elim exE conjE) (drule spec [of _ 0], force)
  have "udp_dest (\<lambda>_. sample_env) 9 None t = Some (Inr (SockV4 2 9))" if t: "t \<in> set (targets (asg ! 0))" for t
  proof -
    have "tgt_name t = ''b''" using t asg(2) by (metis image_eqI list.set_map list.set(1,2) singletonD)
    then show ?thesis using asg(4) t by (auto simp: less_2_cases_iff)
  qed
  then show ?thesis using plan(1) asg(1-3) by (intro exI [of _ plan] exI [of _ asg] conjI ballI)
qed

section \<open>The whole system\<close>

text \<open>C2: the whole system, from the plan to the report: the client runs against servers that serve all it writes to
  them, over connections that stay intact, and the servers' messages reach it, interleaved in any way, within five
  seconds of its Stops. If its run ends well, no server has a test left running, and the analysis of its database
  gives a report with the tag and the hosts of the configuration, whose pairs are exactly the pairs with traffic in the
  windows that the servers sent, each with the statistics of exactly those windows; there is no report only if
  no server sent a byte in a window long enough to count.\<close>

theorem system_run:
  assumes "client_run (sc_to_vec ctx) env cfg turns during draining = Some (Inr d, conns)"
    "distinct (hostlist cfg)" "length (hostlist cfg) \<le> 2 ^ 32" "opens_connections env"
    "\<forall>d resolved conns. client_setup env cfg = Some (Inr (d, resolved, conns)) \<longrightarrow>
      test_messages_ok (sc_to_vec ctx) (sc_from_slice ctx) cfg resolved"
    "\<forall>i<length (hostlist cfg). session_served ctx (written (snd (conns ! i))) (tr i) (s i)"
    "\<forall>i<length (hostlist cfg). items_for i (during @ map snd draining) = stream_of ctx (s i)"
    "\<forall>(t, ev)\<in>set draining. t < DRAIN_NS"
    "\<forall>w\<in>set (run_windows (length (hostlist cfg)) tr). \<forall>t. js_peers (ce_json env) (mw_peers w) = Some t \<longrightarrow> pj t = Some (mw_peers w)"
    "\<forall>t. js_strings (ce_json env) (hostlist cfg) = Some t \<longrightarrow> sj t = Some (hostlist cfg)"
    "require_db_file kind path = Inr ()" "open_db path = d"
  shows "(\<forall>i<length (hostlist cfg). ss_live (s i) = [])
    \<and> (case load kind sj pj display open_db path of
        Inl e \<Rightarrow> e = No_metrics path \<and> (\<forall>w\<in>set (run_windows (length (hostlist cfg)) tr). \<not> traffic w)
      | Inr rp \<Rightarrow> (\<exists>w\<in>set (run_windows (length (hostlist cfg)) tr). traffic w)
          \<and> rp_tag rp = tag cfg \<and> rp_hosts rp = hostlist cfg \<and> distinct (map (\<lambda>p. (ps_src p, ps_dst p)) (rp_pairs rp))
          \<and> (\<forall>p. p \<in> set (rp_pairs rp) \<longleftrightarrow>
              from_samples (concat (map (window_samples (ps_src p) (ps_dst p)) (run_windows (length (hostlist cfg)) tr))) = Some (ps_stats p)))"
proof -
  have "session_completed ctx (written (snd (conns ! i))) (tr i) (s i) \<and> ss_live (s i) = []" if "i < length (hostlist cfg)" for i
    by (rule run_served [OF assms(1-5) that]) (use assms(6) that in blast)
  then show ?thesis
    using report_of_a_run [where ctx = ctx and inp = "\<lambda>i. written (snd (conns ! i))" and tr = tr and s = s
          and open_db = open_db and path = path and pj = pj and sj = sj, OF assms(1) _ assms(7-12)]
    by blast
qed

text \<open>An instance: the two hosts of the sample configuration, of which only the first sends.\<close>

definition system_env :: client_env where
  "system_env = sample_client_env\<lparr>ce_net := (\<lambda>h. sample_env\<lparr>ne_dns := (\<lambda>_ _.
     Some [if h = ''a'' then SockV4 167772161 9100 else SockV4 167772162 9100])\<rparr>)\<rparr>"

lemma system_setup: "\<exists>d. client_setup system_env sample_config = Some (Inr (d, plan_resolved, opened sample_config))"
proof -
  have "case client_setup system_env sample_config of
      Some (Inr s) \<Rightarrow> snd s = (plan_resolved, opened sample_config) | _ \<Rightarrow> False"
    by code_simp
  from case_Some_InrD [OF this] show ?thesis by force
qed

lemma sample_peer_session:
  obtains io s where "run (session_step (sample_server w)) (session_new (frame [7] @ frame [2]) \<lparr>written = [], room = None\<rparr>)
     [Received (Start sample_config sample_peer), Test_started 0 io, Replied (Ack ''start'') (Inr ()), Received Stop,
      Test_stopped 0, Replied (Ack ''stop'') (Inr ())] s" "ss_pc s = Reading" "ss_in s = []"
proof -
  let ?ctx = "sample_server w"
  have "case start_test sample_start_env sample_config sample_peer of Some (Inr io) \<Rightarrow> True | _ \<Rightarrow> False" by code_simp
  from case_Some_InrD [OF this] obtain io where io: "start_test sample_start_env sample_config sample_peer = Some (Inr io)" by blast
  let ?r = "reading_of io" and ?m = "sampler_new (self_name sample_peer) (reading_of io)"
  let ?l = "\<lparr>lt_id = 0, lt_io = io, lt_sampler = ?m\<rparr>"
  have 1: "session_step ?ctx (session_new (frame [7] @ frame [2]) \<lparr>written = [], room = None\<rparr>) (Received (Start sample_config sample_peer))
      (sample_state (frame [2]) (Starting sample_config sample_peer) None [] 0 [])"
    using recv_start [of "session_new (frame [7] @ frame [2]) \<lparr>written = [], room = None\<rparr>" ?ctx sample_config sample_peer "frame [2]"]
      sample_reading [of "[7]" w "Start sample_config sample_peer" "frame [2]"]
    by (simp add: session_new_def sample_server_def take_test_def sample_state_def)
  have 2: "session_step ?ctx (sample_state (frame [2]) (Starting sample_config sample_peer) None [] 0 []) (Test_started 0 io)
      (sample_state (frame [2]) (Acking_start 0) None [?l] 1 [])"
    using started [OF _ io reads_reading_of, of "sample_state (frame [2]) (Starting sample_config sample_peer) None [] 0 []" ?ctx]
    by (simp add: sample_state_def)
  have 3: "session_step ?ctx (sample_state (frame [2]) (Acking_start 0) None [?l] 1 []) (Replied (Ack ''start'') (Inr ()))
      (sample_state (frame [2]) Reading (Some 0) [?l] 1 (frame [3]))"
    using start_acked [of "sample_state (frame [2]) (Acking_start 0) None [?l] 1 []" 0 ?ctx] sample_writing [of w "Ack ''start''" "[3]" "[]"]
    by (simp add: sample_server_def sample_state_def)
  have 5: "session_step ?ctx (sample_state [] (Stopping 0 Then_ack_stop) None [?l] 1 (frame [3])) (Test_stopped 0)
      (sample_state [] Acking_stop None [] 1 (frame [3]))"
    using stopped [of "sample_state [] (Stopping 0 Then_ack_stop) None [?l] 1 (frame [3])" 0 Then_ack_stop ?ctx]
    by (simp add: end_test_def sample_state_def)
  show thesis
    by (rule that [of io "sample_state [] Reading None [] 1 (frame [3] @ frame [4])"])
      (rule run_Cons [where step = "session_step ?ctx", OF 1], rule run_Cons [where step = "session_step ?ctx", OF 2],
       rule run_Cons [where step = "session_step ?ctx", OF 3], rule run_Cons [where step = "session_step ?ctx", OF sample_recv_stop],
       rule run_Cons [where step = "session_step ?ctx", OF 5], rule run_Cons [where step = "session_step ?ctx", OF sample_ack_stop],
       rule run_Nil, simp_all add: sample_state_def)
qed


definition peer_labels :: "test_io \<Rightarrow> session_label list" where
  "peer_labels io = [Received (Start sample_config sample_peer), Test_started 0 io, Replied (Ack ''start'') (Inr ()),
     Received Stop, Test_stopped 0, Replied (Ack ''stop'') (Inr ())]"

lemma sample_served:
  obtains io io' w s s' where
    "session_served (sample_server w) sample_input (sample_labels io w) s"
    "stream_of (sample_server w) s = map Inr [Ack ''start'', Metrics w, Ack ''stop'']"
    "session_served (sample_server w) (frame [7] @ frame [2]) (peer_labels io') s'"
    "stream_of (sample_server w) s' = map Inr [Ack ''start'', Ack ''stop'']"
    "sends_sample w" "storable (\<lambda>_. Some []) w"
proof -
  obtain io w s where a: "run (session_step (sample_server w)) (session_new sample_input \<lparr>written = [], room = None\<rparr>) (sample_labels io w) s"
      "ss_pc s = Reading" "ss_in s = []" "sends_sample w"
    by (rule sample_session)
  obtain io' s' where b: "run (session_step (sample_server w)) (session_new (frame [7] @ frame [2]) \<lparr>written = [], room = None\<rparr>) (peer_labels io') s'"
      "ss_pc s' = Reading" "ss_in s' = []"
    using sample_peer_session [of w] unfolding peer_labels_def by blast
  have served: "session_served (sample_server w) sample_input (sample_labels io w) s"
      "session_served (sample_server w) (frame [7] @ frame [2]) (peer_labels io') s'"
    using a b by (simp_all add: session_served_def sample_labels_def peer_labels_def sample_json_ok_replies)
  have "stream_of (sample_server w) s = map Inr [Ack ''start'', Metrics w, Ack ''stop'']"
    using session_stream [OF a(1)] served(1) by (simp add: session_served_def stream_of_def sample_labels_def)
  moreover have "stream_of (sample_server w) s' = map Inr [Ack ''start'', Ack ''stop'']"
    using session_stream [OF b(1)] served(2) by (simp add: session_served_def stream_of_def peer_labels_def)
  moreover have "storable (\<lambda>_. Some []) w"
    by (rule window_sent_storable [OF a(1)]) (simp_all add: windows_sent_def sample_labels_def)
  ultimately show thesis using served a(4) by (intro that)
qed

lemma system_client_run:
  assumes "drain [] (fold collect_step during (collect_new 2)) = Some (e, c)" "co_sent c = map Metric ws"
    "\<forall>w\<in>set ws. storable (\<lambda>_. Some []) w"
  shows "\<exists>d. client_run (sc_to_vec (sample_server w)) system_env sample_config [sample_cancelled] during []
    = Some (Inr d, [(''a'', \<lparr>written = sample_input, room = None\<rparr>), (''b'', \<lparr>written = frame [7] @ frame [2], room = None\<rparr>)])"
proof -
  obtain d0 where su: "client_setup system_env sample_config = Some (Inr (d0, plan_resolved, opened sample_config))"
    using system_setup by blast
  have "js_peers (ce_json system_env) = (\<lambda>_. Some [])" by (simp add: system_env_def sample_client_env_def)
  moreover obtain d where "db_shutdown (\<lambda>_. Some []) (tag sample_config) (map Metric ws) d0 = (Inr (), d)"
    using assms(3) by (auto simp: db_shutdown_ok)
  moreover have "length (stop_all to_vec [a, b]) = 2" for to_vec a b by (simp add: stop_all_def)
  ultimately have "client_run (sc_to_vec (sample_server w)) system_env sample_config [sample_cancelled] during []
      = Some (Inr d, stop_all (sc_to_vec (sample_server w)) [(''a'', \<lparr>written = frame [1], room = None\<rparr>), (''b'', \<lparr>written = frame [7], room = None\<rparr>)])"
    using assms(1,2) by (simp add: client_run_def su sample_test Let_def del: drain.simps)
  then show ?thesis by (simp only: sample_stopped) blast
qed

theorem system_run_witness:
  "\<exists>w during d conns rp. client_run (sc_to_vec (sample_server w)) system_env sample_config [sample_cancelled] during [] = Some (Inr d, conns)
    \<and> load (\<lambda>_. Regular_file) (\<lambda>_. Some [''a'', ''b'']) (\<lambda>_. Some (mw_peers w)) id (\<lambda>_. d) ''t.db'' = Inr rp
    \<and> rp_hosts rp = [''a'', ''b''] \<and> (\<exists>st. \<lparr>ps_src = ''a'', ps_dst = ''b'', ps_stats = st\<rparr> \<in> set (rp_pairs rp) \<and> windows st = 1)"
proof -
  obtain io io' w s s' where
      sv: "session_served (sample_server w) sample_input (sample_labels io w) s"
        "stream_of (sample_server w) s = map Inr [Ack ''start'', Metrics w, Ack ''stop'']"
        "session_served (sample_server w) (frame [7] @ frame [2]) (peer_labels io') s'"
        "stream_of (sample_server w) s' = map Inr [Ack ''start'', Ack ''stop'']"
    and w: "sends_sample w" "storable (\<lambda>_. Some []) w"
    by (rule sample_served)
  let ?during = "map (Arrives 0 \<circ> Inr) [Ack ''start'', Metrics w, Ack ''stop''] @ map (Arrives 1 \<circ> Inr) [Ack ''start'', Ack ''stop'']"
  let ?c = "fold collect_step ?during (collect_new 2)"
  have items: "items_for 0 ?during = stream_of (sample_server w) s" "items_for 1 ?during = stream_of (sample_server w) s'"
    by (simp_all add: sv(2,4))
  have "pu_status (co_pumps ?c ! 0) \<noteq> Pumping" "pu_status (co_pumps ?c ! 1) \<noteq> Pumping"
    by (subst collect_new_run(2), simp, simp add: pump_server_def pump_step_def pump_new_def)+
  then have "all_joined ?c"
    by (simp only: all_joined_def list_all_length collect_new_run(1)) (auto simp: less_2_cases_iff simp del: fold.simps fold_append)
  then have dr: "drain [] ?c = Some (Drained, ?c)" by (simp only: drain.simps if_True)
  have sent: "co_sent ?c = map Metric [w]"
    unfolding collect_new_run(3) by (simp add: pump_gains_def pump_step_def pump_new_def numeral_2_eq_2)
  let ?conns = "[(''a'', \<lparr>written = sample_input, room = None\<rparr>), (''b'', \<lparr>written = frame [7] @ frame [2], room = None\<rparr>)]"
  obtain d where run: "client_run (sc_to_vec (sample_server w)) system_env sample_config [sample_cancelled] ?during [] = Some (Inr d, ?conns)"
    using system_client_run [OF dr sent] w(2) by auto
  let ?tr = "\<lambda>i :: nat. if i = 0 then sample_labels io w else peer_labels io'" and ?s = "\<lambda>i :: nat. if i = 0 then s else s'"
  have n: "length (hostlist sample_config) = 2" and hosts: "hostlist sample_config = [''a'', ''b'']" by (simp_all add: sample_config_def)
  have ww: "run_windows (length (hostlist sample_config)) ?tr = [w]"
    by (simp add: run_windows_def n numeral_2_eq_2 windows_sent_def sample_labels_def peer_labels_def)
  have traffic: "traffic w" and samples: "window_samples ''a'' ''b'' w = [(1000, 1000000000)]"
    using w(1) by (simp_all add: sends_sample_def traffic_def window_samples_def MIN_WINDOW_NS_def)
  let ?load = "load (\<lambda>_. Regular_file) (\<lambda>_. Some [''a'', ''b'']) (\<lambda>_. Some (mw_peers w)) id (\<lambda>_. d) ''t.db''"
  have rep: "case ?load of Inl e \<Rightarrow> e = No_metrics ''t.db'' \<and> (\<forall>w\<in>set [w]. \<not> traffic w)
      | Inr rp \<Rightarrow> (\<exists>w\<in>set [w]. traffic w) \<and> rp_tag rp = tag sample_config \<and> rp_hosts rp = hostlist sample_config
          \<and> distinct (map (\<lambda>p. (ps_src p, ps_dst p)) (rp_pairs rp))
          \<and> (\<forall>p. p \<in> set (rp_pairs rp) \<longleftrightarrow> from_samples (concat (map (window_samples (ps_src p) (ps_dst p)) [w])) = Some (ps_stats p))"
  proof (rule conjunct2 [OF system_run [where tr = ?tr and s = ?s and conns = ?conns, OF run, unfolded ww]])
    show "opens_connections system_env" by (simp add: opens_connections_def system_env_def sample_client_env_def)
    show "\<forall>d resolved conns. client_setup system_env sample_config = Some (Inr (d, resolved, conns)) \<longrightarrow>
        test_messages_ok (sc_to_vec (sample_server w)) (sc_from_slice (sample_server w)) sample_config resolved"
      using system_setup sample_messages_ok by auto
    show "\<forall>i<length (hostlist sample_config). session_served (sample_server w) (written (snd (?conns ! i))) (?tr i) (?s i)"
      using sv(1,3) by (auto simp: n less_2_cases_iff)
    show "\<forall>i<length (hostlist sample_config). items_for i (?during @ map snd []) = stream_of (sample_server w) (?s i)"
      using items by (auto simp: n less_2_cases_iff simp flip: One_nat_def simp del: items_for.simps list.map(2))
  qed (simp_all add: hosts require_db_file_def)
  then obtain rp where rp: "?load = Inr rp" "rp_hosts rp = [''a'', ''b'']"
      "\<forall>p. p \<in> set (rp_pairs rp) \<longleftrightarrow> from_samples (concat (map (window_samples (ps_src p) (ps_dst p)) [w])) = Some (ps_stats p)"
    using traffic by (auto simp: hosts split: sum.splits)
  obtain st where "from_samples [(1000, 1000000000)] = Some st" "windows st = 1" by (auto simp: from_samples_def Let_def)
  then have "\<lparr>ps_src = ''a'', ps_dst = ''b'', ps_stats = st\<rparr> \<in> set (rp_pairs rp) \<and> windows st = 1"
    using rp(3) by (simp add: samples)
  with run rp(1,2) show ?thesis by blast
qed

end
